(* ===== verification/Prelude.thy ===== *)
theory Prelude
  imports Main "HOL-Library.Word" "HOL-Library.Multiset"
begin

unbundle bit_operations_syntax

text \<open>
  What every component shares: the ways the C++ code can go wrong (\<open>error\<close>), results that
  carry them (\<open>'a result\<close>) with their sequencing \<open>and_then\<close>, the signed 32-bit \<open>int\<close>
  arithmetic of the code (overflow is undefined behaviour and so an error), counted loops, and
  generic facts about lists, maps and multisets.
\<close>

section \<open>Errors and results\<close>

text \<open>
  \<open>AssertionFailed\<close>: an \<open>assert\<close> of the source does not hold; \<open>NullDeref\<close> and
  \<open>InvalidPointer\<close>: a null pointer, or one that was never allocated, is dereferenced;
  \<open>OutOfBounds\<close>: an array access outside the array; \<open>SignedOverflow\<close>: arithmetic on
  \<open>int\<close> leaves its range; \<open>UseAfterFree\<close>: a method runs on an object whose destructor
  has run; \<open>BadArrayLength\<close>: an array is created with a negative length.
\<close>

datatype error =
    AssertionFailed
  | NullDeref
  | InvalidPointer
  | OutOfBounds
  | SignedOverflow
  | UseAfterFree
  | BadArrayLength

type_synonym 'a result = "error + 'a"

text \<open>Sequencing: the rest of the code runs only where the first part did not fail.\<close>

fun and_then :: "'a result \<Rightarrow> ('a \<Rightarrow> 'b result) \<Rightarrow> 'b result" where
  "and_then (Inl e) f = Inl e"
| "and_then (Inr a) f = f a"

lemma and_then_Inr_iff: "and_then m f = Inr b \<longleftrightarrow> (\<exists>a. m = Inr a \<and> f a = Inr b)"
  by (cases m) auto

lemma and_then_Inl_iff:
  "and_then m f = Inl e \<longleftrightarrow> m = Inl e \<or> (\<exists>a. m = Inr a \<and> f a = Inl e)"
  by (cases m) auto

lemma and_then_assoc: "and_then (and_then m f) g = and_then m (\<lambda>a. and_then (f a) g)"
  by (cases m) auto

lemma and_then_Inr_right [simp]: "and_then m Inr = m"
  by (cases m) auto

definition assert_that :: "bool \<Rightarrow> unit result" where
  "assert_that b = (if b then Inr () else Inl AssertionFailed)"

lemma assert_that_simps [simp]:
  "assert_that True = Inr ()" "assert_that False = Inl AssertionFailed"
  by (simp_all add: assert_that_def)

lemma assert_that_Inr_iff [simp]: "assert_that b = Inr u \<longleftrightarrow> b"
  by (simp add: assert_that_def)

lemma assert_that_Inl_iff [simp]: "assert_that b = Inl e \<longleftrightarrow> \<not> b \<and> e = AssertionFailed"
  by (auto simp: assert_that_def)

section \<open>Signed 32-bit integers\<close>

abbreviation INT_MAX :: int where "INT_MAX \<equiv> 2147483647"
abbreviation INT_MIN :: int where "INT_MIN \<equiv> -2147483648"

definition int_add :: "int \<Rightarrow> int \<Rightarrow> int result" where
  "int_add a b =
     (if INT_MIN \<le> a + b \<and> a + b \<le> INT_MAX then Inr (a + b) else Inl SignedOverflow)"

definition int_mul :: "int \<Rightarrow> int \<Rightarrow> int result" where
  "int_mul a b =
     (if INT_MIN \<le> a * b \<and> a * b \<le> INT_MAX then Inr (a * b) else Inl SignedOverflow)"

lemma int_add_ok: "INT_MIN \<le> a + b \<Longrightarrow> a + b \<le> INT_MAX \<Longrightarrow> int_add a b = Inr (a + b)"
  by (simp add: int_add_def)

lemma int_add_Inr_iff:
  "int_add a b = Inr c \<longleftrightarrow> c = a + b \<and> INT_MIN \<le> a + b \<and> a + b \<le> INT_MAX"
  by (auto simp: int_add_def)

lemma int_add_Inl_iff:
  "int_add a b = Inl e \<longleftrightarrow> e = SignedOverflow \<and> \<not> (INT_MIN \<le> a + b \<and> a + b \<le> INT_MAX)"
  by (auto simp: int_add_def)

section \<open>Counted loops\<close>

text \<open>
  \<open>for (int i = start; i < start + n; i++) body\<close>: the body runs for \<open>n\<close> consecutive
  values of the counter and may fail.
\<close>

fun for_loop :: "(nat \<Rightarrow> 's \<Rightarrow> 's result) \<Rightarrow> nat \<Rightarrow> nat \<Rightarrow> 's \<Rightarrow> 's result" where
  "for_loop body i 0 s = Inr s"
| "for_loop body i (Suc n) s = and_then (body i s) (for_loop body (Suc i) n)"

lemma for_loop_snoc:
  "for_loop body i (Suc n) s = and_then (for_loop body i n s) (body (i + n))"
proof (induction n arbitrary: i s)
  case 0
  show ?case by (cases "body i s") simp_all
next
  case (Suc n)
  show ?case
  proof (cases "body i s")
    case (Inl e)
    then show ?thesis by simp
  next
    case (Inr a)
    then show ?thesis
      by (simp only: for_loop.simps(2) [of body i] Suc.IH [of "Suc i" a] and_then.simps add_Suc_shift)
  qed
qed

text \<open>
  The loop rule: an invariant over the number of iterations done, kept by every iteration that
  is reached, makes the whole loop run without error.
\<close>

lemma for_loop_invariant:
  assumes "P 0 s"
    and "\<And>k s. k < n \<Longrightarrow> P k s \<Longrightarrow> \<exists>s'. body (i + k) s = Inr s' \<and> P (Suc k) s'"
  shows "\<exists>s'. for_loop body i n s = Inr s' \<and> P n s'"
  using assms
proof (induction n)
  case 0
  then show ?case by simp
next
  case (Suc n)
  then obtain s' where "for_loop body i n s = Inr s'" "P n s'"
    by (metis less_SucI)
  moreover from Suc.prems(2) [OF lessI this(2)] obtain s''
    where "body (i + n) s' = Inr s''" "P (Suc n) s''" by blast
  ultimately show ?case
    by (metis for_loop_snoc and_then.simps(2))
qed

text \<open>Two loops whose bodies keep a relation between their states end in related results.\<close>

lemma for_loop_simulation:
  assumes "\<And>k s t. R s t \<Longrightarrow> rel_sum (=) R (body k s) (body' k t)" and "R s t"
  shows "rel_sum (=) R (for_loop body i n s) (for_loop body' i n t)"
  using assms(2)
proof (induction n arbitrary: i s t)
  case 0
  then show ?case by simp
next
  case (Suc n)
  from assms(1) [OF Suc.prems, of i] show ?case
    by (cases rule: rel_sum.cases) (auto simp: Suc.IH)
qed

section \<open>Electing one winner\<close>

text \<open>Several callers make the same attempt one after the other; the outcomes, in order.\<close>

fun attempt_all :: "('r \<Rightarrow> 's \<Rightarrow> (bool \<times> 's) result) \<Rightarrow> 'r list \<Rightarrow> 's \<Rightarrow> (bool list \<times> 's) result" where
  "attempt_all attempt [] s = Inr ([], s)"
| "attempt_all attempt (r # rs) s =
     and_then (attempt r s) (\<lambda>(won, s1).
     and_then (attempt_all attempt rs s1) (\<lambda>(wons, s2).
     Inr (won # wons, s2)))"

text \<open>
  The contract of an epoch counter that callers try to advance: a caller wins exactly when the
  epoch it has \<open>seen\<close> is still the \<open>current\<close> one, a win advances the counter by one, and a loss
  changes nothing.
\<close>

locale epoch_election =
  fixes attempt :: "'r \<Rightarrow> 's \<Rightarrow> (bool \<times> 's) result"
    and current :: "'s \<Rightarrow> int"
    and seen :: "'r \<Rightarrow> 's \<Rightarrow> int"
    and ready :: "'r \<Rightarrow> 's \<Rightarrow> bool"
  assumes total: "ready r s \<Longrightarrow> \<exists>won s'. attempt r s = Inr (won, s')"
    and won_iff: "attempt r s = Inr (won, s') \<Longrightarrow> won \<longleftrightarrow> seen r s = current s"
    and won_advances: "attempt r s = Inr (True, s') \<Longrightarrow> current s' = current s + 1"
    and lost_same: "attempt r s = Inr (False, s') \<Longrightarrow> s' = s"
    and seen_frame: "attempt r s = Inr (won, s') \<Longrightarrow> seen r' s' = seen r' s"
    and ready_frame: "attempt r s = Inr (won, s') \<Longrightarrow> ready r' s \<Longrightarrow> seen r' s \<le> current s \<Longrightarrow>
      ready r' s'"
begin

lemma all_lose:
  assumes "\<And>r. r \<in> set rs \<Longrightarrow> ready r s \<and> seen r s \<noteq> current s"
  shows "attempt_all attempt rs s = Inr (replicate (length rs) False, s)"
  using assms
proof (induction rs)
  case Nil
  then show ?case by simp
next
  case (Cons r rs)
  then obtain won s1 where r: "attempt r s = Inr (won, s1)"
    using total by (meson list.set_intros(1))
  with Cons.prems have "\<not> won" using won_iff [OF r] by simp
  with r have "attempt r s = Inr (False, s)" using lost_same by auto
  with Cons show ?case by simp
qed

lemma one_winner:
  assumes "rs \<noteq> []" and "\<And>r. r \<in> set rs \<Longrightarrow> ready r s \<and> seen r s = current s"
  shows "\<exists>s'. attempt_all attempt rs s = Inr (True # replicate (length rs - 1) False, s')
    \<and> attempt (hd rs) s = Inr (True, s') \<and> current s' = current s + 1"
proof -
  from assms(1) obtain r rs' where rs: "rs = r # rs'" by (cases rs) auto
  with assms(2) have r: "ready r s" "seen r s = current s" by auto
  then obtain won s' where att: "attempt r s = Inr (won, s')" using total by blast
  with r won_iff [OF att] have won: "attempt r s = Inr (True, s')" by simp
  have "attempt_all attempt rs' s' = Inr (replicate (length rs') False, s')"
  proof (rule all_lose)
    fix q assume "q \<in> set rs'"
    with assms(2) rs have "ready q s" "seen q s = current s" by auto
    with won won_advances [OF won] seen_frame [OF won] ready_frame [OF won]
    show "ready q s' \<and> seen q s' \<noteq> current s'" by auto
  qed
  with rs won won_advances [OF won] show ?thesis by simp
qed

end

section \<open>Lists, sums and multisets\<close>

lemma sum_list_map_update:
  fixes f :: "'a \<Rightarrow> 'b::comm_monoid_add"
  assumes "k < length xs"
  shows "sum_list (map f (xs[k := x])) + f (xs ! k) = sum_list (map f xs) + f x"
  using assms
proof (induction xs arbitrary: k)
  case Nil
  then show ?case by simp
next
  case (Cons y ys)
  show ?case
  proof (cases k)
    case 0
    then show ?thesis by (simp add: ac_simps)
  next
    case (Suc j)
    with Cons have "sum_list (map f (ys[j := x])) + f (ys ! j) = sum_list (map f ys) + f x"
      by simp
    with Suc show ?thesis by (simp add: ac_simps)
  qed
qed

lemma mset_butlast_last: "xs \<noteq> [] \<Longrightarrow> mset (butlast xs) + {#last xs#} = mset xs"
  by (metis append_butlast_last_id mset.simps(1) mset.simps(2) mset_append add_mset_add_single)

lemma count_ge_1: "x \<in> set xs \<Longrightarrow> 1 \<le> count (mset xs) x"
  by (metis One_nat_def Suc_leI count_greater_zero_iff set_mset_mset)

lemma in_sum_list_iff: "a \<in># (\<Sum>x\<leftarrow>xs. f x) \<longleftrightarrow> (\<exists>x \<in> set xs. a \<in># f x)"
  by (induction xs) auto

end
