(* ===== verification/EventLayout.thy ===== *)
theory EventLayout
  imports Prelude
begin

text \<open>
  \<open>LoggerConsts.h\<close> and the bit layouts of the events written by \<open>Main.cc\<close> and
  \<open>local_writes_benchmarks.cc\<close>: the constants, one encoder per layout, the fields that the
  layout comments promise, and how far the encoders keep that promise.
\<close>

section \<open>Constants of LoggerConsts.h\<close>

type_synonym u64 = "64 word"
type_synonym u32 = "32 word"

definition TSAN_HDR_ZERO_MASK :: u64 where
  "TSAN_HDR_ZERO_MASK = NOT (push_bit 60 0xF)"

definition TSAN_VAL_ZERO_MASK :: u64 where
  "TSAN_VAL_ZERO_MASK = NOT (push_bit 52 0xFFF)"

definition TSAN_LOC_ZERO_MASK :: u64 where
  "TSAN_LOC_ZERO_MASK = NOT (push_bit 32 0xFFFFFFFF)"

definition TSAN_RDTSC :: u64 where "TSAN_RDTSC = push_bit 60 1"
definition TSAN_WRITE1 :: u64 where "TSAN_WRITE1 = push_bit 60 0xC"
definition TSAN_WRITE2 :: u64 where "TSAN_WRITE2 = push_bit 60 0xD"
definition TSAN_WRITE4 :: u64 where "TSAN_WRITE4 = push_bit 60 0xE"
definition TSAN_WRITE8 :: u64 where "TSAN_WRITE8 = push_bit 60 0xF"

section \<open>Encoders of Main.cc\<close>

text \<open>
  \<open>uint64_t((char) val)\<close>: the last byte of the value. On the x86-64 targets of the code
  \<open>char\<close> is signed, so the conversion back to 64 bits extends its sign.
\<close>

definition u64_of_char :: "u64 \<Rightarrow> u64" where
  "u64_of_char val = scast (ucast val :: 8 word)"

definition src_loc :: "u64 \<Rightarrow> u64" where
  "src_loc pc = drop_bit 4 (push_bit 44 pc)"

definition encode_header :: "u64 \<Rightarrow> u64" where
  "encode_header addr = TSAN_WRITE8 OR (TSAN_HDR_ZERO_MASK AND addr)"

definition encode_value :: "u64 \<Rightarrow> u64 \<Rightarrow> u64" where
  "encode_value addr val =
     TSAN_WRITE8 OR push_bit 52 (u64_of_char val) OR (TSAN_VAL_ZERO_MASK AND addr)"

definition encode_src_loc :: "u64 \<Rightarrow> u64 \<Rightarrow> u64 \<Rightarrow> u64" where
  "encode_src_loc pc addr val =
     TSAN_WRITE8 OR src_loc pc OR push_bit 32 (u64_of_char val) OR (TSAN_LOC_ZERO_MASK AND addr)"

text \<open>The first word of a 128-bit event; the second word is the address itself.\<close>

definition encode_full_128 :: "u64 \<Rightarrow> u64 \<Rightarrow> u64" where
  "encode_full_128 pc val = TSAN_WRITE8 OR src_loc pc OR ucast (ucast val :: u32)"

definition encode_global_counter :: "u64 \<Rightarrow> u64 \<Rightarrow> u64" where
  "encode_global_counter eventId addr = push_bit 32 eventId OR (TSAN_LOC_ZERO_MASK AND addr)"

section \<open>Encoders of local\_writes\_benchmarks.cc\<close>

definition bench_loc :: "u64 \<Rightarrow> u64" where
  "bench_loc pc = drop_bit 12 (push_bit 44 pc)"

definition encode_bench :: "u64 \<Rightarrow> u64 \<Rightarrow> u64 \<Rightarrow> u64" where
  "encode_bench pc addr val =
     TSAN_WRITE8 OR push_bit 52 (u64_of_char val) OR bench_loc pc OR (TSAN_LOC_ZERO_MASK AND addr)"

definition encode_rdtsc :: "u64 \<Rightarrow> u64" where
  "encode_rdtsc t = TSAN_RDTSC OR (TSAN_HDR_ZERO_MASK AND t)"

section \<open>Fields\<close>

text \<open>\<open>field lo n w\<close>: the \<open>n\<close> bits of \<open>w\<close> from bit \<open>lo\<close> on.\<close>

definition field :: "nat \<Rightarrow> nat \<Rightarrow> u64 \<Rightarrow> u64" where
  "field lo n w = take_bit n (drop_bit lo w)"

text \<open>The layout of \<open>LoggerConsts.h\<close>: header, source location, value, address.\<close>

definition hdr_field :: "u64 \<Rightarrow> u64" where "hdr_field = field 60 4"
definition loc_field :: "u64 \<Rightarrow> u64" where "loc_field = field 40 20"
definition val_field :: "u64 \<Rightarrow> u64" where "val_field = field 32 8"
definition addr_field :: "u64 \<Rightarrow> u64" where "addr_field = field 0 32"

lemmas field_defs = field_def hdr_field_def loc_field_def val_field_def addr_field_def

lemmas const_defs = TSAN_HDR_ZERO_MASK_def TSAN_VAL_ZERO_MASK_def TSAN_LOC_ZERO_MASK_def
  TSAN_RDTSC_def TSAN_WRITE8_def

lemma bit_field: "bit (field lo n w) i \<longleftrightarrow> i < n \<and> bit w (lo + i)"
  by (simp add: field_def bit_simps)

text \<open>Bit by bit, each constant and each part of an event.\<close>

lemma const_masks:
  "TSAN_HDR_ZERO_MASK = NOT (push_bit 60 (mask 4))"
  "TSAN_VAL_ZERO_MASK = NOT (push_bit 52 (mask 12))"
  "TSAN_LOC_ZERO_MASK = NOT (push_bit 32 (mask 32))"
  "TSAN_WRITE8 = push_bit 60 (mask 4)"
  "TSAN_RDTSC = push_bit 60 (mask 1)"
  by (simp_all add: const_defs mask_eq_exp_minus_1)

lemma bit_consts:
  "bit TSAN_HDR_ZERO_MASK n \<longleftrightarrow> n < 60"
  "bit TSAN_VAL_ZERO_MASK n \<longleftrightarrow> n < 52"
  "bit TSAN_LOC_ZERO_MASK n \<longleftrightarrow> n < 32"
  "bit TSAN_WRITE8 n \<longleftrightarrow> 60 \<le> n \<and> n < 64"
  "bit TSAN_RDTSC n \<longleftrightarrow> n = 60"
  unfolding const_masks bit_not_iff bit_push_bit_iff bit_mask_iff by auto

lemma bit_u64_of_char: "bit (u64_of_char val) n \<longleftrightarrow> n < 64 \<and> bit val (min n 7)"
  by (auto simp: u64_of_char_def bit_simps min_def)

lemma bit_src_loc: "bit (src_loc pc) n \<longleftrightarrow> 40 \<le> n \<and> n < 60 \<and> bit pc (n - 40)"
  by (auto simp: src_loc_def bit_simps)

lemma bit_bench_loc: "bit (bench_loc pc) n \<longleftrightarrow> 32 \<le> n \<and> n < 52 \<and> bit pc (n - 32)"
  by (auto simp: bench_loc_def bit_simps)

lemmas event_bits = bit_consts bit_u64_of_char bit_src_loc bit_bench_loc bit_field bit_simps

section \<open>What the layouts keep\<close>

lemma ones_20: "(0xFFFFF :: u64) = mask 20"
  by (simp add: mask_eq_exp_minus_1)

lemma ones_4: "(0xF :: u64) = mask 4"
  by (simp add: mask_eq_exp_minus_1)

lemma hdr_encode_src_loc: "hdr_field (encode_src_loc pc addr val) = 0xF"
  unfolding ones_4 by (rule bit_word_eqI) (auto simp: hdr_field_def encode_src_loc_def event_bits)

lemma val_encode_src_loc: "val_field (encode_src_loc pc addr val) = take_bit 8 val"
  by (rule bit_word_eqI) (auto simp: val_field_def encode_src_loc_def event_bits min_def)

lemma addr_encode_src_loc: "addr_field (encode_src_loc pc addr val) = take_bit 32 addr"
  by (rule bit_word_eqI) (auto simp: addr_field_def encode_src_loc_def event_bits)

lemma loc_encode_src_loc:
  "loc_field (encode_src_loc pc addr val) = (if bit val 7 then 0xFFFFF else take_bit 20 pc)"
  unfolding ones_20
  by (rule bit_word_eqI) (auto simp: loc_field_def encode_src_loc_def event_bits min_def)

text \<open>
  C27: the 64-bit event that \<open>Main.cc\<close> logs for a write carries the header \<open>1111\<close>, the low
  32 bits of the address and the last byte of the value; its source location is the low 20 bits
  of the program counter exactly when bit 7 of the value is clear. When it is set, the sign
  extension of \<open>(char) val\<close> overwrites the whole field with ones.
\<close>

theorem encode_src_loc_fields:
  "hdr_field (encode_src_loc pc addr val) = 0xF
   \<and> loc_field (encode_src_loc pc addr val) = (if bit val 7 then 0xFFFFF else take_bit 20 pc)
   \<and> val_field (encode_src_loc pc addr val) = take_bit 8 val
   \<and> addr_field (encode_src_loc pc addr val) = take_bit 32 addr"
  by (simp add: hdr_encode_src_loc loc_encode_src_loc val_encode_src_loc addr_encode_src_loc)

text \<open>
  The \<open>LOG_VALUE\<close> layout (value in bits 52 to 59, address below) keeps header, value byte and
  52 address bits for every value: there the sign extension only reaches the header, all ones.
\<close>

theorem encode_value_fields:
  "field 60 4 (encode_value addr val) = 0xF
   \<and> field 52 8 (encode_value addr val) = take_bit 8 val
   \<and> field 0 52 (encode_value addr val) = take_bit 52 addr"
proof (intro conjI)
  show "field 60 4 (encode_value addr val) = 0xF"
    unfolding ones_4 by (rule bit_word_eqI) (auto simp: encode_value_def event_bits)
  show "field 52 8 (encode_value addr val) = take_bit 8 val"
    by (rule bit_word_eqI) (auto simp: encode_value_def event_bits min_def)
  show "field 0 52 (encode_value addr val) = take_bit 52 addr"
    by (rule bit_word_eqI) (auto simp: encode_value_def event_bits)
qed

text \<open>Reading a 128-bit event back: location, the low 32 bits of the value, the full address.\<close>

definition decode_full_128 :: "u64 \<times> u64 \<Rightarrow> u64 \<times> u32 \<times> u64" where
  "decode_full_128 e = (loc_field (fst e), ucast (field 0 32 (fst e)), snd e)"

lemma full_128_decode:
  "decode_full_128 (encode_full_128 pc val, addr) = (take_bit 20 pc, ucast val, addr)"
proof -
  have "loc_field (encode_full_128 pc val) = take_bit 20 pc"
    by (rule bit_word_eqI) (auto simp: loc_field_def encode_full_128_def event_bits)
  moreover have "(ucast (field 0 32 (encode_full_128 pc val)) :: u32) = ucast val"
    by (rule bit_word_eqI) (auto simp: encode_full_128_def event_bits)
  ultimately show ?thesis by (simp add: decode_full_128_def)
qed

text \<open>
  The 128-bit event of \<open>LOG_FULL_128\<close> loses nothing it is meant to keep: decoding gives back
  the low 20 bits of the program counter, the low 32 bits of the value and the whole address.
\<close>

theorem full_128_roundtrip:
  "decode_full_128 (encode_full_128 pc val, addr) = (take_bit 20 pc, ucast val, addr)
   \<and> hdr_field (encode_full_128 pc val) = 0xF"
proof
  show "hdr_field (encode_full_128 pc val) = 0xF"
    unfolding ones_4 by (rule bit_word_eqI)
      (auto simp: hdr_field_def encode_full_128_def event_bits dest: bit_imp_le_length)
qed (rule full_128_decode)

text \<open>
  The layout of \<open>local_writes_benchmarks.cc\<close> (value above the location) keeps all four fields
  for every value, and its timestamp event is told apart by its header and keeps 60 bits.
\<close>

theorem encode_bench_fields:
  "field 60 4 (encode_bench pc addr val) = 0xF
   \<and> field 52 8 (encode_bench pc addr val) = take_bit 8 val
   \<and> field 32 20 (encode_bench pc addr val) = take_bit 20 pc
   \<and> field 0 32 (encode_bench pc addr val) = take_bit 32 addr
   \<and> field 60 4 (encode_rdtsc t) = 1
   \<and> field 0 60 (encode_rdtsc t) = take_bit 60 t"
proof (intro conjI)
  show "field 60 4 (encode_bench pc addr val) = 0xF"
    unfolding ones_4 by (rule bit_word_eqI) (auto simp: encode_bench_def event_bits)
  show "field 52 8 (encode_bench pc addr val) = take_bit 8 val"
    by (rule bit_word_eqI) (auto simp: encode_bench_def event_bits min_def)
  show "field 32 20 (encode_bench pc addr val) = take_bit 20 pc"
    by (rule bit_word_eqI) (auto simp: encode_bench_def event_bits)
  show "field 0 32 (encode_bench pc addr val) = take_bit 32 addr"
    by (rule bit_word_eqI) (auto simp: encode_bench_def event_bits)
  show "field 60 4 (encode_rdtsc t) = 1"
    by (rule bit_word_eqI) (auto simp: encode_rdtsc_def event_bits bit_1_iff)
  show "field 0 60 (encode_rdtsc t) = take_bit 60 t"
    by (rule bit_word_eqI) (auto simp: encode_rdtsc_def event_bits)
qed

lemma id_encode_global_counter:
  "field 32 32 (encode_global_counter (ucast (n :: u32)) addr) = ucast n"
  by (rule bit_word_eqI)
    (auto simp: encode_global_counter_def event_bits dest: bit_imp_le_length)

lemma addr_encode_global_counter:
  "addr_field (encode_global_counter eventId addr) = take_bit 32 addr"
  by (rule bit_word_eqI) (auto simp: addr_field_def encode_global_counter_def event_bits)

lemma encode_global_counter_shift: "drop_bit 32 (encode_global_counter (ucast (n :: u32)) addr) = ucast n"
  by (rule bit_word_eqI)
    (auto simp: encode_global_counter_def event_bits dest: bit_imp_le_length)

lemma unat_ucast_u64: "unat (ucast (n :: u32) :: u64) = unat n"
proof -
  have "unat n < 2 ^ 32"
    using unsigned_less [of n] by simp
  then show ?thesis
    by (simp add: unsigned_ucast_eq take_bit_nat_eq_self)
qed

text \<open>Ordering events as numbers orders them by their identifiers, whatever their addresses.\<close>

lemma encode_global_counter_less:
  assumes "(m :: u32) < n"
  shows "encode_global_counter (ucast m) a < encode_global_counter (ucast n) b"
proof (rule ccontr)
  assume "\<not> ?thesis"
  then have "unat (encode_global_counter (ucast n) b) \<le> unat (encode_global_counter (ucast m) a)"
    by (simp add: word_le_nat_alt not_less)
  then have "drop_bit 32 (unat (encode_global_counter (ucast n) b))
      \<le> drop_bit 32 (unat (encode_global_counter (ucast m) a))"
    by (simp only: drop_bit_eq_div div_le_mono)
  then have "unat (drop_bit 32 (encode_global_counter (ucast n) b))
      \<le> unat (drop_bit 32 (encode_global_counter (ucast m) a))"
    by (simp only: unat_drop_bit_eq)
  then have "unat n \<le> unat m"
    by (simp add: encode_global_counter_shift unat_ucast_u64)
  with assms show False
    by (simp add: word_less_nat_alt)
qed

end
