(* ===== verification/RuntimeState.thy ===== *)
theory RuntimeState
  imports EventLayout
begin

text \<open>
  The state of the logging runtime: event buffers (\<open>EventBuffer.h\<close>), the members of a
  \<open>BufferManager\<close> (\<open>BufferManager.h\<close>), the per-thread \<open>Context\<close> and the
  globals of \<open>Context.cc\<close>, detached workers (\<open>Worker.h\<close>), and what the runtime prints.
  Buffers are reached through addresses into a heap, because the code shares them: one buffer is
  named by a thread-local pointer, by a cached \<open>Ref\<close>, by the manager's vectors and by a
  worker at the same time.
\<close>

section \<open>EventBuffer\<close>

definition MAX_EVENTS :: int where "MAX_EVENTS = 10000000"
definition MAX_EVENTS_SMALL :: int where "MAX_EVENTS_SMALL = 1000"
definition BATCH_SIZE :: int where "BATCH_SIZE = 64"
definition EVENT_SIZE :: int where "EVENT_SIZE = 8"

text \<open>The number of slots of \<open>buf\<close>.\<close>

definition BUF_LEN :: int where "BUF_LEN = MAX_EVENTS + BATCH_SIZE + 1"

lemmas size_defs = MAX_EVENTS_def MAX_EVENTS_SMALL_def BATCH_SIZE_def EVENT_SIZE_def BUF_LEN_def

text \<open>
  The storage \<open>buf\<close> is a partial map: a slot is \<open>None\<close> until an event is stored there,
  since the constructor leaves the array uninitialised.
\<close>

record EventBuffer =
  eb_events :: int
  eb_nextRdtscTime :: int
  eb_buf :: "int \<Rightarrow> u64 option"
  eb_threadId :: int
  eb_epoch :: int
  eb_closed :: bool

definition EventBuffer_reset :: "EventBuffer \<Rightarrow> EventBuffer" where
  "EventBuffer_reset b = b\<lparr>
     eb_events := 0,
     eb_nextRdtscTime := BATCH_SIZE,
     eb_threadId := -1,
     eb_epoch := -1,
     eb_closed := False\<rparr>"

text \<open>The constructor calls \<open>reset\<close> on members that hold no value yet.\<close>

definition new_EventBuffer :: EventBuffer where
  "new_EventBuffer = EventBuffer_reset
     \<lparr>eb_events = 0, eb_nextRdtscTime = 0, eb_buf = (\<lambda>_. None), eb_threadId = 0, eb_epoch = 0,
      eb_closed = False\<rparr>"

section \<open>BufferManager, Context, workers\<close>

text \<open>
  \<open>tlsBufAddrs\<close> holds addresses of the thread-local variable \<open>__log_buffer\<close>; the
  variable of thread \<open>t\<close> is named by \<open>t\<close>.
\<close>

record BufferManager =
  activeWorkers :: int
  bm_epoch :: int
  allocatedBufs :: "nat list"
  freeBufs :: "nat list"
  tlsBufAddrs :: "nat set"

definition MAX_WORKERS :: int where "MAX_WORKERS = 32"

definition new_BufferManager :: BufferManager where
  "new_BufferManager = \<lparr>activeWorkers = 0, bm_epoch = 0, allocatedBufs = [], freeBufs = [],
     tlsBufAddrs = {}\<rparr>"

record Context =
  ctx_threadId :: int
  ctx_logBuffer :: "nat option"

text \<open>
  A detached thread that runs \<open>workerMain\<close> of \<open>Worker.h\<close>: its two arguments, and
  where it is: spinning on \<open>buffers[i]\<close>, about to return the buffers, or finished.
\<close>

datatype worker_phase = Waiting nat | Releasing | Finished

record worker =
  w_manager :: nat
  w_buffers :: "nat list"
  w_phase :: worker_phase

datatype message =
    ContextInit int
  | ContextDestroyed
  | ThreadExits int
  | TooManyWorkers int
  | WorkerProcessed int

section \<open>The whole runtime\<close>

text \<open>
  \<open>log_buffer t\<close>, \<open>thr_context t\<close> are the instances of \<open>__log_buffer\<close> and
  \<open>__thr_context\<close> of thread \<open>t\<close> (\<open>None\<close>: the null pointer; the context that is
  not constructed). \<open>buf_manager m\<close> is the \<open>BufferManager\<close> object at address \<open>m\<close> and
  \<open>mgr_alive m\<close> says that its destructor has not run. \<open>next_addr\<close> is the allocator behind
  \<open>new EventBuffer()\<close>: addresses from it on are unused.
\<close>

record process =
  heap :: "nat \<Rightarrow> EventBuffer option"
  next_addr :: nat
  log_buffer :: "nat \<Rightarrow> nat option"
  thr_context :: "nat \<Rightarrow> Context option"
  buf_manager :: "nat \<Rightarrow> BufferManager"
  mgr_alive :: "nat \<Rightarrow> bool"
  workers :: "worker list"
  threadCounter :: u32
  event_id_counter :: u32
  printed :: "message list"

definition init_process :: process where
  "init_process = \<lparr>heap = (\<lambda>_. None), next_addr = 0, log_buffer = (\<lambda>_. None),
     thr_context = (\<lambda>_. None), buf_manager = (\<lambda>_. new_BufferManager), mgr_alive = (\<lambda>_. True),
     workers = [], threadCounter = 0, event_id_counter = 0, printed = []\<rparr>"

section \<open>Access through pointers\<close>

definition not_null :: "nat option \<Rightarrow> nat result" where
  "not_null ptr = (case ptr of None \<Rightarrow> Inl NullDeref | Some a \<Rightarrow> Inr a)"

definition load_buf :: "nat \<Rightarrow> process \<Rightarrow> EventBuffer result" where
  "load_buf a p = (case heap p a of None \<Rightarrow> Inl InvalidPointer | Some b \<Rightarrow> Inr b)"

definition store_buf :: "nat \<Rightarrow> EventBuffer \<Rightarrow> process \<Rightarrow> process" where
  "store_buf a b p = p\<lparr>heap := (heap p)(a \<mapsto> b)\<rparr>"

definition modify_buf :: "nat \<Rightarrow> (EventBuffer \<Rightarrow> EventBuffer) \<Rightarrow> process \<Rightarrow> process result" where
  "modify_buf a f p = and_then (load_buf a p) (\<lambda>b. Inr (store_buf a (f b) p))"

text \<open>\<open>buf[i] = w\<close> in the buffer at \<open>a\<close>.\<close>

definition write_slot :: "nat \<Rightarrow> int \<Rightarrow> u64 \<Rightarrow> process \<Rightarrow> process result" where
  "write_slot a i w p = and_then (load_buf a p) (\<lambda>b.
     if 0 \<le> i \<and> i < BUF_LEN then Inr (store_buf a (b\<lparr>eb_buf := (eb_buf b)(i \<mapsto> w)\<rparr>) p)
     else Inl OutOfBounds)"

lemma not_null_simps [simp]: "not_null None = Inl NullDeref" "not_null (Some a) = Inr a"
  by (simp_all add: not_null_def)

lemma load_buf_Some [simp]: "heap p a = Some b \<Longrightarrow> load_buf a p = Inr b"
  by (simp add: load_buf_def)

lemma load_buf_Inr_iff: "load_buf a p = Inr b \<longleftrightarrow> heap p a = Some b"
  by (simp add: load_buf_def split: option.splits)

lemma load_buf_Inl_iff: "load_buf a p = Inl e \<longleftrightarrow> heap p a = None \<and> e = InvalidPointer"
  by (auto simp: load_buf_def split: option.splits)

lemma store_buf_simps [simp]:
  "heap (store_buf a b p) = (heap p)(a \<mapsto> b)"
  "next_addr (store_buf a b p) = next_addr p"
  "log_buffer (store_buf a b p) = log_buffer p"
  "thr_context (store_buf a b p) = thr_context p"
  "buf_manager (store_buf a b p) = buf_manager p"
  "mgr_alive (store_buf a b p) = mgr_alive p"
  "workers (store_buf a b p) = workers p"
  "threadCounter (store_buf a b p) = threadCounter p"
  "event_id_counter (store_buf a b p) = event_id_counter p"
  "printed (store_buf a b p) = printed p"
  by (simp_all add: store_buf_def)

lemma store_buf_twice [simp]: "store_buf a b' (store_buf a b p) = store_buf a b' p"
  by (simp add: store_buf_def)

lemma store_buf_same: "heap p a = Some b \<Longrightarrow> store_buf a b p = p"
  by (simp add: store_buf_def fun_upd_idem)

lemma modify_buf_Some [simp]: "heap p a = Some b \<Longrightarrow> modify_buf a f p = Inr (store_buf a (f b) p)"
  by (simp add: modify_buf_def)

lemma write_slot_Some [simp]:
  "heap p a = Some b \<Longrightarrow> 0 \<le> i \<Longrightarrow> i < BUF_LEN \<Longrightarrow>
   write_slot a i w p = Inr (store_buf a (b\<lparr>eb_buf := (eb_buf b)(i \<mapsto> w)\<rparr>) p)"
  by (simp add: write_slot_def)

lemma EventBuffer_reset_simps [simp]:
  "eb_events (EventBuffer_reset b) = 0"
  "eb_nextRdtscTime (EventBuffer_reset b) = BATCH_SIZE"
  "eb_buf (EventBuffer_reset b) = eb_buf b"
  "eb_threadId (EventBuffer_reset b) = -1"
  "eb_epoch (EventBuffer_reset b) = -1"
  "eb_closed (EventBuffer_reset b) = False"
  by (simp_all add: EventBuffer_reset_def)

lemma new_EventBuffer_simps [simp]:
  "eb_events new_EventBuffer = 0"
  "eb_nextRdtscTime new_EventBuffer = BATCH_SIZE"
  "eb_buf new_EventBuffer = (\<lambda>_. None)"
  "eb_threadId new_EventBuffer = -1"
  "eb_epoch new_EventBuffer = -1"
  "eb_closed new_EventBuffer = False"
  by (simp_all add: new_EventBuffer_def)

end
