(* ===== verification/BufferRef.thy ===== *)
theory BufferRef
  imports RuntimeState
begin

text \<open>
  \<open>EventBuffer::Ref\<close>: a thread's cached copy of its buffer's counters. The constructor copies
  them, the destructor writes them back, and \<open>updateLogBuffer\<close> moves the reference to the
  next buffer.
\<close>

record Ref =
  ref_logBuf :: nat
  ref_buf :: nat
  ref_events :: int
  ref_nextRdtscTime :: int

text \<open>The member \<open>buf\<close> points to the storage of a buffer; it is named by that buffer.\<close>

definition new_Ref :: "nat \<Rightarrow> process \<Rightarrow> Ref result" where
  "new_Ref logBuf p = and_then (load_buf logBuf p) (\<lambda>b.
     Inr \<lparr>ref_logBuf = logBuf, ref_buf = logBuf, ref_events = eb_events b,
          ref_nextRdtscTime = eb_nextRdtscTime b\<rparr>)"

definition destroy_Ref :: "Ref \<Rightarrow> process \<Rightarrow> process result" where
  "destroy_Ref ref p = modify_buf (ref_logBuf ref)
     (\<lambda>b. b\<lparr>eb_events := ref_events ref, eb_nextRdtscTime := ref_nextRdtscTime ref\<rparr>) p"

definition updateLogBuffer :: "Ref \<Rightarrow> nat option \<Rightarrow> process \<Rightarrow> (Ref \<times> process) result" where
  "updateLogBuffer ref curBuf p =
     and_then (assert_that (curBuf \<noteq> None \<and> curBuf \<noteq> Some (ref_logBuf ref))) (\<lambda>_.
     and_then (modify_buf (ref_logBuf ref)
                 (\<lambda>b. b\<lparr>eb_events := ref_events ref, eb_closed := True\<rparr>) p) (\<lambda>p1.
     and_then (not_null curBuf) (\<lambda>c.
     Inr (ref\<lparr>ref_logBuf := c, ref_buf := c, ref_events := 0,
              ref_nextRdtscTime := BATCH_SIZE\<rparr>, p1))))"

definition getRef :: "nat \<Rightarrow> process \<Rightarrow> Ref result" where
  "getRef logBuf p = new_Ref logBuf p"

lemma new_Ref_Some [simp]:
  "heap p a = Some b \<Longrightarrow>
   new_Ref a p = Inr \<lparr>ref_logBuf = a, ref_buf = a, ref_events = eb_events b,
     ref_nextRdtscTime = eb_nextRdtscTime b\<rparr>"
  by (simp add: new_Ref_def)

lemma destroy_Ref_Some [simp]:
  "heap p (ref_logBuf ref) = Some b \<Longrightarrow>
   destroy_Ref ref p = Inr (store_buf (ref_logBuf ref)
     (b\<lparr>eb_events := ref_events ref, eb_nextRdtscTime := ref_nextRdtscTime ref\<rparr>) p)"
  by (simp add: destroy_Ref_def)

lemma updateLogBuffer_Some [simp]:
  "heap p (ref_logBuf ref) = Some b \<Longrightarrow> c \<noteq> ref_logBuf ref \<Longrightarrow>
   updateLogBuffer ref (Some c) p = Inr
     (ref\<lparr>ref_logBuf := c, ref_buf := c, ref_events := 0, ref_nextRdtscTime := BATCH_SIZE\<rparr>,
      store_buf (ref_logBuf ref) (b\<lparr>eb_events := ref_events ref, eb_closed := True\<rparr>) p)"
  by (simp add: updateLogBuffer_def)

lemma updateLogBuffer_same_buffer:
  "updateLogBuffer ref (Some (ref_logBuf ref)) p = Inl AssertionFailed"
  by (simp add: updateLogBuffer_def)

end
