(* ===== verification/Manager.thy ===== *)
theory Manager
  imports BufferRef
begin

text \<open>
  \<open>BufferManager.cc\<close>, \<open>Context.h\<close> and \<open>Worker.h\<close>: allocation and reclamation of event
  buffers, the end of an epoch, thread exit, and the worker that waits for, counts and returns the
  buffers of an epoch. Every method of the manager holds \<open>monitor\<close> from its first to its last
  line, so each is one function on the runtime's state; \<open>this\<close> is the manager's address and
  \<open>t\<close> the calling thread.
\<close>

section \<open>Context.h\<close>

definition getLogBufferUnsafe :: "nat \<Rightarrow> process \<Rightarrow> nat option" where
  "getLogBufferUnsafe t p = log_buffer p t"

definition getLogBuffer :: "nat \<Rightarrow> process \<Rightarrow> nat option" where
  "getLogBuffer t p = log_buffer p t"

text \<open>
  Access to \<open>__thr_context\<close>: the constructor of \<open>Context\<close> runs at a thread's first access.
\<close>

definition tls_context :: "nat \<Rightarrow> process \<Rightarrow> Context \<times> process" where
  "tls_context t p =
     (case thr_context p t of
        Some c \<Rightarrow> (c, p)
      | None \<Rightarrow>
          (let c = \<lparr>ctx_threadId = sint (threadCounter p), ctx_logBuffer = None\<rparr>
           in (c, p\<lparr>thr_context := (thr_context p)(t \<mapsto> c),
                    threadCounter := threadCounter p + 1,
                    printed := printed p @ [ContextInit (ctx_threadId c)]\<rparr>)))"

text \<open>
  The object that the name \<open>__buf_manager\<close> denotes in thread \<open>t\<close>. The code declares it
  \<open>thread_local\<close>, so every thread has its own. The design notes call the manager a singleton;
  \<open>tlocal = False\<close> is that reading, one object for all threads.
\<close>

definition buf_manager_of :: "bool \<Rightarrow> nat \<Rightarrow> nat" where
  "buf_manager_of tlocal t = (if tlocal then t else 0)"

section \<open>BufferManager.cc\<close>

definition update_manager :: "nat \<Rightarrow> (BufferManager \<Rightarrow> BufferManager) \<Rightarrow> process \<Rightarrow> process" where
  "update_manager this f p = p\<lparr>buf_manager := (buf_manager p)(this := f (buf_manager p this))\<rparr>"

text \<open>Locking the monitor of an object whose destructor has run is a use after free.\<close>

definition lock_monitor :: "nat \<Rightarrow> process \<Rightarrow> unit result" where
  "lock_monitor this p = (if mgr_alive p this then Inr () else Inl UseAfterFree)"

definition take_buffer :: "nat \<Rightarrow> process \<Rightarrow> (nat \<times> process) result" where
  "take_buffer this p =
     (let free = freeBufs (buf_manager p this) in
      if free = [] then
        Inr (next_addr p,
             p\<lparr>heap := (heap p)(next_addr p \<mapsto> new_EventBuffer), next_addr := Suc (next_addr p)\<rparr>)
      else
        and_then (modify_buf (last free) EventBuffer_reset
                    (update_manager this (\<lambda>m. m\<lparr>freeBufs := butlast free\<rparr>) p)) (\<lambda>p1.
        Inr (last free, p1)))"

definition allocBuffer :: "nat \<Rightarrow> nat \<Rightarrow> process \<Rightarrow> (nat \<times> process) result" where
  "allocBuffer this t p =
     and_then (lock_monitor this p) (\<lambda>_.
     and_then (assert_that (getLogBuffer t p = None)) (\<lambda>_.
     and_then (take_buffer this p) (\<lambda>(buf, p1).
     let (ctx, p2) = tls_context t p1 in
     and_then (modify_buf buf
                 (\<lambda>b. b\<lparr>eb_threadId := ctx_threadId ctx,
                        eb_epoch := bm_epoch (buf_manager p2 this)\<rparr>) p2) (\<lambda>p3.
     let p4 = p3\<lparr>log_buffer := (log_buffer p3)(t \<mapsto> buf)\<rparr>;
         p5 = p4\<lparr>thr_context := (thr_context p4)(t \<mapsto> ctx\<lparr>ctx_logBuffer := Some buf\<rparr>)\<rparr>;
         p6 = update_manager this
                (\<lambda>m. m\<lparr>allocatedBufs := allocatedBufs m @ [buf],
                       tlsBufAddrs := insert t (tlsBufAddrs m)\<rparr>) p5
     in Inr (buf, p6)))))"

definition release :: "nat \<Rightarrow> nat list \<Rightarrow> process \<Rightarrow> process result" where
  "release this bufsToRelease p =
     and_then (lock_monitor this p) (\<lambda>_.
     and_then (int_add (activeWorkers (buf_manager p this)) (-1)) (\<lambda>n.
     Inr (update_manager this
            (\<lambda>m. m\<lparr>activeWorkers := n, freeBufs := freeBufs m @ bufsToRelease\<rparr>) p)))"

definition tryIncEpoch :: "nat \<Rightarrow> Ref \<Rightarrow> process \<Rightarrow> (bool \<times> process) result" where
  "tryIncEpoch this ref p =
     and_then (lock_monitor this p) (\<lambda>_.
     and_then (load_buf (ref_logBuf ref) p) (\<lambda>b.
     let m = buf_manager p this in
     if bm_epoch m \<noteq> eb_epoch b then Inr (False, p)
     else
       let p1 = p\<lparr>log_buffer := (\<lambda>t. if t \<in> tlsBufAddrs m then None else log_buffer p t)\<rparr>;
           p2 = update_manager this (\<lambda>m. m\<lparr>tlsBufAddrs := {}\<rparr>) p1;
           p3 = (if activeWorkers m < MAX_WORKERS then
                   update_manager this (\<lambda>m. m\<lparr>activeWorkers := activeWorkers m + 1\<rparr>)
                     (p2\<lparr>workers := workers p2 @
                           [\<lparr>w_manager = this, w_buffers = allocatedBufs m, w_phase = Waiting 0\<rparr>]\<rparr>)
                 else
                   update_manager this (\<lambda>m. m\<lparr>freeBufs := freeBufs m @ allocatedBufs m\<rparr>)
                     (p2\<lparr>printed := printed p2 @ [TooManyWorkers (bm_epoch m)]\<rparr>));
           p4 = update_manager this (\<lambda>m. m\<lparr>allocatedBufs := []\<rparr>) p3
       in and_then (int_add (bm_epoch m) 1) (\<lambda>e.
          Inr (True, update_manager this (\<lambda>m. m\<lparr>bm_epoch := e\<rparr>) p4))))"

definition threadExit :: "nat \<Rightarrow> nat \<Rightarrow> process \<Rightarrow> process result" where
  "threadExit this t p =
     and_then (lock_monitor this p) (\<lambda>_.
     let (ctx, p1) = tls_context t p;
         p2 = p1\<lparr>printed := printed p1 @ [ThreadExits (ctx_threadId ctx)]\<rparr>
     in and_then (case ctx_logBuffer ctx of
                    None \<Rightarrow> Inr p2
                  | Some a \<Rightarrow> modify_buf a (\<lambda>b. b\<lparr>eb_closed := True\<rparr>) p2) (\<lambda>p3.
        Inr (update_manager this (\<lambda>m. m\<lparr>tlsBufAddrs := tlsBufAddrs m - {t}\<rparr>) p3)))"

section \<open>Context.h: taking a reference, leaving a thread\<close>

definition getLogBufferRef :: "nat \<Rightarrow> nat \<Rightarrow> process \<Rightarrow> (Ref \<times> process) result" where
  "getLogBufferRef this t p =
     and_then (case getLogBuffer t p of
                 None \<Rightarrow> allocBuffer this t p
               | Some logBuf \<Rightarrow> Inr (logBuf, p)) (\<lambda>(logBuf, p1).
     and_then (getRef logBuf p1) (\<lambda>ref. Inr (ref, p1)))"

definition Context_dtor :: "nat \<Rightarrow> nat \<Rightarrow> process \<Rightarrow> process result" where
  "Context_dtor this t p =
     and_then (threadExit this t p) (\<lambda>p1.
     Inr (p1\<lparr>printed := printed p1 @ [ContextDestroyed]\<rparr>))"

text \<open>
  At the end of thread \<open>t\<close> its thread-local objects, if it ever constructed them, are destroyed in
  the reverse order of their construction: first the context, then, where managers are thread-local,
  the manager. Its destructor does not lock the monitor, and workers may call \<open>release\<close> before, while
  and after it runs.
\<close>

definition destroy_context :: "bool \<Rightarrow> nat \<Rightarrow> process \<Rightarrow> process result" where
  "destroy_context tlocal t p =
     (if thr_context p t = None then Inr p else Context_dtor (buf_manager_of tlocal t) t p)"

definition BufferManager_dtor :: "nat \<Rightarrow> process \<Rightarrow> process" where
  "BufferManager_dtor this p = p\<lparr>mgr_alive := (mgr_alive p)(this := False)\<rparr>"

section \<open>Worker.h\<close>

text \<open>\<open>for (auto buf : buffers) events += buf->events\<close>\<close>

fun sum_events :: "int \<Rightarrow> nat list \<Rightarrow> process \<Rightarrow> int result" where
  "sum_events events [] p = Inr events"
| "sum_events events (a # as) p =
     and_then (load_buf a p) (\<lambda>b.
     and_then (int_add events (eb_events b)) (\<lambda>events'. sum_events events' as p))"

definition set_worker :: "nat \<Rightarrow> worker_phase \<Rightarrow> process \<Rightarrow> process" where
  "set_worker k ph p = p\<lparr>workers := (workers p)[k := (workers p ! k)\<lparr>w_phase := ph\<rparr>]\<rparr>"

text \<open>
  One step of worker \<open>k\<close>: one test of \<open>closed\<close> in the busy-wait (which leaves the state as it
  is while the flag is false), the count over all its buffers, or the call of \<open>release\<close>.
\<close>

definition worker_step :: "nat \<Rightarrow> process \<Rightarrow> process result" where
  "worker_step k p =
     (let w = workers p ! k in
      case w_phase w of
        Waiting i \<Rightarrow>
          if i < length (w_buffers w) then
            and_then (load_buf (w_buffers w ! i) p) (\<lambda>b.
            Inr (if eb_closed b then set_worker k (Waiting (Suc i)) p else p))
          else
            and_then (sum_events 0 (w_buffers w) p) (\<lambda>n.
            Inr (set_worker k Releasing (p\<lparr>printed := printed p @ [WorkerProcessed n]\<rparr>)))
      | Releasing \<Rightarrow>
          and_then (release (w_manager w) (w_buffers w) p) (\<lambda>p1.
          Inr (set_worker k Finished p1))
      | Finished \<Rightarrow> Inr p)"

section \<open>Basic facts\<close>

lemma update_manager_simps [simp]:
  "heap (update_manager this f p) = heap p"
  "next_addr (update_manager this f p) = next_addr p"
  "log_buffer (update_manager this f p) = log_buffer p"
  "thr_context (update_manager this f p) = thr_context p"
  "buf_manager (update_manager this f p) = (buf_manager p)(this := f (buf_manager p this))"
  "mgr_alive (update_manager this f p) = mgr_alive p"
  "workers (update_manager this f p) = workers p"
  "threadCounter (update_manager this f p) = threadCounter p"
  "event_id_counter (update_manager this f p) = event_id_counter p"
  "printed (update_manager this f p) = printed p"
  by (simp_all add: update_manager_def)

lemma lock_monitor_Inr_iff [simp]: "lock_monitor this p = Inr u \<longleftrightarrow> mgr_alive p this"
  by (simp add: lock_monitor_def)

lemma lock_monitor_Inl_iff [simp]:
  "lock_monitor this p = Inl e \<longleftrightarrow> \<not> mgr_alive p this \<and> e = UseAfterFree"
  by (auto simp: lock_monitor_def)

lemma lock_monitor_alive [simp]: "mgr_alive p this \<Longrightarrow> lock_monitor this p = Inr ()"
  by (simp add: lock_monitor_def)

lemma BufferManager_dtor_simps [simp]:
  "heap (BufferManager_dtor this p) = heap p"
  "next_addr (BufferManager_dtor this p) = next_addr p"
  "log_buffer (BufferManager_dtor this p) = log_buffer p"
  "thr_context (BufferManager_dtor this p) = thr_context p"
  "buf_manager (BufferManager_dtor this p) = buf_manager p"
  "mgr_alive (BufferManager_dtor this p) = (mgr_alive p)(this := False)"
  "workers (BufferManager_dtor this p) = workers p"
  "threadCounter (BufferManager_dtor this p) = threadCounter p"
  "event_id_counter (BufferManager_dtor this p) = event_id_counter p"
  "printed (BufferManager_dtor this p) = printed p"
  by (simp_all add: BufferManager_dtor_def)

lemma set_worker_simps [simp]:
  "heap (set_worker k ph p) = heap p"
  "next_addr (set_worker k ph p) = next_addr p"
  "log_buffer (set_worker k ph p) = log_buffer p"
  "thr_context (set_worker k ph p) = thr_context p"
  "buf_manager (set_worker k ph p) = buf_manager p"
  "mgr_alive (set_worker k ph p) = mgr_alive p"
  "workers (set_worker k ph p) = (workers p)[k := (workers p ! k)\<lparr>w_phase := ph\<rparr>]"
  "printed (set_worker k ph p) = printed p"
  by (simp_all add: set_worker_def)

lemma tls_context_simps [simp]:
  "heap (snd (tls_context t p)) = heap p"
  "next_addr (snd (tls_context t p)) = next_addr p"
  "log_buffer (snd (tls_context t p)) = log_buffer p"
  "buf_manager (snd (tls_context t p)) = buf_manager p"
  "mgr_alive (snd (tls_context t p)) = mgr_alive p"
  "workers (snd (tls_context t p)) = workers p"
  "event_id_counter (snd (tls_context t p)) = event_id_counter p"
  "thr_context (snd (tls_context t p)) = (thr_context p)(t \<mapsto> fst (tls_context t p))"
  "thr_context p t = Some c \<Longrightarrow> fst (tls_context t p) = c"
  "thr_context p t = None \<Longrightarrow> ctx_logBuffer (fst (tls_context t p)) = None"
  "thr_context p t = Some c \<Longrightarrow> snd (tls_context t p) = p"
  by (auto simp: tls_context_def Let_def split: option.splits)

end
