(* ===== verification/ManagerSpec.thy ===== *)
theory ManagerSpec
  imports Manager
begin

text \<open>
  What the methods of the buffer manager promise: the effect of every method on each part of the
  state, conservation of buffers, and the election of one coordinator per epoch.
\<close>

section \<open>Effects of the methods\<close>

definition fresh_buffer :: "int \<Rightarrow> int \<Rightarrow> EventBuffer \<Rightarrow> bool" where
  "fresh_buffer tid e b \<longleftrightarrow>
     eb_events b = 0 \<and> eb_nextRdtscTime b = BATCH_SIZE \<and> eb_threadId b = tid \<and> eb_epoch b = e
     \<and> \<not> eb_closed b"

lemma take_buffer_cases:
  assumes "take_buffer this p = Inr (a, p1)"
  obtains (new) "freeBufs (buf_manager p this) = []" "a = next_addr p"
      "p1 = p\<lparr>heap := (heap p)(a \<mapsto> new_EventBuffer), next_addr := Suc a\<rparr>"
    | (reuse) b where "freeBufs (buf_manager p this) \<noteq> []" "a = last (freeBufs (buf_manager p this))"
      "heap p a = Some b"
      "p1 = store_buf a (EventBuffer_reset b)
              (update_manager this (\<lambda>m. m\<lparr>freeBufs := butlast (freeBufs (buf_manager p this))\<rparr>) p)"
proof (cases "freeBufs (buf_manager p this) = []")
  case True
  with assms show ?thesis by (intro new) (auto simp: take_buffer_def)
next
  case False
  let ?a = "last (freeBufs (buf_manager p this))"
  from assms False have a: "a = ?a" by (auto simp: take_buffer_def and_then_Inr_iff Let_def)
  from assms False obtain b where "heap p ?a = Some b"
    by (auto simp: take_buffer_def and_then_Inr_iff modify_buf_def load_buf_Inr_iff Let_def)
  with assms False a show ?thesis by (intro reuse) (auto simp: take_buffer_def Let_def)
qed

lemma take_buffer_ok:
  "freeBufs (buf_manager p this) \<noteq> [] \<longrightarrow> heap p (last (freeBufs (buf_manager p this))) \<noteq> None \<Longrightarrow>
   \<exists>a p1. take_buffer this p = Inr (a, p1)"
  by (auto simp: take_buffer_def Let_def)

text \<open>A successful call, unfolded once and for all.\<close>

lemma allocBuffer_InrE:
  assumes "allocBuffer this t p = Inr (a, p')"
  obtains p1 c p2 b where "mgr_alive p this" "log_buffer p t = None"
    "take_buffer this p = Inr (a, p1)" "tls_context t p1 = (c, p2)" "heap p2 a = Some b"
    "p' = update_manager this
            (\<lambda>m. m\<lparr>allocatedBufs := allocatedBufs m @ [a], tlsBufAddrs := insert t (tlsBufAddrs m)\<rparr>)
            ((store_buf a (b\<lparr>eb_threadId := ctx_threadId c, eb_epoch := bm_epoch (buf_manager p2 this)\<rparr>) p2)
               \<lparr>log_buffer := (log_buffer p2)(t \<mapsto> a),
                thr_context := (thr_context p2)(t \<mapsto> c\<lparr>ctx_logBuffer := Some a\<rparr>)\<rparr>)"
proof -
  from assms have "mgr_alive p this" and "log_buffer p t = None"
    by (auto simp: allocBuffer_def and_then_Inr_iff getLogBuffer_def)
  moreover from assms obtain p1 where take: "take_buffer this p = Inr (a, p1)"
    by (fastforce simp: allocBuffer_def and_then_Inr_iff Let_def case_prod_beta)
  moreover obtain c p2 where ctx: "tls_context t p1 = (c, p2)"
    by (cases "tls_context t p1")
  moreover from assms take ctx obtain b where "heap p2 a = Some b"
    by (auto simp: allocBuffer_def and_then_Inr_iff Let_def modify_buf_def load_buf_Inr_iff)
  moreover from assms take ctx this calculation(1,2) have
    "p' = update_manager this
            (\<lambda>m. m\<lparr>allocatedBufs := allocatedBufs m @ [a], tlsBufAddrs := insert t (tlsBufAddrs m)\<rparr>)
            ((store_buf a (b\<lparr>eb_threadId := ctx_threadId c, eb_epoch := bm_epoch (buf_manager p2 this)\<rparr>) p2)
               \<lparr>log_buffer := (log_buffer p2)(t \<mapsto> a),
                thr_context := (thr_context p2)(t \<mapsto> c\<lparr>ctx_logBuffer := Some a\<rparr>)\<rparr>)"
    by (simp add: allocBuffer_def getLogBuffer_def)
  ultimately show ?thesis by (rule that)
qed

lemma allocBuffer_effects:
  assumes "allocBuffer this t p = Inr (a, p')"
  shows "mgr_alive p this" and "log_buffer p t = None"
    and "\<exists>b. heap p' = (heap p)(a \<mapsto> b)
           \<and> fresh_buffer (ctx_threadId (fst (tls_context t p))) (bm_epoch (buf_manager p this)) b"
    and "log_buffer p' = (log_buffer p)(t \<mapsto> a)"
    and "thr_context p' = (thr_context p)(t \<mapsto> (fst (tls_context t p))\<lparr>ctx_logBuffer := Some a\<rparr>)"
    and "buf_manager p' = (buf_manager p)(this := (buf_manager p this)
           \<lparr>allocatedBufs := allocatedBufs (buf_manager p this) @ [a],
            freeBufs := butlast (freeBufs (buf_manager p this)),
            tlsBufAddrs := insert t (tlsBufAddrs (buf_manager p this))\<rparr>)"
    and "mgr_alive p' = mgr_alive p" and "workers p' = workers p"
    and "printed p' = printed (snd (tls_context t p))"
    and "freeBufs (buf_manager p this) = [] \<and> a = next_addr p \<and> next_addr p' = Suc (next_addr p)
         \<or> freeBufs (buf_manager p this) \<noteq> [] \<and> a = last (freeBufs (buf_manager p this))
           \<and> next_addr p' = next_addr p \<and> heap p a \<noteq> None"
proof -
  from assms obtain p1 c p2 b where p: "mgr_alive p this" "log_buffer p t = None"
    "take_buffer this p = Inr (a, p1)" "tls_context t p1 = (c, p2)" "heap p2 a = Some b"
    "p' = update_manager this
            (\<lambda>m. m\<lparr>allocatedBufs := allocatedBufs m @ [a], tlsBufAddrs := insert t (tlsBufAddrs m)\<rparr>)
            ((store_buf a (b\<lparr>eb_threadId := ctx_threadId c, eb_epoch := bm_epoch (buf_manager p2 this)\<rparr>) p2)
               \<lparr>log_buffer := (log_buffer p2)(t \<mapsto> a),
                thr_context := (thr_context p2)(t \<mapsto> c\<lparr>ctx_logBuffer := Some a\<rparr>)\<rparr>)"
    by (rule allocBuffer_InrE)
  show "mgr_alive p this" "log_buffer p t = None" by fact+
  have ctx: "thr_context p1 = thr_context p" "threadCounter p1 = threadCounter p"
      "printed p1 = printed p"
    using p(3) by (cases rule: take_buffer_cases; simp add: store_buf_def update_manager_def)+
  have c: "fst (tls_context t p) = c" "printed (snd (tls_context t p)) = printed p2"
      "thr_context p2 = (thr_context p1)(t \<mapsto> c)"
    using p(4) ctx by (auto simp: tls_context_def Let_def split: option.splits)
  have p2: "heap p2 = heap p1" "next_addr p2 = next_addr p1" "log_buffer p2 = log_buffer p1"
      "buf_manager p2 = buf_manager p1" "mgr_alive p2 = mgr_alive p1" "workers p2 = workers p1"
    using tls_context_simps(1-6) [of t p1] by (simp_all add: p(4))
  note facts = p(5,6) ctx c p2
  show "\<exists>b. heap p' = (heap p)(a \<mapsto> b)
           \<and> fresh_buffer (ctx_threadId (fst (tls_context t p))) (bm_epoch (buf_manager p this)) b"
    using p(3) facts by (cases rule: take_buffer_cases) (auto simp: fresh_buffer_def)
  show "log_buffer p' = (log_buffer p)(t \<mapsto> a)"
    "thr_context p' = (thr_context p)(t \<mapsto> (fst (tls_context t p))\<lparr>ctx_logBuffer := Some a\<rparr>)"
    "mgr_alive p' = mgr_alive p" "workers p' = workers p"
    "printed p' = printed (snd (tls_context t p))"
    using p(3) facts by (cases rule: take_buffer_cases; simp)+
  show "buf_manager p' = (buf_manager p)(this := (buf_manager p this)
       \<lparr>allocatedBufs := allocatedBufs (buf_manager p this) @ [a],
        freeBufs := butlast (freeBufs (buf_manager p this)),
        tlsBufAddrs := insert t (tlsBufAddrs (buf_manager p this))\<rparr>)"
    using p(3) facts by (cases rule: take_buffer_cases) auto
  show "freeBufs (buf_manager p this) = [] \<and> a = next_addr p \<and> next_addr p' = Suc (next_addr p)
         \<or> freeBufs (buf_manager p this) \<noteq> [] \<and> a = last (freeBufs (buf_manager p this))
           \<and> next_addr p' = next_addr p \<and> heap p a \<noteq> None"
    using p(3) facts by (cases rule: take_buffer_cases) auto
qed

lemma allocBuffer_ok:
  assumes "mgr_alive p this" and "log_buffer p t = None"
    and "freeBufs (buf_manager p this) \<noteq> [] \<longrightarrow> heap p (last (freeBufs (buf_manager p this))) \<noteq> None"
  shows "\<exists>a p'. allocBuffer this t p = Inr (a, p')"
proof -
  from take_buffer_ok [OF assms(3)] obtain a p1 where take: "take_buffer this p = Inr (a, p1)"
    by blast
  then have "heap p1 a \<noteq> None"
    by (cases rule: take_buffer_cases) auto
  moreover obtain c p2 where ctx: "tls_context t p1 = (c, p2)" by (cases "tls_context t p1")
  moreover have "heap p2 = heap p1" using tls_context_simps(1) [of t p1] ctx by simp
  ultimately obtain b where "heap p2 a = Some b" by auto
  with assms take ctx show ?thesis
    by (simp add: allocBuffer_def getLogBuffer_def)
qed

lemma tryIncEpoch_cases:
  assumes "tryIncEpoch this ref p = Inr (won, p')"
  obtains (lost) b where "\<not> won" "mgr_alive p this" "heap p (ref_logBuf ref) = Some b"
      "eb_epoch b \<noteq> bm_epoch (buf_manager p this)" "p' = p"
    | (won) b where "won" "mgr_alive p this" "heap p (ref_logBuf ref) = Some b"
      "eb_epoch b = bm_epoch (buf_manager p this)"
  using assms
  by (auto simp: tryIncEpoch_def and_then_Inr_iff load_buf_Inr_iff Let_def int_add_Inr_iff
      split: if_splits)

lemma tryIncEpoch_effects:
  assumes "tryIncEpoch this ref p = Inr (True, p')"
  shows "heap p' = heap p" and "next_addr p' = next_addr p" and "thr_context p' = thr_context p"
    and "mgr_alive p' = mgr_alive p"
    and "log_buffer p' = (\<lambda>t. if t \<in> tlsBufAddrs (buf_manager p this) then None else log_buffer p t)"
    and "activeWorkers (buf_manager p this) < MAX_WORKERS \<Longrightarrow>
         workers p' = workers p @ [\<lparr>w_manager = this,
           w_buffers = allocatedBufs (buf_manager p this), w_phase = Waiting 0\<rparr>]
         \<and> printed p' = printed p
         \<and> buf_manager p' = (buf_manager p)(this := (buf_manager p this)
             \<lparr>activeWorkers := activeWorkers (buf_manager p this) + 1,
              bm_epoch := bm_epoch (buf_manager p this) + 1, allocatedBufs := [],
              tlsBufAddrs := {}\<rparr>)"
    and "\<not> activeWorkers (buf_manager p this) < MAX_WORKERS \<Longrightarrow>
         workers p' = workers p
         \<and> printed p' = printed p @ [TooManyWorkers (bm_epoch (buf_manager p this))]
         \<and> buf_manager p' = (buf_manager p)(this := (buf_manager p this)
             \<lparr>bm_epoch := bm_epoch (buf_manager p this) + 1, allocatedBufs := [],
              freeBufs := freeBufs (buf_manager p this) @ allocatedBufs (buf_manager p this),
              tlsBufAddrs := {}\<rparr>)"
  using assms
  by (auto simp: tryIncEpoch_def and_then_Inr_iff load_buf_Inr_iff Let_def int_add_Inr_iff
      split: if_splits)

lemma tryIncEpoch_ok:
  assumes "mgr_alive p this" and "heap p (ref_logBuf ref) = Some b"
    and "INT_MIN \<le> bm_epoch (buf_manager p this)" and "bm_epoch (buf_manager p this) < INT_MAX"
  shows "\<exists>won p'. tryIncEpoch this ref p = Inr (won, p')"
  using assms by (auto simp: tryIncEpoch_def Let_def int_add_def)

lemma tryIncEpoch_won:
  assumes "mgr_alive p this" and "heap p (ref_logBuf ref) = Some b"
    and "eb_epoch b = bm_epoch (buf_manager p this)"
    and "INT_MIN \<le> bm_epoch (buf_manager p this)" and "bm_epoch (buf_manager p this) < INT_MAX"
  shows "\<exists>p'. tryIncEpoch this ref p = Inr (True, p')"
  using assms by (auto simp: tryIncEpoch_def Let_def int_add_def)

lemma tryIncEpoch_fails:
  assumes "tryIncEpoch this ref p = Inl e"
  shows "\<not> mgr_alive p this \<and> e = UseAfterFree
    \<or> heap p (ref_logBuf ref) = None \<and> e = InvalidPointer
    \<or> e = SignedOverflow \<and> \<not> (INT_MIN \<le> bm_epoch (buf_manager p this) + 1
         \<and> bm_epoch (buf_manager p this) + 1 \<le> INT_MAX)"
  using assms
  by (auto simp: tryIncEpoch_def and_then_Inl_iff load_buf_Inl_iff load_buf_Inr_iff Let_def
      int_add_Inl_iff split: if_splits)

lemma release_effects:
  assumes "release this as p = Inr p'"
  shows "mgr_alive p this"
    and "p' = update_manager this (\<lambda>m. m\<lparr>activeWorkers := activeWorkers m - 1,
                freeBufs := freeBufs m @ as\<rparr>) p"
  using assms by (auto simp: release_def and_then_Inr_iff int_add_Inr_iff update_manager_def)

lemma threadExit_effects:
  assumes "threadExit this t p = Inr p'"
  shows "mgr_alive p this" and "next_addr p' = next_addr p" and "log_buffer p' = log_buffer p"
    and "thr_context p' = (thr_context p)(t \<mapsto> fst (tls_context t p))"
    and "mgr_alive p' = mgr_alive p" and "workers p' = workers p"
    and "buf_manager p' = (buf_manager p)(this := (buf_manager p this)
           \<lparr>tlsBufAddrs := tlsBufAddrs (buf_manager p this) - {t}\<rparr>)"
    and "printed p' = printed (snd (tls_context t p))
           @ [ThreadExits (ctx_threadId (fst (tls_context t p)))]"
    and "ctx_logBuffer (fst (tls_context t p)) = None \<Longrightarrow> heap p' = heap p"
    and "ctx_logBuffer (fst (tls_context t p)) = Some a \<Longrightarrow>
         \<exists>b. heap p a = Some b \<and> heap p' = (heap p)(a \<mapsto> b\<lparr>eb_closed := True\<rparr>)"
  using assms
  by (auto simp: threadExit_def and_then_Inr_iff Let_def case_prod_beta modify_buf_def
      load_buf_Inr_iff store_buf_def split: option.splits)

section \<open>Conservation of buffers\<close>

text \<open>
  The buffers of the manager at \<open>m\<close>: in its free list, allocated to threads of the current epoch,
  or with one of its workers.
\<close>

definition worker_holds :: "nat \<Rightarrow> worker \<Rightarrow> nat multiset" where
  "worker_holds m w =
     (if w_manager w = m \<and> w_phase w \<noteq> Finished then mset (w_buffers w) else {#})"

definition pool :: "nat \<Rightarrow> process \<Rightarrow> nat multiset" where
  "pool m p = mset (freeBufs (buf_manager p m)) + mset (allocatedBufs (buf_manager p m))
     + (\<Sum>w\<leftarrow>workers p. worker_holds m w)"

lemma pool_cong:
  "buf_manager p' = buf_manager p \<Longrightarrow> workers p' = workers p \<Longrightarrow> pool m p' = pool m p"
  by (simp add: pool_def)

lemma pool_store_buf [simp]: "pool m (store_buf a b p) = pool m p"
  by (simp add: pool_def)

lemma pool_allocBuffer:
  assumes "allocBuffer this t p = Inr (a, p')"
  shows "pool m p' = pool m p
    + (if m = this \<and> freeBufs (buf_manager p this) = [] then {#next_addr p#} else {#})"
  using allocBuffer_effects(6,8,10) [OF assms] mset_butlast_last
  by (auto simp: pool_def)

lemma pool_tryIncEpoch:
  assumes "tryIncEpoch this ref p = Inr (won, p')"
  shows "pool m p' = pool m p"
proof (cases won)
  case False
  with assms show ?thesis by (auto elim: tryIncEpoch_cases)
next
  case True
  with assms have won: "tryIncEpoch this ref p = Inr (True, p')" by simp
  show ?thesis
    using tryIncEpoch_effects(6,7) [OF won]
    by (cases "activeWorkers (buf_manager p this) < MAX_WORKERS") (auto simp: pool_def worker_holds_def)
qed

lemma pool_threadExit:
  assumes "threadExit this t p = Inr p'"
  shows "pool m p' = pool m p"
  by (simp add: pool_def threadExit_effects(6,7) [OF assms])

lemma pool_release:
  "release this as p = Inr p' \<Longrightarrow> pool m p' = pool m p + (if m = this then mset as else {#})"
  by (auto simp: pool_def dest: release_effects)

lemma pool_set_worker:
  assumes "k < length (workers p)"
  shows "pool m (set_worker k ph p) + worker_holds m (workers p ! k)
    = pool m p + worker_holds m ((workers p ! k)\<lparr>w_phase := ph\<rparr>)"
  using sum_list_map_update [OF assms, of "worker_holds m" "(workers p ! k)\<lparr>w_phase := ph\<rparr>"]
  by (simp add: pool_def ac_simps)

lemma pool_set_worker_same:
  assumes "k < length (workers p)" and "w_phase (workers p ! k) \<noteq> Finished" and "ph \<noteq> Finished"
  shows "pool m (set_worker k ph p) = pool m p"
  using pool_set_worker [OF assms(1), of m ph] assms(2,3)
  by (auto simp: worker_holds_def split: if_splits)

lemma pool_set_worker_Finished:
  assumes "k < length (workers p)" and "w_phase (workers p ! k) \<noteq> Finished"
  shows "pool m (set_worker k Finished p)
    + (if m = w_manager (workers p ! k) then mset (w_buffers (workers p ! k)) else {#}) = pool m p"
  using pool_set_worker [OF assms(1), of m Finished] assms(2)
  by (auto simp: worker_holds_def split: if_splits)

lemma worker_step_cases:
  assumes "worker_step k p = Inr p'"
  obtains (stutter) "p' = p"
    | (advance) i b where "w_phase (workers p ! k) = Waiting i" "i < length (w_buffers (workers p ! k))"
      "heap p (w_buffers (workers p ! k) ! i) = Some b" "eb_closed b"
      "p' = set_worker k (Waiting (Suc i)) p"
    | (count) i n where "w_phase (workers p ! k) = Waiting i" "length (w_buffers (workers p ! k)) \<le> i"
      "sum_events 0 (w_buffers (workers p ! k)) p = Inr n"
      "p' = set_worker k Releasing (p\<lparr>printed := printed p @ [WorkerProcessed n]\<rparr>)"
    | (give_back) p1 where "w_phase (workers p ! k) = Releasing"
      "release (w_manager (workers p ! k)) (w_buffers (workers p ! k)) p = Inr p1"
      "p' = set_worker k Finished p1"
proof (cases "w_phase (workers p ! k)")
  case (Waiting i)
  with assms that(1,2,3) show ?thesis
    by (cases "i < length (w_buffers (workers p ! k))")
      (auto simp: worker_step_def Let_def and_then_Inr_iff load_buf_Inr_iff not_less
        split: if_splits)
next
  case Releasing
  with assms that(4) show ?thesis by (auto simp: worker_step_def Let_def and_then_Inr_iff)
next
  case Finished
  with assms that(1) show ?thesis by (simp add: worker_step_def)
qed

lemma pool_worker_step:
  assumes "worker_step k p = Inr p'" and "k < length (workers p)"
  shows "pool m p' = pool m p"
  using assms(1)
proof (cases rule: worker_step_cases)
  case stutter
  then show ?thesis by simp
next
  case (advance i b)
  with assms(2) show ?thesis by (simp add: pool_set_worker_same)
next
  case (count i n)
  with assms(2) show ?thesis
    by (simp add: pool_set_worker_same) (simp add: pool_def)
next
  case (give_back p1)
  then have "pool m p1 = pool m p
      + (if m = w_manager (workers p ! k) then mset (w_buffers (workers p ! k)) else {#})"
    and "workers p1 = workers p"
    using pool_release [OF give_back(2), of m] release_effects(2) [OF give_back(2)] by simp_all
  with give_back assms(2) pool_set_worker_Finished [of k p1 m] show ?thesis
    by (auto split: if_splits)
qed

section \<open>One coordinator per epoch\<close>

definition attempt_ready :: "nat \<Rightarrow> Ref \<Rightarrow> process \<Rightarrow> bool" where
  "attempt_ready this ref p \<longleftrightarrow> mgr_alive p this \<and> heap p (ref_logBuf ref) \<noteq> None
     \<and> INT_MIN \<le> bm_epoch (buf_manager p this)
     \<and> (eb_epoch (the (heap p (ref_logBuf ref))) = bm_epoch (buf_manager p this) \<longrightarrow>
          bm_epoch (buf_manager p this) < INT_MAX)"

interpretation manager_election: epoch_election "tryIncEpoch this"
  "\<lambda>p. bm_epoch (buf_manager p this)" "\<lambda>ref p. eb_epoch (the (heap p (ref_logBuf ref)))"
  "attempt_ready this" for this
proof unfold_locales
  fix ref :: Ref and p
  assume "attempt_ready this ref p"
  then show "\<exists>won p'. tryIncEpoch this ref p = Inr (won, p')"
    by (auto simp: attempt_ready_def tryIncEpoch_def Let_def int_add_def)
next
  fix ref :: Ref and p won p'
  assume "tryIncEpoch this ref p = Inr (won, p')"
  then show "won \<longleftrightarrow> eb_epoch (the (heap p (ref_logBuf ref))) = bm_epoch (buf_manager p this)"
    by (auto elim: tryIncEpoch_cases)
next
  fix ref :: Ref and p p'
  assume won: "tryIncEpoch this ref p = Inr (True, p')"
  show "bm_epoch (buf_manager p' this) = bm_epoch (buf_manager p this) + 1"
    using tryIncEpoch_effects(6,7) [OF won]
    by (cases "activeWorkers (buf_manager p this) < MAX_WORKERS") auto
next
  fix ref :: Ref and p p'
  assume "tryIncEpoch this ref p = Inr (False, p')"
  then show "p' = p" by (auto elim: tryIncEpoch_cases)
next
  fix ref ref' :: Ref and p won p'
  assume att: "tryIncEpoch this ref p = Inr (won, p')"
  then have heap: "heap p' = heap p" "mgr_alive p' = mgr_alive p"
    by (cases won; auto elim: tryIncEpoch_cases dest: tryIncEpoch_effects(1,4))+
  then show "eb_epoch (the (heap p' (ref_logBuf ref'))) = eb_epoch (the (heap p (ref_logBuf ref')))"
    by simp
  assume ready: "attempt_ready this ref' p"
    and le: "eb_epoch (the (heap p (ref_logBuf ref'))) \<le> bm_epoch (buf_manager p this)"
  show "attempt_ready this ref' p'"
  proof (cases won)
    case True
    with att have won: "tryIncEpoch this ref p = Inr (True, p')" by simp
    have "bm_epoch (buf_manager p' this) = bm_epoch (buf_manager p this) + 1"
      using tryIncEpoch_effects(6,7) [OF won]
      by (cases "activeWorkers (buf_manager p this) < MAX_WORKERS") auto
    with ready le heap show ?thesis by (auto simp: attempt_ready_def)
  next
    case False
    with att ready show ?thesis by (auto elim: tryIncEpoch_cases)
  qed
qed

lemma attempt_all_lost_workers:
  "attempt_all (tryIncEpoch this) refs p = Inr (replicate n False, p') \<Longrightarrow> p' = p"
proof (induction refs arbitrary: p n)
  case Nil
  then show ?case by simp
next
  case (Cons ref refs)
  then obtain won p1 wons where step: "tryIncEpoch this ref p = Inr (won, p1)"
    "attempt_all (tryIncEpoch this) refs p1 = Inr (wons, p')" "won # wons = replicate n False"
    by (auto simp: and_then_Inr_iff)
  then obtain k where "n = Suc k" "\<not> won" "wons = replicate k False" by (cases n) auto
  with step Cons.IH [of p1 k] show ?case by (auto elim: tryIncEpoch_cases)
qed

text \<open>
  C10: of any threads that try to end the same epoch, in whatever order they get the lock, exactly
  the first succeeds: the epoch advances by one, and at most one worker is started.
\<close>

theorem one_coordinator:
  assumes "refs \<noteq> []" and "mgr_alive p this" and "bm_epoch (buf_manager p this) = e"
    and "0 \<le> e" and "e < INT_MAX"
    and "\<forall>ref \<in> set refs. \<exists>b. heap p (ref_logBuf ref) = Some b \<and> eb_epoch b = e"
  shows "\<exists>p'. attempt_all (tryIncEpoch this) refs p = Inr (True # replicate (length refs - 1) False, p')
    \<and> bm_epoch (buf_manager p' this) = e + 1 \<and> length (workers p') \<le> Suc (length (workers p))"
proof -
  have "attempt_ready this ref p \<and> eb_epoch (the (heap p (ref_logBuf ref))) = bm_epoch (buf_manager p this)"
    if "ref \<in> set refs" for ref
    using assms that by (fastforce simp: attempt_ready_def)
  from manager_election.one_winner [OF assms(1) this] obtain p' where p':
    "attempt_all (tryIncEpoch this) refs p = Inr (True # replicate (length refs - 1) False, p')"
    "tryIncEpoch this (hd refs) p = Inr (True, p')" "bm_epoch (buf_manager p' this) = e + 1"
    using assms(3) by auto
  moreover have "length (workers p') \<le> Suc (length (workers p))"
    using tryIncEpoch_effects(6,7) [OF p'(2)]
    by (cases "activeWorkers (buf_manager p this) < MAX_WORKERS") auto
  ultimately show ?thesis by blast
qed

text \<open>Two threads whose buffers are of the current epoch 0, and a third buffer that is free.\<close>

definition two_threads :: process where
  "two_threads = init_process
     \<lparr>heap := [0 \<mapsto> new_EventBuffer\<lparr>eb_threadId := 0, eb_epoch := 0\<rparr>,
               1 \<mapsto> new_EventBuffer\<lparr>eb_threadId := 1, eb_epoch := 0\<rparr>,
               2 \<mapsto> new_EventBuffer\<lparr>eb_events := 7, eb_closed := True\<rparr>],
      next_addr := 3,
      log_buffer := [0 \<mapsto> 0, 1 \<mapsto> 1],
      thr_context := [0 \<mapsto> \<lparr>ctx_threadId = 0, ctx_logBuffer = Some 0\<rparr>,
                      1 \<mapsto> \<lparr>ctx_threadId = 1, ctx_logBuffer = Some 1\<rparr>],
      buf_manager := (\<lambda>_. new_BufferManager
        \<lparr>allocatedBufs := [0, 1], freeBufs := [2], tlsBufAddrs := {0, 1}\<rparr>),
      threadCounter := 2\<rparr>"

definition ref_to :: "nat \<Rightarrow> Ref" where
  "ref_to a = \<lparr>ref_logBuf = a, ref_buf = a, ref_events = 10000000, ref_nextRdtscTime = 10000000\<rparr>"

lemma two_threads_simps [simp]:
  "mgr_alive two_threads m"
  "heap two_threads 0 = Some (new_EventBuffer\<lparr>eb_threadId := 0, eb_epoch := 0\<rparr>)"
  "heap two_threads (Suc 0) = Some (new_EventBuffer\<lparr>eb_threadId := 1, eb_epoch := 0\<rparr>)"
  "heap two_threads 2 = Some (new_EventBuffer\<lparr>eb_events := 7, eb_closed := True\<rparr>)"
  "buf_manager two_threads m = \<lparr>activeWorkers = 0, bm_epoch = 0, allocatedBufs = [0, 1],
     freeBufs = [2], tlsBufAddrs = {0, 1}\<rparr>"
  "workers two_threads = []" "log_buffer two_threads 0 = Some 0" "log_buffer two_threads 5 = None"
  "ref_logBuf (ref_to a) = a"
  by (simp_all add: two_threads_def init_process_def new_BufferManager_def ref_to_def)

theorem one_coordinator_witness:
  "\<exists>p'. attempt_all (tryIncEpoch 0) [ref_to 1, ref_to 0] two_threads = Inr ([True, False], p')
     \<and> bm_epoch (buf_manager p' 0) = 1 \<and> length (workers p') \<le> 1"
  using one_coordinator [of "[ref_to 1, ref_to 0]" two_threads 0 0]
  by (simp del: attempt_all.simps)

text \<open>
  A thread without a buffer gets an empty one of the current epoch, marked with its identifier
  and open for writing; \<open>getLogBuffer\<close> returns it from now on, the manager records the buffer and
  the address of the thread's pointer, and no other buffer and no other thread's pointer changes. A
  thread that still has a buffer fails the assertion.
\<close>

theorem allocBuffer_contract:
  assumes "mgr_alive p this" and "\<forall>a \<in> set (freeBufs (buf_manager p this)). heap p a \<noteq> None"
  shows "(getLogBuffer t p = None \<longrightarrow> (\<exists>a p' b. allocBuffer this t p = Inr (a, p')
      \<and> getLogBuffer t p' = Some a \<and> heap p' a = Some b
      \<and> fresh_buffer (ctx_threadId (fst (tls_context t p))) (bm_epoch (buf_manager p this)) b
      \<and> allocatedBufs (buf_manager p' this) = allocatedBufs (buf_manager p this) @ [a]
      \<and> t \<in> tlsBufAddrs (buf_manager p' this)
      \<and> (\<forall>a'. a' \<noteq> a \<longrightarrow> heap p' a' = heap p a')
      \<and> (\<forall>t'. t' \<noteq> t \<longrightarrow> getLogBuffer t' p' = getLogBuffer t' p)))
    \<and> (getLogBuffer t p \<noteq> None \<longrightarrow> allocBuffer this t p = Inl AssertionFailed)"
proof (intro conjI impI)
  assume none: "getLogBuffer t p = None"
  have "freeBufs (buf_manager p this) \<noteq> [] \<longrightarrow> heap p (last (freeBufs (buf_manager p this))) \<noteq> None"
    using assms(2) by simp
  with assms(1) none obtain a p' where call: "allocBuffer this t p = Inr (a, p')"
    using allocBuffer_ok by (metis getLogBuffer_def)
  then show "\<exists>a p' b. allocBuffer this t p = Inr (a, p')
      \<and> getLogBuffer t p' = Some a \<and> heap p' a = Some b
      \<and> fresh_buffer (ctx_threadId (fst (tls_context t p))) (bm_epoch (buf_manager p this)) b
      \<and> allocatedBufs (buf_manager p' this) = allocatedBufs (buf_manager p this) @ [a]
      \<and> t \<in> tlsBufAddrs (buf_manager p' this)
      \<and> (\<forall>a'. a' \<noteq> a \<longrightarrow> heap p' a' = heap p a')
      \<and> (\<forall>t'. t' \<noteq> t \<longrightarrow> getLogBuffer t' p' = getLogBuffer t' p)"
    using allocBuffer_effects(3,4,6) [OF call] by (auto simp: getLogBuffer_def)
next
  assume "getLogBuffer t p \<noteq> None"
  with assms(1) show "allocBuffer this t p = Inl AssertionFailed"
    by (auto simp: allocBuffer_def)
qed

theorem allocBuffer_contract_witness:
  "\<exists>a p' b. allocBuffer 0 5 two_threads = Inr (a, p') \<and> getLogBuffer 5 p' = Some a \<and> heap p' a = Some b
     \<and> fresh_buffer (ctx_threadId (fst (tls_context 5 two_threads))) 0 b"
  using allocBuffer_contract [of two_threads 0 5]
  by (auto simp: getLogBuffer_def)

text \<open>
  The thread that ends the epoch takes the buffer away from every registered thread and from no
  other; all buffers allocated in the epoch go, in their order, to one new worker, or, with 32 workers
  at work, back to the pool unread; then the next epoch starts with no buffer allocated and no thread
  registered. Events, contexts and closed flags stay as they are. A thread whose buffer is of an
  earlier epoch changes nothing.
\<close>

theorem tryIncEpoch_contract:
  assumes "mgr_alive p this" and "heap p (ref_logBuf ref) = Some b"
    and "m = buf_manager p this" and "0 \<le> bm_epoch m" and "bm_epoch m < INT_MAX"
  shows "(eb_epoch b \<noteq> bm_epoch m \<longrightarrow> tryIncEpoch this ref p = Inr (False, p))
    \<and> (eb_epoch b = bm_epoch m \<longrightarrow> (\<exists>p'. tryIncEpoch this ref p = Inr (True, p')
       \<and> heap p' = heap p \<and> thr_context p' = thr_context p
       \<and> (\<forall>t. getLogBuffer t p' = (if t \<in> tlsBufAddrs m then None else getLogBuffer t p))
       \<and> allocatedBufs (buf_manager p' this) = [] \<and> tlsBufAddrs (buf_manager p' this) = {}
       \<and> bm_epoch (buf_manager p' this) = bm_epoch m + 1
       \<and> (if activeWorkers m < 32 then
            workers p' = workers p @ [\<lparr>w_manager = this, w_buffers = allocatedBufs m,
              w_phase = Waiting 0\<rparr>]
            \<and> activeWorkers (buf_manager p' this) = activeWorkers m + 1
            \<and> freeBufs (buf_manager p' this) = freeBufs m \<and> printed p' = printed p
          else
            workers p' = workers p \<and> activeWorkers (buf_manager p' this) = activeWorkers m
            \<and> freeBufs (buf_manager p' this) = freeBufs m @ allocatedBufs m
            \<and> printed p' = printed p @ [TooManyWorkers (bm_epoch m)])))"
proof (intro conjI impI)
  assume "eb_epoch b \<noteq> bm_epoch m"
  with assms show "tryIncEpoch this ref p = Inr (False, p)" by (simp add: tryIncEpoch_def Let_def)
next
  assume "eb_epoch b = bm_epoch m"
  with assms tryIncEpoch_won [of p this ref b] obtain p' where won:
    "tryIncEpoch this ref p = Inr (True, p')" by auto
  show "\<exists>p'. tryIncEpoch this ref p = Inr (True, p')
       \<and> heap p' = heap p \<and> thr_context p' = thr_context p
       \<and> (\<forall>t. getLogBuffer t p' = (if t \<in> tlsBufAddrs m then None else getLogBuffer t p))
       \<and> allocatedBufs (buf_manager p' this) = [] \<and> tlsBufAddrs (buf_manager p' this) = {}
       \<and> bm_epoch (buf_manager p' this) = bm_epoch m + 1
       \<and> (if activeWorkers m < 32 then
            workers p' = workers p @ [\<lparr>w_manager = this, w_buffers = allocatedBufs m,
              w_phase = Waiting 0\<rparr>]
            \<and> activeWorkers (buf_manager p' this) = activeWorkers m + 1
            \<and> freeBufs (buf_manager p' this) = freeBufs m \<and> printed p' = printed p
          else
            workers p' = workers p \<and> activeWorkers (buf_manager p' this) = activeWorkers m
            \<and> freeBufs (buf_manager p' this) = freeBufs m @ allocatedBufs m
            \<and> printed p' = printed p @ [TooManyWorkers (bm_epoch m)])"
    using won tryIncEpoch_effects(1,3,5,6,7) [OF won]
    by (intro exI [of _ p'])
      (cases "activeWorkers m < 32"; simp add: assms(3) getLogBuffer_def MAX_WORKERS_def)
qed

theorem tryIncEpoch_contract_witness:
  "\<exists>p'. tryIncEpoch 0 (ref_to 0) two_threads = Inr (True, p')
     \<and> getLogBuffer 1 p' = None
     \<and> workers p' = [\<lparr>w_manager = 0, w_buffers = [0, 1], w_phase = Waiting 0\<rparr>]"
  using tryIncEpoch_contract [of two_threads 0 "ref_to 0" "the (heap two_threads 0)"
      "buf_manager two_threads 0"]
  by auto

end
