(* ===== verification/Logging.thy ===== *)
theory Logging
  imports ManagerSpec
begin

text \<open>
  \<open>Main.cc\<close>: the log operations, their buffer sizes, and the log functions called before every
  instrumented write. \<open>t\<close> is the calling thread, \<open>this\<close> the buffer manager it sees; \<open>pc\<close>,
  \<open>addr\<close>, \<open>val\<close> are the arguments of the source.
\<close>

section \<open>Log operations\<close>

text \<open>
  \<open>static_cast<LogOp>\<close> of a number that is no enumerator's is \<open>OTHER_OP\<close>; \<open>LogOp_value\<close> is
  the number behind an enumerator.
\<close>

datatype LogOp =
    NO_OP | NO_SSE | FUNC_CALL | LOG_ADDR | LOG_DIRECT_LOAD | PREFETCH_LOG_ENTRY | VOLATILE_BUF_PTR
  | CACHED_BUF_PTR | LOG_HEADER | LOG_VALUE | LOG_SRC_LOC | LOG_FULL | LOG_FULL_128
  | LOG_FULL_NAIVE | GLOBAL_COUNTER | BUFFER_MANAGER | LOG_TIMESTAMP | INVALID_OP
  | OTHER_OP int

definition LogOp_list :: "LogOp list" where
  "LogOp_list =
    [NO_OP, NO_SSE, FUNC_CALL, LOG_ADDR, LOG_DIRECT_LOAD, PREFETCH_LOG_ENTRY, VOLATILE_BUF_PTR,
     CACHED_BUF_PTR, LOG_HEADER, LOG_VALUE, LOG_SRC_LOC, LOG_FULL, LOG_FULL_128,
     LOG_FULL_NAIVE, GLOBAL_COUNTER, BUFFER_MANAGER, LOG_TIMESTAMP, INVALID_OP]"

fun LogOp_value :: "LogOp \<Rightarrow> int" where
  "LogOp_value NO_OP = 0"
| "LogOp_value NO_SSE = 1"
| "LogOp_value FUNC_CALL = 2"
| "LogOp_value LOG_ADDR = 3"
| "LogOp_value LOG_DIRECT_LOAD = 4"
| "LogOp_value PREFETCH_LOG_ENTRY = 5"
| "LogOp_value VOLATILE_BUF_PTR = 6"
| "LogOp_value CACHED_BUF_PTR = 7"
| "LogOp_value LOG_HEADER = 8"
| "LogOp_value LOG_VALUE = 9"
| "LogOp_value LOG_SRC_LOC = 10"
| "LogOp_value LOG_FULL = 11"
| "LogOp_value LOG_FULL_128 = 12"
| "LogOp_value LOG_FULL_NAIVE = 13"
| "LogOp_value GLOBAL_COUNTER = 14"
| "LogOp_value BUFFER_MANAGER = 15"
| "LogOp_value LOG_TIMESTAMP = 16"
| "LogOp_value INVALID_OP = 17"
| "LogOp_value (OTHER_OP n) = n"

text \<open>
  C++ compares enumerators by their numbers. \<open>OTHER_OP 3\<close> and \<open>LOG_ADDR\<close> have the same one, so that
  this is no more than a preorder.
\<close>

instantiation LogOp :: preorder
begin

definition less_eq_LogOp :: "LogOp \<Rightarrow> LogOp \<Rightarrow> bool" where
  [simp]: "op \<le> op' \<longleftrightarrow> LogOp_value op \<le> LogOp_value op'"

definition less_LogOp :: "LogOp \<Rightarrow> LogOp \<Rightarrow> bool" where
  [simp]: "op < op' \<longleftrightarrow> LogOp_value op < LogOp_value op'"

instance
  by standard auto

end

definition LogOp_of_int :: "int \<Rightarrow> LogOp" where
  "LogOp_of_int n = (if 0 \<le> n \<and> n \<le> 17 then LogOp_list ! nat n else OTHER_OP n)"

definition BUFFER_SIZE :: "int list" where
  "BUFFER_SIZE =
    [MAX_EVENTS_SMALL, MAX_EVENTS_SMALL, MAX_EVENTS_SMALL, MAX_EVENTS_SMALL, MAX_EVENTS_SMALL,
     MAX_EVENTS, MAX_EVENTS_SMALL, MAX_EVENTS_SMALL, MAX_EVENTS_SMALL, MAX_EVENTS_SMALL,
     MAX_EVENTS_SMALL, MAX_EVENTS, MAX_EVENTS, MAX_EVENTS, MAX_EVENTS_SMALL, MAX_EVENTS,
     MAX_EVENTS_SMALL]"

text \<open>\<open>BUFFER_SIZE[op]\<close> with an enumerator below \<open>INVALID_OP\<close> as the index.\<close>

definition buffer_size :: "LogOp \<Rightarrow> int" where
  "buffer_size op = BUFFER_SIZE ! nat (LogOp_value op)"

lemma buffer_size_simps [simp]:
  "buffer_size LOG_ADDR = 1000" "buffer_size LOG_DIRECT_LOAD = 1000"
  "buffer_size PREFETCH_LOG_ENTRY = 10000000" "buffer_size VOLATILE_BUF_PTR = 1000"
  "buffer_size CACHED_BUF_PTR = 1000" "buffer_size LOG_HEADER = 1000"
  "buffer_size LOG_VALUE = 1000" "buffer_size LOG_SRC_LOC = 1000"
  "buffer_size LOG_FULL = 10000000" "buffer_size LOG_FULL_128 = 10000000"
  "buffer_size LOG_FULL_NAIVE = 10000000" "buffer_size GLOBAL_COUNTER = 1000"
  "buffer_size BUFFER_MANAGER = 10000000"
  by (simp_all add: buffer_size_def BUFFER_SIZE_def size_defs)

section \<open>Updates of the counters\<close>

text \<open>\<open>logBuf->events++\<close> (the old value), \<open>++logBuf->events\<close> (the new one), and assignments.\<close>

definition post_inc_events :: "nat \<Rightarrow> process \<Rightarrow> (int \<times> process) result" where
  "post_inc_events a p =
     and_then (load_buf a p) (\<lambda>b.
     and_then (int_add (eb_events b) 1) (\<lambda>n.
     Inr (eb_events b, store_buf a (b\<lparr>eb_events := n\<rparr>) p)))"

definition pre_inc_events :: "nat \<Rightarrow> process \<Rightarrow> (int \<times> process) result" where
  "pre_inc_events a p =
     and_then (load_buf a p) (\<lambda>b.
     and_then (int_add (eb_events b) 1) (\<lambda>n.
     Inr (n, store_buf a (b\<lparr>eb_events := n\<rparr>) p)))"

definition set_events :: "nat \<Rightarrow> int \<Rightarrow> process \<Rightarrow> process result" where
  "set_events a n p = modify_buf a (\<lambda>b. b\<lparr>eb_events := n\<rparr>) p"

text \<open>\<open>logBuf->buf[logBuf->events] = w\<close>\<close>

definition append_event :: "nat \<Rightarrow> u64 \<Rightarrow> process \<Rightarrow> process result" where
  "append_event a w p = and_then (load_buf a p) (\<lambda>b. write_slot a (eb_events b) w p)"

section \<open>Log functions without a reference\<close>

definition tsan_write8_func :: "u64 \<Rightarrow> u64 \<Rightarrow> u64 \<Rightarrow> process \<Rightarrow> process result" where
  "tsan_write8_func pc addr val p = Inr p"

definition tsan_write8_log_addr :: "nat \<Rightarrow> u64 \<Rightarrow> u64 \<Rightarrow> u64 \<Rightarrow> process \<Rightarrow> process result" where
  "tsan_write8_log_addr t pc addr val p =
     and_then (not_null (getLogBufferUnsafe t p)) (\<lambda>logBuf.
     and_then (append_event logBuf addr p) (\<lambda>p1.
     and_then (post_inc_events logBuf p1) (\<lambda>(events, p2).
     if events = buffer_size LOG_ADDR then set_events logBuf 0 p2 else Inr p2)))"

text \<open>The reference parameter \<open>events\<close> is a local variable of the caller, returned updated.\<close>

definition tsan_write8_log_addr_direct ::
  "nat \<Rightarrow> u64 \<Rightarrow> u64 \<Rightarrow> u64 \<Rightarrow> int \<times> process \<Rightarrow> (int \<times> process) result" where
  "tsan_write8_log_addr_direct buf pc addr val = (\<lambda>(events, p).
     and_then (write_slot buf events addr p) (\<lambda>p1.
     and_then (int_add events 1) (\<lambda>n.
     if events = buffer_size LOG_DIRECT_LOAD then Inr (0, p1) else Inr (n, p1))))"

text \<open>
  The slots whose cache lines are prefetched, for the current position \<open>curPos\<close>; the prefetch
  itself changes no memory.
\<close>

definition prefetch_log_entries :: "int \<Rightarrow> int list" where
  "prefetch_log_entries curPos =
     (let eventsPerLine = 64 div EVENT_SIZE;
          prefetchCacheLines = BATCH_SIZE div eventsPerLine;
          prefetchDist = eventsPerLine * prefetchCacheLines * 2
      in map (\<lambda>i. curPos + prefetchDist + i * eventsPerLine) [0..prefetchCacheLines - 1])"

definition tsan_write8_prefetch_log_entries ::
  "nat \<Rightarrow> u64 \<Rightarrow> u64 \<Rightarrow> u64 \<Rightarrow> process \<Rightarrow> process result" where
  "tsan_write8_prefetch_log_entries t pc addr val p =
     and_then (not_null (getLogBufferUnsafe t p)) (\<lambda>logBuf.
     and_then (append_event logBuf addr p) (\<lambda>p1.
     and_then (post_inc_events logBuf p1) (\<lambda>(events, p2).
     and_then (load_buf logBuf p2) (\<lambda>b2.
     if eb_nextRdtscTime b2 \<le> events then
       let b3 = (if buffer_size PREFETCH_LOG_ENTRY \<le> eb_events b2
                 then b2\<lparr>eb_events := 0, eb_nextRdtscTime := BATCH_SIZE\<rparr> else b2);
           _ = prefetch_log_entries (eb_events b3)
       in and_then (int_add (eb_nextRdtscTime b3) BATCH_SIZE) (\<lambda>n.
          Inr (store_buf logBuf (b3\<lparr>eb_nextRdtscTime := n\<rparr>) p2))
     else Inr p2))))"

definition tsan_write8_volatile_bufptr ::
  "nat \<Rightarrow> u64 \<Rightarrow> u64 \<Rightarrow> u64 \<Rightarrow> process \<Rightarrow> process result" where
  "tsan_write8_volatile_bufptr t pc addr val p =
     and_then (not_null (getLogBuffer t p)) (\<lambda>logBuf.
     and_then (append_event logBuf addr p) (\<lambda>p1.
     and_then (post_inc_events logBuf p1) (\<lambda>(events, p2).
     if events = buffer_size VOLATILE_BUF_PTR then set_events logBuf 0 p2 else Inr p2)))"

definition tsan_write8_log_header :: "nat \<Rightarrow> u64 \<Rightarrow> u64 \<Rightarrow> u64 \<Rightarrow> process \<Rightarrow> process result" where
  "tsan_write8_log_header t pc addr val p =
     and_then (not_null (getLogBufferUnsafe t p)) (\<lambda>logBuf.
     and_then (append_event logBuf (encode_header addr) p) (\<lambda>p1.
     and_then (post_inc_events logBuf p1) (\<lambda>(events, p2).
     if events = buffer_size LOG_HEADER then set_events logBuf 0 p2 else Inr p2)))"

definition tsan_write8_log_value :: "nat \<Rightarrow> u64 \<Rightarrow> u64 \<Rightarrow> u64 \<Rightarrow> process \<Rightarrow> process result" where
  "tsan_write8_log_value t pc addr val p =
     and_then (not_null (getLogBufferUnsafe t p)) (\<lambda>logBuf.
     and_then (append_event logBuf (encode_value addr val) p) (\<lambda>p1.
     and_then (post_inc_events logBuf p1) (\<lambda>(events, p2).
     if buffer_size LOG_VALUE \<le> events then set_events logBuf 0 p2 else Inr p2)))"

definition tsan_write8_log_src_loc :: "nat \<Rightarrow> u64 \<Rightarrow> u64 \<Rightarrow> u64 \<Rightarrow> process \<Rightarrow> process result" where
  "tsan_write8_log_src_loc t pc addr val p =
     and_then (not_null (getLogBufferUnsafe t p)) (\<lambda>logBuf.
     and_then (append_event logBuf (encode_src_loc pc addr val) p) (\<lambda>p1.
     and_then (pre_inc_events logBuf p1) (\<lambda>(events, p2).
     if buffer_size LOG_SRC_LOC \<le> events then set_events logBuf 0 p2 else Inr p2)))"

definition tsan_write8_log_full_naive ::
  "nat \<Rightarrow> u64 \<Rightarrow> u64 \<Rightarrow> u64 \<Rightarrow> process \<Rightarrow> process result" where
  "tsan_write8_log_full_naive t pc addr val p =
     and_then (not_null (getLogBuffer t p)) (\<lambda>logBuf.
     and_then (append_event logBuf (encode_src_loc pc addr val) p) (\<lambda>p1.
     and_then (post_inc_events logBuf p1) (\<lambda>(events, p2).
     if events = buffer_size LOG_FULL_NAIVE then set_events logBuf 0 p2 else Inr p2)))"

text \<open>\<open>fetch_add\<close> on the 32-bit counter wraps around.\<close>

definition tsan_write8_global_counter ::
  "nat \<Rightarrow> u64 \<Rightarrow> u64 \<Rightarrow> u64 \<Rightarrow> process \<Rightarrow> process result" where
  "tsan_write8_global_counter t pc addr val p =
     and_then (not_null (getLogBufferUnsafe t p)) (\<lambda>logBuf.
     let eventId = ucast (event_id_counter p);
         p0 = p\<lparr>event_id_counter := event_id_counter p + 1\<rparr>
     in and_then (append_event logBuf (encode_global_counter eventId addr) p0) (\<lambda>p1.
        and_then (post_inc_events logBuf p1) (\<lambda>(events, p2).
        if events = buffer_size GLOBAL_COUNTER then set_events logBuf 0 p2 else Inr p2)))"

section \<open>Log functions with a cached reference\<close>

type_synonym ref_state = "Ref \<times> process"

text \<open>\<open>ref->updateLogBuffer(__buf_manager.allocBuffer())\<close>\<close>

definition next_buffer :: "nat \<Rightarrow> nat \<Rightarrow> ref_state \<Rightarrow> ref_state result" where
  "next_buffer this t = (\<lambda>(ref, p).
     and_then (allocBuffer this t p) (\<lambda>(a, p1). updateLogBuffer ref (Some a) p1))"

definition tsan_write8_cached_bufptr_slow ::
  "nat \<Rightarrow> nat \<Rightarrow> nat option \<Rightarrow> ref_state \<Rightarrow> ref_state result" where
  "tsan_write8_cached_bufptr_slow this t curBuf = (\<lambda>(ref, p).
     if curBuf = None then next_buffer this t (ref, p)
     else
       and_then (int_add (ref_nextRdtscTime ref) BATCH_SIZE) (\<lambda>n.
       let ref1 = ref\<lparr>ref_nextRdtscTime := n\<rparr> in
       if buffer_size CACHED_BUF_PTR \<le> ref_events ref1
       then Inr (ref1\<lparr>ref_events := 0, ref_nextRdtscTime := BATCH_SIZE\<rparr>, p)
       else Inr (ref1, p)))"

definition tsan_write8_cached_bufptr ::
  "nat \<Rightarrow> nat \<Rightarrow> u64 \<Rightarrow> u64 \<Rightarrow> u64 \<Rightarrow> ref_state \<Rightarrow> ref_state result" where
  "tsan_write8_cached_bufptr this t pc addr val = (\<lambda>(ref, p).
     let curBuf = getLogBuffer t p in
     and_then (write_slot (ref_buf ref) (ref_events ref) addr p) (\<lambda>p1.
     and_then (int_add (ref_events ref) 1) (\<lambda>n.
     let ref1 = ref\<lparr>ref_events := n\<rparr> in
     if ref_nextRdtscTime ref \<le> ref_events ref \<or> curBuf = None
     then tsan_write8_cached_bufptr_slow this t curBuf (ref1, p1)
     else Inr (ref1, p1))))"

definition tsan_write8_log_full_slow ::
  "nat \<Rightarrow> nat \<Rightarrow> nat option \<Rightarrow> ref_state \<Rightarrow> ref_state result" where
  "tsan_write8_log_full_slow this t curBuf = (\<lambda>(ref, p).
     if curBuf = None then next_buffer this t (ref, p)
     else
       and_then (int_add (ref_nextRdtscTime ref) BATCH_SIZE) (\<lambda>n.
       let ref1 = ref\<lparr>ref_nextRdtscTime := n\<rparr>;
           _ = prefetch_log_entries (ref_events ref1)
       in if buffer_size LOG_FULL \<le> ref_events ref1
          then Inr (ref1\<lparr>ref_events := 0, ref_nextRdtscTime := BATCH_SIZE\<rparr>, p)
          else Inr (ref1, p)))"

definition tsan_write8_log_full ::
  "nat \<Rightarrow> nat \<Rightarrow> u64 \<Rightarrow> u64 \<Rightarrow> u64 \<Rightarrow> ref_state \<Rightarrow> ref_state result" where
  "tsan_write8_log_full this t pc addr val = (\<lambda>(ref, p).
     let curBuf = getLogBuffer t p in
     and_then (write_slot (ref_buf ref) (ref_events ref) (encode_src_loc pc addr val) p) (\<lambda>p1.
     and_then (int_add (ref_events ref) 1) (\<lambda>n.
     let ref1 = ref\<lparr>ref_events := n\<rparr> in
     if ref_nextRdtscTime ref1 \<le> ref_events ref1 \<or> curBuf = None
     then tsan_write8_log_full_slow this t curBuf (ref1, p1)
     else Inr (ref1, p1))))"

definition tsan_write8_log_full_128 ::
  "nat \<Rightarrow> nat \<Rightarrow> u64 \<Rightarrow> u64 \<Rightarrow> u64 \<Rightarrow> ref_state \<Rightarrow> ref_state result" where
  "tsan_write8_log_full_128 this t pc addr val = (\<lambda>(ref, p).
     let curBuf = getLogBuffer t p in
     and_then (write_slot (ref_buf ref) (ref_events ref) (encode_full_128 pc val) p) (\<lambda>p1.
     and_then (int_add (ref_events ref) 1) (\<lambda>n1.
     and_then (write_slot (ref_buf ref) n1 addr p1) (\<lambda>p2.
     and_then (int_add n1 1) (\<lambda>n2.
     let ref1 = ref\<lparr>ref_events := n2\<rparr> in
     if ref_nextRdtscTime ref1 \<le> ref_events ref1 \<or> curBuf = None
     then tsan_write8_log_full_slow this t curBuf (ref1, p2)
     else Inr (ref1, p2))))))"

definition tsan_write8_buf_manager_slow ::
  "nat \<Rightarrow> nat \<Rightarrow> nat option \<Rightarrow> ref_state \<Rightarrow> ref_state result" where
  "tsan_write8_buf_manager_slow this t curBuf = (\<lambda>(ref, p).
     if curBuf = None then next_buffer this t (ref, p)
     else
       and_then (int_add (ref_nextRdtscTime ref) BATCH_SIZE) (\<lambda>n.
       let ref1 = ref\<lparr>ref_nextRdtscTime := n\<rparr> in
       if buffer_size BUFFER_MANAGER \<le> ref_events ref1 then
         and_then (tryIncEpoch this ref1 p) (\<lambda>(_, p1). next_buffer this t (ref1, p1))
       else Inr (ref1, p)))"

definition tsan_write8_buf_manager ::
  "nat \<Rightarrow> nat \<Rightarrow> u64 \<Rightarrow> u64 \<Rightarrow> u64 \<Rightarrow> ref_state \<Rightarrow> ref_state result" where
  "tsan_write8_buf_manager this t pc addr val = (\<lambda>(ref, p).
     let curBuf = getLogBuffer t p in
     and_then (write_slot (ref_buf ref) (ref_events ref) (encode_src_loc pc addr val) p) (\<lambda>p1.
     if curBuf = None then tsan_write8_buf_manager_slow this t curBuf (ref, p1)
     else
       and_then (int_add (ref_events ref) 1) (\<lambda>n.
       let ref1 = ref\<lparr>ref_events := n\<rparr> in
       if ref_nextRdtscTime ref \<le> ref_events ref
       then tsan_write8_buf_manager_slow this t curBuf (ref1, p1)
       else Inr (ref1, p1))))"

end
