(* ===== verification/RingLog.thy ===== *)
theory RingLog
  imports RuntimeState
begin

text \<open>
  The contract of a log function, as the benchmark loops rely on it: a call appends the words of
  one event at the current position and starts over when the buffer's capacity is reached. The
  consequences for any number of calls are proved once here; every log function of \<open>Main.cc\<close> and
  of \<open>local_writes_benchmarks.cc\<close> is an instance.
\<close>

section \<open>Logging a list of events\<close>

text \<open>The slots after storing words one after the other from position \<open>i\<close> on.\<close>

fun put :: "u64 list \<Rightarrow> int \<Rightarrow> (int \<Rightarrow> u64 option) \<Rightarrow> (int \<Rightarrow> u64 option)" where
  "put [] i m = m"
| "put (w # ws) i m = put ws (i + 1) (m(i \<mapsto> w))"

lemma put_other: "j < i \<or> i + int (length ws) \<le> j \<Longrightarrow> put ws i m j = m j"
  by (induction ws arbitrary: i m) auto

lemma put_nth: "k < length ws \<Longrightarrow> put ws i m (i + int k) = Some (ws ! k)"
proof (induction ws arbitrary: i m k)
  case Nil
  then show ?case by simp
next
  case (Cons w ws)
  show ?case
  proof (cases k)
    case 0
    then show ?thesis by (simp add: put_other)
  next
    case (Suc k')
    have "put ws (i + 1) (m(i \<mapsto> w)) ((i + 1) + int k') = Some (ws ! k')"
      using Cons.prems Suc by (intro Cons.IH) simp
    moreover have "(i + 1) + int k' = i + int k" using Suc by simp
    ultimately show ?thesis using Suc by (simp del: fun_upd_apply)
  qed
qed

fun log_all :: "('e \<Rightarrow> 's \<Rightarrow> 's result) \<Rightarrow> 'e list \<Rightarrow> 's \<Rightarrow> 's result" where
  "log_all log [] s = Inr s"
| "log_all log (e # es) s = and_then (log e s) (log_all log es)"

lemma log_all_snoc: "log_all log (es @ [e]) s = and_then (log_all log es s) (log e)"
proof (induction es arbitrary: s)
  case Nil
  show ?case by (cases "log e s") simp_all
next
  case (Cons d es)
  show ?case by (cases "log d s") (simp_all add: Cons.IH)
qed

lemma log_all_append:
  "log_all log (es @ fs) s = and_then (log_all log es s) (log_all log fs)"
proof (induction es arbitrary: s)
  case Nil
  show ?case by simp
next
  case (Cons d es)
  show ?case by (cases "log d s") (simp_all add: Cons.IH)
qed

section \<open>The contracts\<close>

text \<open>A log function that never fails on a good state and leaves a good state.\<close>

locale total_log =
  fixes log :: "'e \<Rightarrow> 's \<Rightarrow> 's result"
    and good :: "'s \<Rightarrow> bool"
  assumes log_total: "good s \<Longrightarrow> \<exists>s'. log e s = Inr s' \<and> good s'"
begin

lemma log_all_total:
  assumes "good s"
  shows "\<exists>s'. log_all log es s = Inr s' \<and> good s'"
  using assms
proof (induction es arbitrary: s)
  case Nil
  then show ?case by simp
next
  case (Cons e es)
  from log_total [OF Cons.prems] obtain s1 where "log e s = Inr s1" "good s1" by blast
  with Cons.IH [of s1] show ?case by auto
qed

end

text \<open>
  A log function on a buffer of \<open>cap\<close> slots: every event takes \<open>width\<close> words, stored at the
  current position, which then advances and starts over at the end.
\<close>

locale ring_log = total_log log good
  for log :: "'e \<Rightarrow> 's \<Rightarrow> 's result" and good :: "'s \<Rightarrow> bool" +
  fixes words :: "'e \<Rightarrow> u64 list"
    and position :: "'s \<Rightarrow> int"
    and slots :: "'s \<Rightarrow> int \<Rightarrow> u64 option"
    and width :: nat
    and cap :: int
  assumes width: "length (words e) = width" and width_pos: "0 < width"
    and cap_pos: "0 < cap" and width_cap: "int width dvd cap"
    and good_position: "good s \<Longrightarrow> 0 \<le> position s \<and> position s < cap \<and> int width dvd position s"
    and log_one: "good s \<Longrightarrow> log e s = Inr s' \<Longrightarrow>
      position s' = (position s + int width) mod cap
      \<and> slots s' = put (words e) (position s) (slots s)"
begin

lemma log_all_ok:
  assumes "good s"
  shows "\<exists>s'. log_all log es s = Inr s' \<and> good s'
    \<and> position s' = (position s + int width * int (length es)) mod cap"
proof (induction es rule: rev_induct)
  case Nil
  from assms good_position [OF assms] show ?case by simp
next
  case (snoc e es)
  then obtain s1 where s1: "log_all log es s = Inr s1" "good s1"
    "position s1 = (position s + int width * int (length es)) mod cap" by blast
  from log_total [OF s1(2)] obtain s2 where s2: "log e s1 = Inr s2" "good s2" by blast
  have "position s2 = (position s + int width * int (length (es @ [e]))) mod cap"
    using s1(3) log_one [OF s1(2) s2(1)] by (simp add: mod_simps algebra_simps)
  with s1(1) s2(1,2) show ?case by (simp add: log_all_snoc)
qed

text \<open>
  A slot group that is not the one being written keeps its contents: two positions that are
  multiples of the width do not overlap.
\<close>

lemma put_elsewhere:
  assumes "int width dvd i" and "int width dvd j" and "i \<noteq> j" and "k < width"
  shows "put (words e) j m (i + int k) = m (i + int k)"
proof (rule put_other)
  from assms(1,2) obtain x y where xy: "i = int width * x" "j = int width * y"
    by (auto elim!: dvdE)
  with assms(3) have "x \<noteq> y" by auto
  then consider "x + 1 \<le> y" | "y + 1 \<le> x" by linarith
  then show "i + int k < j \<or> j + int (length (words e)) \<le> i + int k"
  proof cases
    case 1
    then have "int width * (x + 1) \<le> int width * y" by (rule mult_left_mono) simp
    with assms(4) xy show ?thesis by (simp add: algebra_simps)
  next
    case 2
    then have "int width * (y + 1) \<le> int width * x" by (rule mult_left_mono) simp
    with assms(4) xy width show ?thesis by (simp add: algebra_simps)
  qed
qed

text \<open>
  Nothing is lost before it is overwritten: of any sequence of calls, the events of the last
  \<open>cap div width\<close> calls are in the buffer, each at its place.
\<close>

lemma retained:
  assumes "good s" and "log_all log es s = Inr s'"
    and "j < length es" and "int width * int (length es - j) \<le> cap" and "k < width"
  shows "slots s' ((position s + int width * int j) mod cap + int k) = Some (words (es ! j) ! k)"
  using assms(2-4)
proof (induction es arbitrary: s' rule: rev_induct)
  case Nil
  then show ?case by simp
next
  case (snoc e es)
  from log_all_ok [OF assms(1), of es] obtain s1 where s1: "log_all log es s = Inr s1" "good s1"
    "position s1 = (position s + int width * int (length es)) mod cap" by blast
  with snoc.prems(1) have s': "log e s1 = Inr s'" by (simp add: log_all_snoc)
  then have slots': "slots s' = put (words e) (position s1) (slots s1)"
    using log_one [OF s1(2)] by blast
  let ?i = "(position s + int width * int j) mod cap"
  show ?case
  proof (cases "j = length es")
    case True
    with s1(3) slots' assms(5) width show ?thesis by (simp add: put_nth)
  next
    case False
    with snoc.prems have j: "j < length es" by simp
    have le: "int width * int (length es - j) + int width \<le> cap"
      using snoc.prems(3) j by (simp add: Suc_diff_le of_nat_diff algebra_simps)
    have "?i \<noteq> position s1"
    proof
      assume "?i = position s1"
      with s1(3) have "cap dvd (position s + int width * int (length es)) - (position s + int width * int j)"
        by (metis mod_eq_dvd_iff)
      then have "cap dvd int width * int (length es - j)"
        using j by (simp add: of_nat_diff algebra_simps)
      moreover have "0 < int width * int (length es - j)" using j width_pos by simp
      ultimately have "cap \<le> int width * int (length es - j)" by (rule zdvd_imp_le)
      with le width_pos show False by linarith
    qed
    moreover have "int width dvd ?i" "int width dvd position s1"
      using good_position [OF assms(1)] good_position [OF s1(2)] width_cap
      by (auto simp: dvd_mod)
    ultimately have "slots s' (?i + int k) = slots s1 (?i + int k)"
      using slots' assms(5) by (simp add: put_elsewhere)
    moreover have "slots s1 (?i + int k) = Some (words (es ! j) ! k)"
      using le width_pos by (intro snoc.IH [OF s1(1) j]) simp
    ultimately show ?thesis using j by (simp add: nth_append)
  qed
qed

text \<open>The two facts together, as the instances state them.\<close>

lemma ring:
  assumes "good s"
  shows "\<exists>s'. log_all log es s = Inr s'
    \<and> position s' = (position s + int width * int (length es)) mod cap
    \<and> (\<forall>j < length es. int width * int (length es - j) \<le> cap \<longrightarrow> (\<forall>k < width.
         slots s' ((position s + int width * int j) mod cap + int k) = Some (words (es ! j) ! k)))"
  using log_all_ok [OF assms, of es] retained [OF assms, of es] by blast

end

end
