(* ===== verification/LogRings.thy ===== *)
theory LogRings
  imports Logging RingLog
begin

text \<open>
  Every log function of \<open>Main.cc\<close> that wraps around in its own buffer meets the contract of
  \<open>RingLog\<close>: which slots it uses, when it starts over, and what it stores.
\<close>

section \<open>Functions that work on the thread's buffer directly\<close>

type_synonym access = "u64 \<times> u64 \<times> u64"

definition cur_buf :: "nat \<Rightarrow> process \<Rightarrow> EventBuffer" where
  "cur_buf t p = the (heap p (the (log_buffer p t)))"

definition plain_good :: "int \<Rightarrow> nat \<Rightarrow> process \<Rightarrow> bool" where
  "plain_good cap t p \<longleftrightarrow>
     (\<exists>a b. log_buffer p t = Some a \<and> heap p a = Some b \<and> 0 \<le> eb_events b \<and> eb_events b < cap)"

text \<open>One event appended, the counter starting over at \<open>cap\<close>.\<close>

definition push :: "int \<Rightarrow> u64 \<Rightarrow> EventBuffer \<Rightarrow> EventBuffer" where
  "push cap w b = b\<lparr>eb_buf := (eb_buf b)(eb_events b \<mapsto> w), eb_events := (eb_events b + 1) mod cap\<rparr>"

lemma inc_mod: "0 \<le> (n::int) \<Longrightarrow> n < cap \<Longrightarrow> (n + 1) mod cap = (if n + 1 = cap then 0 else n + 1)"
  by auto

text \<open>What a single call does, for each function, on a buffer with room.\<close>

lemmas plain_call_defs = append_event_def post_inc_events_def pre_inc_events_def set_events_def
  getLogBufferUnsafe_def getLogBuffer_def int_add_def inc_mod push_def BUF_LEN_def MAX_EVENTS_def
  BATCH_SIZE_def

lemma log_addr_call:
  "log_buffer p t = Some a \<Longrightarrow> heap p a = Some b \<Longrightarrow> 0 \<le> eb_events b \<Longrightarrow> eb_events b < 1001 \<Longrightarrow>
   tsan_write8_log_addr t pc addr val p = Inr (store_buf a (push 1001 addr b) p)"
  by (simp add: tsan_write8_log_addr_def plain_call_defs)

lemma volatile_bufptr_call:
  "log_buffer p t = Some a \<Longrightarrow> heap p a = Some b \<Longrightarrow> 0 \<le> eb_events b \<Longrightarrow> eb_events b < 1001 \<Longrightarrow>
   tsan_write8_volatile_bufptr t pc addr val p = Inr (store_buf a (push 1001 addr b) p)"
  by (simp add: tsan_write8_volatile_bufptr_def plain_call_defs)

lemma log_header_call:
  "log_buffer p t = Some a \<Longrightarrow> heap p a = Some b \<Longrightarrow> 0 \<le> eb_events b \<Longrightarrow> eb_events b < 1001 \<Longrightarrow>
   tsan_write8_log_header t pc addr val p = Inr (store_buf a (push 1001 (encode_header addr) b) p)"
  by (simp add: tsan_write8_log_header_def plain_call_defs)

lemma log_value_call:
  "log_buffer p t = Some a \<Longrightarrow> heap p a = Some b \<Longrightarrow> 0 \<le> eb_events b \<Longrightarrow> eb_events b < 1001 \<Longrightarrow>
   tsan_write8_log_value t pc addr val p
     = Inr (store_buf a (push 1001 (encode_value addr val) b) p)"
  by (simp add: tsan_write8_log_value_def plain_call_defs)

lemma log_src_loc_call:
  "log_buffer p t = Some a \<Longrightarrow> heap p a = Some b \<Longrightarrow> 0 \<le> eb_events b \<Longrightarrow> eb_events b < 1000 \<Longrightarrow>
   tsan_write8_log_src_loc t pc addr val p
     = Inr (store_buf a (push 1000 (encode_src_loc pc addr val) b) p)"
  by (simp add: tsan_write8_log_src_loc_def plain_call_defs)

lemma log_full_naive_call:
  "log_buffer p t = Some a \<Longrightarrow> heap p a = Some b \<Longrightarrow> 0 \<le> eb_events b \<Longrightarrow> eb_events b < 10000001 \<Longrightarrow>
   tsan_write8_log_full_naive t pc addr val p
     = Inr (store_buf a (push 10000001 (encode_src_loc pc addr val) b) p)"
  by (simp add: tsan_write8_log_full_naive_def plain_call_defs)

lemma global_counter_call:
  "log_buffer p t = Some a \<Longrightarrow> heap p a = Some b \<Longrightarrow> 0 \<le> eb_events b \<Longrightarrow> eb_events b < 1001 \<Longrightarrow>
   tsan_write8_global_counter t pc addr val p
     = Inr (store_buf a (push 1001 (encode_global_counter (ucast (event_id_counter p)) addr) b)
              (p\<lparr>event_id_counter := event_id_counter p + 1\<rparr>))"
  by (simp add: tsan_write8_global_counter_def plain_call_defs Let_def)

text \<open>A call of that shape is all the contract asks for.\<close>

lemma ring_log_plainI:
  assumes "0 < cap"
    and "\<And>e p a b. log_buffer p t = Some a \<Longrightarrow> heap p a = Some b \<Longrightarrow> 0 \<le> eb_events b \<Longrightarrow>
      eb_events b < cap \<Longrightarrow> log e p = Inr (store_buf a (push cap (enc e) b) p)"
  shows "ring_log log (plain_good cap t) (\<lambda>e. [enc e]) (\<lambda>p. eb_events (cur_buf t p))
    (\<lambda>p. eb_buf (cur_buf t p)) 1 cap"
proof unfold_locales
  fix p e
  assume "plain_good cap t p"
  then obtain a b where ab: "log_buffer p t = Some a" "heap p a = Some b" "0 \<le> eb_events b"
    "eb_events b < cap" by (auto simp: plain_good_def)
  with assms(1) show "\<exists>p'. log e p = Inr p' \<and> plain_good cap t p'"
    by (auto simp: assms(2) plain_good_def push_def)
next
  fix p e p'
  assume "plain_good cap t p" and call: "log e p = Inr p'"
  then obtain a b where ab: "log_buffer p t = Some a" "heap p a = Some b" "0 \<le> eb_events b"
    "eb_events b < cap" by (auto simp: plain_good_def)
  with call have "p' = store_buf a (push cap (enc e) b) p" by (simp add: assms(2))
  with ab show "eb_events (cur_buf t p') = (eb_events (cur_buf t p) + int 1) mod cap
      \<and> eb_buf (cur_buf t p') = put [enc e] (eb_events (cur_buf t p)) (eb_buf (cur_buf t p))"
    by (simp add: cur_buf_def push_def)
qed (use assms(1) in \<open>auto simp: plain_good_def cur_buf_def\<close>)

interpretation log_addr: ring_log "\<lambda>(pc, addr, val). tsan_write8_log_addr t pc addr val"
  "plain_good 1001 t" "\<lambda>e. [fst (snd e)]" "\<lambda>p. eb_events (cur_buf t p)"
  "\<lambda>p. eb_buf (cur_buf t p)" 1 1001 for t
  by (rule ring_log_plainI) (auto simp: log_addr_call)

interpretation volatile_bufptr: ring_log
  "\<lambda>(pc, addr, val). tsan_write8_volatile_bufptr t pc addr val"
  "plain_good 1001 t" "\<lambda>e. [fst (snd e)]" "\<lambda>p. eb_events (cur_buf t p)"
  "\<lambda>p. eb_buf (cur_buf t p)" 1 1001 for t
  by (rule ring_log_plainI) (auto simp: volatile_bufptr_call)

interpretation log_header: ring_log "\<lambda>(pc, addr, val). tsan_write8_log_header t pc addr val"
  "plain_good 1001 t" "\<lambda>e. [encode_header (fst (snd e))]" "\<lambda>p. eb_events (cur_buf t p)"
  "\<lambda>p. eb_buf (cur_buf t p)" 1 1001 for t
  by (rule ring_log_plainI) (auto simp: log_header_call)

interpretation log_value: ring_log "\<lambda>(pc, addr, val). tsan_write8_log_value t pc addr val"
  "plain_good 1001 t" "\<lambda>e. [encode_value (fst (snd e)) (snd (snd e))]"
  "\<lambda>p. eb_events (cur_buf t p)" "\<lambda>p. eb_buf (cur_buf t p)" 1 1001 for t
  by (rule ring_log_plainI) (auto simp: log_value_call)

interpretation log_src_loc: ring_log "\<lambda>(pc, addr, val). tsan_write8_log_src_loc t pc addr val"
  "plain_good 1000 t" "\<lambda>e. [encode_src_loc (fst e) (fst (snd e)) (snd (snd e))]"
  "\<lambda>p. eb_events (cur_buf t p)" "\<lambda>p. eb_buf (cur_buf t p)" 1 1000 for t
  by (rule ring_log_plainI) (auto simp: log_src_loc_call)

interpretation log_full_naive: ring_log
  "\<lambda>(pc, addr, val). tsan_write8_log_full_naive t pc addr val"
  "plain_good 10000001 t" "\<lambda>e. [encode_src_loc (fst e) (fst (snd e)) (snd (snd e))]"
  "\<lambda>p. eb_events (cur_buf t p)" "\<lambda>p. eb_buf (cur_buf t p)" 1 10000001 for t
  by (rule ring_log_plainI) (auto simp: log_full_naive_call)

section \<open>The caller keeps the position\<close>

definition direct_good :: "nat \<Rightarrow> nat \<Rightarrow> int \<times> process \<Rightarrow> bool" where
  "direct_good t buf s \<longleftrightarrow>
     0 \<le> fst s \<and> fst s < 1001 \<and> heap (snd s) buf \<noteq> None \<and> log_buffer (snd s) t = Some buf"

lemma log_addr_direct_call:
  "heap p buf = Some b \<Longrightarrow> 0 \<le> n \<Longrightarrow> n < 1001 \<Longrightarrow>
   tsan_write8_log_addr_direct buf pc addr val (n, p)
     = Inr ((n + 1) mod 1001, store_buf buf (b\<lparr>eb_buf := (eb_buf b)(n \<mapsto> addr)\<rparr>) p)"
  by (simp add: tsan_write8_log_addr_direct_def plain_call_defs)

interpretation log_addr_direct: ring_log
  "\<lambda>(pc, addr, val). tsan_write8_log_addr_direct buf pc addr val"
  "direct_good t buf" "\<lambda>e. [fst (snd e)]" fst "\<lambda>s. eb_buf (the (heap (snd s) buf))" 1 1001
  for t buf
  by unfold_locales (auto simp: direct_good_def log_addr_direct_call)

text \<open>
  With the global counter the stored word depends on the counter as well as on the access, so this
  function is a total log but not a ring of words computed from the accesses.
\<close>

interpretation global_counter: total_log
  "\<lambda>(pc, addr, val). tsan_write8_global_counter t pc addr val" "plain_good 1001 t" for t
  by unfold_locales (auto simp: plain_good_def global_counter_call push_def inc_mod)

section \<open>Deadlines\<close>

text \<open>
  How the counter and the deadline \<open>nextRdtscTime\<close> relate between calls: the deadline is a
  multiple of the batch size, up to \<open>lim\<close>, and the counter has not passed it (functions that test
  the old counter) or not reached it (functions that test the incremented one).
\<close>

definition post_aligned :: "int \<Rightarrow> int \<Rightarrow> int \<Rightarrow> bool" where
  "post_aligned lim n d \<longleftrightarrow> 0 \<le> n \<and> n \<le> d \<and> 64 dvd d \<and> 64 \<le> d \<and> d \<le> lim"

definition pre_aligned :: "int \<Rightarrow> int \<Rightarrow> int \<Rightarrow> bool" where
  "pre_aligned lim n d \<longleftrightarrow> 0 \<le> n \<and> n < d \<and> 64 dvd d \<and> 64 \<le> d \<and> d \<le> lim"

lemma deadline_step:
  "64 dvd (d::int) \<Longrightarrow> d < 10000000 \<Longrightarrow> d + 64 \<le> 10000000"
  "64 dvd (d::int) \<Longrightarrow> d + 1 < 1000 \<Longrightarrow> d + 64 \<le> 1024"
  "64 dvd (d::int) \<Longrightarrow> d \<le> 1024 \<Longrightarrow> 1000 \<le> d + 1 \<Longrightarrow> d = 1024"
  "64 dvd (d::int) \<Longrightarrow> d \<le> 10000000 \<Longrightarrow> 10000000 \<le> d + 1 \<Longrightarrow> d = 10000000"
  by presburger+

definition prefetch_good :: "nat \<Rightarrow> process \<Rightarrow> bool" where
  "prefetch_good t p \<longleftrightarrow>
     (\<exists>a b. log_buffer p t = Some a \<and> heap p a = Some b
        \<and> post_aligned 10000000 (eb_events b) (eb_nextRdtscTime b))"

text \<open>
  After the first wrap-around the deadline starts at two batches, because it is reset and then
  advanced.
\<close>

lemma prefetch_log_entries_call:
  assumes "log_buffer p t = Some a" and "heap p a = Some b"
    and "post_aligned 10000000 (eb_events b) (eb_nextRdtscTime b)"
  shows "tsan_write8_prefetch_log_entries t pc addr val p = Inr (store_buf a
     (b\<lparr>eb_buf := (eb_buf b)(eb_events b \<mapsto> addr), eb_events := (eb_events b + 1) mod 10000001,
        eb_nextRdtscTime := (if eb_events b < eb_nextRdtscTime b then eb_nextRdtscTime b
          else if eb_events b = 10000000 then 128 else eb_nextRdtscTime b + 64)\<rparr>) p)"
  using assms deadline_step(4) [of "eb_nextRdtscTime b"]
  by (auto simp: tsan_write8_prefetch_log_entries_def append_event_def post_inc_events_def
      getLogBufferUnsafe_def int_add_def post_aligned_def size_defs Let_def inc_mod)

interpretation prefetch: ring_log
  "\<lambda>(pc, addr, val). tsan_write8_prefetch_log_entries t pc addr val"
  "prefetch_good t" "\<lambda>e. [fst (snd e)]" "\<lambda>p. eb_events (cur_buf t p)"
  "\<lambda>p. eb_buf (cur_buf t p)" 1 10000001 for t
proof unfold_locales
  fix p :: process and e :: access
  assume "prefetch_good t p"
  then obtain a b where "log_buffer p t = Some a" "heap p a = Some b"
    "post_aligned 10000000 (eb_events b) (eb_nextRdtscTime b)" by (auto simp: prefetch_good_def)
  then show "\<exists>p'. (case e of (pc, addr, val) \<Rightarrow> tsan_write8_prefetch_log_entries t pc addr val) p
      = Inr p' \<and> prefetch_good t p'"
    by (cases e) (auto simp: prefetch_log_entries_call prefetch_good_def post_aligned_def inc_mod
        deadline_step)
next
  fix p p' :: process and e :: access
  assume "prefetch_good t p"
    and "(case e of (pc, addr, val) \<Rightarrow> tsan_write8_prefetch_log_entries t pc addr val) p = Inr p'"
  moreover from this obtain a b where "log_buffer p t = Some a" "heap p a = Some b"
    "post_aligned 10000000 (eb_events b) (eb_nextRdtscTime b)" by (auto simp: prefetch_good_def)
  ultimately show "eb_events (cur_buf t p') = (eb_events (cur_buf t p) + int 1) mod 10000001
      \<and> eb_buf (cur_buf t p') = put [fst (snd e)] (eb_events (cur_buf t p)) (eb_buf (cur_buf t p))"
    by (cases e) (auto simp: prefetch_log_entries_call cur_buf_def)
qed (auto simp: prefetch_good_def post_aligned_def cur_buf_def)

section \<open>Functions that work on a cached reference\<close>

definition ref_good :: "(int \<Rightarrow> int \<Rightarrow> bool) \<Rightarrow> nat \<Rightarrow> ref_state \<Rightarrow> bool" where
  "ref_good al t = (\<lambda>(ref, p).
     log_buffer p t = Some (ref_logBuf ref) \<and> ref_buf ref = ref_logBuf ref
     \<and> heap p (ref_logBuf ref) \<noteq> None \<and> al (ref_events ref) (ref_nextRdtscTime ref))"

definition ref_slots :: "ref_state \<Rightarrow> int \<Rightarrow> u64 option" where
  "ref_slots = (\<lambda>(ref, p). eb_buf (the (heap p (ref_buf ref))))"

definition ref_position :: "ref_state \<Rightarrow> int" where
  "ref_position = (\<lambda>(ref, p). ref_events ref)"

lemma ring_log_refI:
  assumes "0 < width" and "0 < cap" and "int width dvd cap" and "\<And>e. length (words e) = width"
    and "\<And>n d. al n d \<Longrightarrow> 0 \<le> n \<and> n < cap \<and> int width dvd n"
    and "\<And>e ref p b. ref_good al t (ref, p) \<Longrightarrow> heap p (ref_buf ref) = Some b \<Longrightarrow>
      log e (ref, p) = Inr
        (ref\<lparr>ref_events := (ref_events ref + int width) mod cap, ref_nextRdtscTime := nxt ref\<rparr>,
         store_buf (ref_buf ref) (b\<lparr>eb_buf := put (words e) (ref_events ref) (eb_buf b)\<rparr>) p)"
    and "\<And>ref p. ref_good al t (ref, p) \<Longrightarrow> al ((ref_events ref + int width) mod cap) (nxt ref)"
  shows "ring_log log (ref_good al t) words ref_position ref_slots width cap"
proof unfold_locales
  fix s e
  assume good: "ref_good al t s"
  obtain ref p where s: "s = (ref, p)" by (cases s)
  with good obtain b where "heap p (ref_buf ref) = Some b" "ref_buf ref = ref_logBuf ref"
    "log_buffer p t = Some (ref_logBuf ref)" by (auto simp: ref_good_def)
  with assms(6) [of ref p b e] assms(7) [of ref p] good s
  show "\<exists>s'. log e s = Inr s' \<and> ref_good al t s'" by (auto simp: ref_good_def)
next
  fix s e s'
  assume good: "ref_good al t s" and call: "log e s = Inr s'"
  obtain ref p where s: "s = (ref, p)" by (cases s)
  with good obtain b where "heap p (ref_buf ref) = Some b" by (auto simp: ref_good_def)
  with assms(6) [of ref p b e] good s call
  show "ref_position s' = (ref_position s + int width) mod cap
      \<and> ref_slots s' = put (words e) (ref_position s) (ref_slots s)"
    by (auto simp: ref_position_def ref_slots_def)
next
  fix s
  assume "ref_good al t s"
  with assms(5) show "0 \<le> ref_position s \<and> ref_position s < cap \<and> int width dvd ref_position s"
    by (auto simp: ref_good_def ref_position_def split: prod.splits)
qed (use assms(1-4) in auto)

lemmas ref_call_defs = ref_good_def getLogBuffer_def int_add_def size_defs Let_def inc_mod

text \<open>The deadline after a call.\<close>

definition next_post :: "int \<Rightarrow> Ref \<Rightarrow> int" where
  "next_post lim ref = (if ref_events ref < ref_nextRdtscTime ref then ref_nextRdtscTime ref
     else if ref_events ref = lim then 64 else ref_nextRdtscTime ref + 64)"

definition next_pre :: "int \<Rightarrow> int \<Rightarrow> Ref \<Rightarrow> int" where
  "next_pre width lim ref = (if ref_events ref + width < ref_nextRdtscTime ref then ref_nextRdtscTime ref
     else if ref_events ref + width = lim then 64 else ref_nextRdtscTime ref + 64)"

lemma cached_bufptr_call:
  assumes "ref_good (post_aligned 1024) t (ref, p)" and "heap p (ref_buf ref) = Some b"
  shows "tsan_write8_cached_bufptr this t pc addr val (ref, p)
    = Inr (ref\<lparr>ref_events := (ref_events ref + 1) mod 1025, ref_nextRdtscTime := next_post 1024 ref\<rparr>,
      store_buf (ref_buf ref) (b\<lparr>eb_buf := put [addr] (ref_events ref) (eb_buf b)\<rparr>) p)"
  using assms by (auto simp: tsan_write8_cached_bufptr_def tsan_write8_cached_bufptr_slow_def next_post_def
      ref_call_defs post_aligned_def dest: deadline_step(3))

lemma log_full_call:
  assumes "ref_good (pre_aligned 10000000) t (ref, p)" and "heap p (ref_buf ref) = Some b"
  shows "tsan_write8_log_full this t pc addr val (ref, p)
    = Inr (ref\<lparr>ref_events := (ref_events ref + 1) mod 10000000, ref_nextRdtscTime := next_pre 1 10000000 ref\<rparr>,
      store_buf (ref_buf ref)
        (b\<lparr>eb_buf := put [encode_src_loc pc addr val] (ref_events ref) (eb_buf b)\<rparr>) p)"
  using assms by (auto simp: tsan_write8_log_full_def tsan_write8_log_full_slow_def next_pre_def
      ref_call_defs pre_aligned_def)

interpretation cached_bufptr: ring_log
  "\<lambda>(pc, addr, val). tsan_write8_cached_bufptr this t pc addr val"
  "ref_good (post_aligned 1024) t" "\<lambda>e. [fst (snd e)]" ref_position ref_slots 1 1025 for this t
  by (rule ring_log_refI [where nxt = "next_post 1024"])
    (auto simp: cached_bufptr_call ref_good_def post_aligned_def next_post_def inc_mod deadline_step
      dest: deadline_step)

interpretation log_full: ring_log
  "\<lambda>(pc, addr, val). tsan_write8_log_full this t pc addr val"
  "ref_good (pre_aligned 10000000) t" "\<lambda>e. [encode_src_loc (fst e) (fst (snd e)) (snd (snd e))]"
  ref_position ref_slots 1 10000000 for this t
  by (rule ring_log_refI [where nxt = "next_pre 1 10000000"])
    (auto simp: log_full_call ref_good_def pre_aligned_def next_pre_def inc_mod deadline_step
      dest: deadline_step)

text \<open>128-bit events take two slots, so the counter stays even.\<close>

definition pair_aligned :: "int \<Rightarrow> int \<Rightarrow> bool" where
  "pair_aligned n d \<longleftrightarrow> pre_aligned 10000000 n d \<and> even n"

lemma pair_step: "64 dvd (d::int) \<Longrightarrow> even n \<Longrightarrow> n < d \<Longrightarrow> n + 2 \<le> d"
  by presburger

lemma inc2_mod:
  "0 \<le> (n::int) \<Longrightarrow> n + 2 \<le> cap \<Longrightarrow> (n + 2) mod cap = (if n + 2 = cap then 0 else n + 2)"
  by auto

lemma pair_room: "ref_good pair_aligned t (ref, p) \<Longrightarrow> ref_events ref + 2 \<le> ref_nextRdtscTime ref"
  by (auto simp: ref_good_def pair_aligned_def pre_aligned_def intro: pair_step)

lemma log_full_128_call:
  assumes "ref_good pair_aligned t (ref, p)" and "heap p (ref_buf ref) = Some b"
  shows "tsan_write8_log_full_128 this t pc addr val (ref, p)
    = Inr (ref\<lparr>ref_events := (ref_events ref + 2) mod 10000000, ref_nextRdtscTime := next_pre 2 10000000 ref\<rparr>,
      store_buf (ref_buf ref)
        (b\<lparr>eb_buf := put [encode_full_128 pc val, addr] (ref_events ref) (eb_buf b)\<rparr>) p)"
  using assms pair_room [OF assms(1)]
  by (auto simp: tsan_write8_log_full_128_def tsan_write8_log_full_slow_def next_pre_def
      ref_call_defs inc2_mod pair_aligned_def pre_aligned_def)

interpretation log_full_128: ring_log
  "\<lambda>(pc, addr, val). tsan_write8_log_full_128 this t pc addr val"
  "ref_good pair_aligned t" "\<lambda>e. [encode_full_128 (fst e) (snd (snd e)), fst (snd e)]"
  ref_position ref_slots 2 10000000 for this t
proof (rule ring_log_refI [where nxt = "next_pre 2 10000000"])
  fix ref p
  assume good: "ref_good pair_aligned t (ref, p)"
  with pair_room [OF good]
  show "pair_aligned ((ref_events ref + int 2) mod 10000000) (next_pre 2 10000000 ref)"
    by (auto simp: ref_good_def pair_aligned_def pre_aligned_def next_pre_def inc2_mod deadline_step)
qed (auto simp: log_full_128_call pair_aligned_def pre_aligned_def)

section \<open>What the buffers hold\<close>

text \<open>
  With \<open>LOG_ADDR\<close> a buffer takes 1001 addresses before the counter starts over (one more than
  the 1000 of \<open>BUFFER_SIZE\<close>, because the old counter is compared); after any number of calls the
  last 1001 addresses are in the buffer, each in the slot given by its number.
\<close>

theorem log_addr_ring:
  assumes "plain_good 1001 t p"
  shows "\<exists>p'. log_all (\<lambda>(pc, addr, val). tsan_write8_log_addr t pc addr val) es p = Inr p'
    \<and> eb_events (cur_buf t p') = (eb_events (cur_buf t p) + int (length es)) mod 1001
    \<and> (\<forall>j < length es. length es - j \<le> 1001 \<longrightarrow>
         eb_buf (cur_buf t p') ((eb_events (cur_buf t p) + int j) mod 1001) = Some (fst (snd (es ! j))))"
  using log_addr.ring [OF assms, of es] by auto

text \<open>A thread with a fresh buffer of its own, as the benchmark's threads start.\<close>

definition one_buffer :: process where
  "one_buffer = init_process\<lparr>heap := (\<lambda>_. None)(0 \<mapsto> new_EventBuffer), next_addr := 1,
     log_buffer := (\<lambda>_. None)(0 \<mapsto> 0)\<rparr>"

definition one_ref :: Ref where
  "one_ref = \<lparr>ref_logBuf = 0, ref_buf = 0, ref_events = 0, ref_nextRdtscTime = 64\<rparr>"

lemma one_buffer_simps [simp]:
  "log_buffer one_buffer 0 = Some 0" "heap one_buffer 0 = Some new_EventBuffer"
  "cur_buf 0 one_buffer = new_EventBuffer"
  by (simp_all add: one_buffer_def cur_buf_def)

lemma one_buffer_good:
  "0 < cap \<Longrightarrow> plain_good cap 0 one_buffer" "al 0 64 \<Longrightarrow> ref_good al 0 (one_ref, one_buffer)"
  by (simp_all add: plain_good_def ref_good_def one_ref_def)

theorem log_addr_ring_witness:
  "\<exists>p'. log_all (\<lambda>(pc, addr, val). tsan_write8_log_addr 0 pc addr val) [(1, 2, 3), (4, 5, 6)] one_buffer
     = Inr p' \<and> eb_events (cur_buf 0 p') = 2 \<and> eb_buf (cur_buf 0 p') 1 = Some 5"
  using log_addr_ring [OF one_buffer_good(1), of "[(1, 2, 3), (4, 5, 6)]"]
  by (auto simp del: log_all.simps)

text \<open>
  With \<open>CACHED_BUF_PTR\<close> the counter starts over after 1025 events, since it is only compared
  with the buffer size once per batch; the last 1025 addresses are in the buffer.
\<close>

theorem cached_bufptr_ring:
  assumes "ref_good (post_aligned 1024) t (ref, p)"
  shows "\<exists>ref' p'. log_all (\<lambda>(pc, addr, val). tsan_write8_cached_bufptr this t pc addr val) es (ref, p)
      = Inr (ref', p')
    \<and> ref_events ref' = (ref_events ref + int (length es)) mod 1025
    \<and> (\<forall>j < length es. length es - j \<le> 1025 \<longrightarrow>
         ref_slots (ref', p') ((ref_events ref + int j) mod 1025) = Some (fst (snd (es ! j))))"
  using cached_bufptr.ring [OF assms, of this es] by (auto simp: ref_position_def)

theorem cached_bufptr_ring_witness:
  "\<exists>ref' p'. log_all (\<lambda>(pc, addr, val). tsan_write8_cached_bufptr 0 0 pc addr val) [(1, 2, 3)]
     (one_ref, one_buffer) = Inr (ref', p') \<and> ref_events ref' = 1 \<and> ref_slots (ref', p') 0 = Some 2"
  using cached_bufptr_ring [OF one_buffer_good(2), of 0 "[(1, 2, 3)]"]
  by (auto simp: post_aligned_def one_ref_def simp del: log_all.simps)

text \<open>
  \<open>LOG_FULL\<close> uses exactly the 10 million slots of a buffer and keeps the last 10 million events,
  encoded with location, value and address.
\<close>

theorem log_full_ring:
  assumes "ref_good (pre_aligned 10000000) t (ref, p)"
  shows "\<exists>ref' p'. log_all (\<lambda>(pc, addr, val). tsan_write8_log_full this t pc addr val) es (ref, p)
      = Inr (ref', p')
    \<and> ref_events ref' = (ref_events ref + int (length es)) mod 10000000
    \<and> (\<forall>j < length es. length es - j \<le> 10000000 \<longrightarrow>
         ref_slots (ref', p') ((ref_events ref + int j) mod 10000000)
           = Some (case es ! j of (pc, addr, val) \<Rightarrow> encode_src_loc pc addr val))"
  using log_full.ring [OF assms, of this es] by (auto simp: ref_position_def case_prod_beta)

theorem log_full_ring_witness:
  "\<exists>ref' p'. log_all (\<lambda>(pc, addr, val). tsan_write8_log_full 0 0 pc addr val) [(1, 2, 3)]
     (one_ref, one_buffer) = Inr (ref', p') \<and> ref_events ref' = 1
     \<and> ref_slots (ref', p') 0 = Some (encode_src_loc 1 2 3)"
  using log_full_ring [OF one_buffer_good(2), of 0 "[(1, 2, 3)]"]
  by (auto simp: pre_aligned_def one_ref_def simp del: log_all.simps)

text \<open>
  C28: \<open>LOG_FULL_128\<close> stores each event in two neighbouring slots, never splits one over the end of
  the buffer, and keeps the last 5 million events: decoding the two slots gives the access back.
\<close>

theorem log_full_128_ring:
  assumes "ref_good pair_aligned t (ref, p)"
  shows "\<exists>ref' p'. log_all (\<lambda>(pc, addr, val). tsan_write8_log_full_128 this t pc addr val) es (ref, p)
      = Inr (ref', p')
    \<and> ref_events ref' = (ref_events ref + 2 * int (length es)) mod 10000000
    \<and> (\<forall>j < length es. length es - j \<le> 5000000 \<longrightarrow> (\<exists>w0 w1.
         ref_slots (ref', p') ((ref_events ref + 2 * int j) mod 10000000) = Some w0
         \<and> ref_slots (ref', p') ((ref_events ref + 2 * int j) mod 10000000 + 1) = Some w1
         \<and> decode_full_128 (w0, w1)
             = (case es ! j of (pc, addr, val) \<Rightarrow> (take_bit 20 pc, ucast val, addr))))"
proof -
  from log_full_128.ring [OF assms, of this es] obtain ref' p' where r:
    "log_all (\<lambda>(pc, addr, val). tsan_write8_log_full_128 this t pc addr val) es (ref, p) = Inr (ref', p')"
    "ref_events ref' = (ref_events ref + 2 * int (length es)) mod 10000000"
    and slots: "\<And>j k. j < length es \<Longrightarrow> 2 * int (length es - j) \<le> 10000000 \<Longrightarrow> k < 2 \<Longrightarrow>
      ref_slots (ref', p') ((ref_events ref + 2 * int j) mod 10000000 + int k)
      = Some ([encode_full_128 (fst (es ! j)) (snd (snd (es ! j))), fst (snd (es ! j))] ! k)"
    by (auto simp: ref_position_def)
  have "\<exists>w0 w1. ref_slots (ref', p') ((ref_events ref + 2 * int j) mod 10000000) = Some w0
         \<and> ref_slots (ref', p') ((ref_events ref + 2 * int j) mod 10000000 + 1) = Some w1
         \<and> decode_full_128 (w0, w1)
             = (case es ! j of (pc, addr, val) \<Rightarrow> (take_bit 20 pc, ucast val, addr))"
    if "j < length es" "length es - j \<le> 5000000" for j
    using slots [of j 0] slots [of j 1] that
    by (cases "es ! j") (simp add: full_128_decode)
  with r show ?thesis by blast
qed

theorem log_full_128_ring_witness:
  "\<exists>ref' p'. log_all (\<lambda>(pc, addr, val). tsan_write8_log_full_128 0 0 pc addr val) [(1, 2, 3)]
     (one_ref, one_buffer) = Inr (ref', p') \<and> ref_events ref' = 2"
  using log_full_128_ring [OF one_buffer_good(2), of 0 "[(1, 2, 3)]"]
  by (auto simp: pair_aligned_def pre_aligned_def one_ref_def simp del: log_all.simps)

end
