(* ===== verification/Loops.thy ===== *)
theory Loops
  imports LogRings
begin

text \<open>
  \<open>Main.cc\<close> from the benchmark loops to \<open>main\<close>: the array the benchmark writes, one
  \<open>run_\<close> function per log operation, the dispatch \<open>run\<close>, the thread body \<open>workerMain\<close> and
  the set-up in \<open>main\<close>.
\<close>

section \<open>The array\<close>

text \<open>
  \<open>int64_t array[]\<close>: its address and its elements. A pointer into it is the index \<open>off\<close> of the
  element it points to.
\<close>

record int64_array =
  arr_base :: u64
  arr_elems :: "u64 list"

definition elem_addr :: "int64_array \<Rightarrow> nat \<Rightarrow> u64" where
  "elem_addr arr k = arr_base arr + 8 * of_nat k"

definition store_elem :: "nat \<Rightarrow> u64 \<Rightarrow> int64_array \<Rightarrow> int64_array result" where
  "store_elem k v arr =
     (if k < length (arr_elems arr) then Inr (arr\<lparr>arr_elems := (arr_elems arr)[k := v]\<rparr>)
      else Inl OutOfBounds)"

section \<open>The loops\<close>

definition run_noop :: "nat \<Rightarrow> int \<Rightarrow> int64_array \<Rightarrow> int64_array result" where
  "run_noop off len arr =
     for_loop (\<lambda>i. store_elem (off + i) (of_nat i)) 0 (nat len) arr"

definition run_no_sse :: "nat \<Rightarrow> int \<Rightarrow> int64_array \<Rightarrow> int64_array result" where
  "run_no_sse off len arr =
     for_loop (\<lambda>i. store_elem (off + i) (of_nat i)) 0 (nat len) arr"

text \<open>
  The loop that all instrumented \<open>run_\<close> functions share: log the store that is about to happen
  (\<open>line\<close> is the source line of the call, passed as the program counter), then store.
\<close>

definition logged_store ::
  "(access \<Rightarrow> 's \<Rightarrow> 's result) \<Rightarrow> u64 \<Rightarrow> nat \<Rightarrow> nat \<Rightarrow> int64_array \<times> 's
     \<Rightarrow> (int64_array \<times> 's) result" where
  "logged_store log line off i = (\<lambda>(arr, s).
     and_then (log (line, elem_addr arr (off + i), of_nat i) s) (\<lambda>s1.
     and_then (store_elem (off + i) (of_nat i) arr) (\<lambda>arr1. Inr (arr1, s1))))"

definition logged_loop ::
  "(access \<Rightarrow> 's \<Rightarrow> 's result) \<Rightarrow> u64 \<Rightarrow> nat \<Rightarrow> int \<Rightarrow> int64_array \<times> 's
     \<Rightarrow> (int64_array \<times> 's) result" where
  "logged_loop log line off len = for_loop (logged_store log line off) 0 (nat len)"

type_synonym run_state = "int64_array \<times> process"

definition run_func :: "nat \<Rightarrow> int \<Rightarrow> run_state \<Rightarrow> run_state result" where
  "run_func = logged_loop (\<lambda>(pc, addr, val). tsan_write8_func pc addr val) 158"

definition run_log_addr :: "nat \<Rightarrow> nat \<Rightarrow> int \<Rightarrow> run_state \<Rightarrow> run_state result" where
  "run_log_addr t = logged_loop (\<lambda>(pc, addr, val). tsan_write8_log_addr t pc addr val) 202"

definition run_log_addr_direct :: "nat \<Rightarrow> nat \<Rightarrow> int \<Rightarrow> run_state \<Rightarrow> run_state result" where
  "run_log_addr_direct t off len = (\<lambda>(arr, p).
     and_then (not_null (getLogBuffer t p)) (\<lambda>a.
     and_then (load_buf a p) (\<lambda>b.
     and_then (logged_loop (\<lambda>(pc, addr, val). tsan_write8_log_addr_direct a pc addr val) 232
                 off len (arr, (eb_events b, p))) (\<lambda>(arr1, (events, p1)).
     and_then (not_null (getLogBuffer t p1)) (\<lambda>a1.
     and_then (set_events a1 events p1) (\<lambda>p2. Inr (arr1, p2)))))))"

definition run_prefetch_log_entries :: "nat \<Rightarrow> nat \<Rightarrow> int \<Rightarrow> run_state \<Rightarrow> run_state result" where
  "run_prefetch_log_entries t =
     logged_loop (\<lambda>(pc, addr, val). tsan_write8_prefetch_log_entries t pc addr val) 292"

definition run_volatile_buffer_ptr :: "nat \<Rightarrow> nat \<Rightarrow> int \<Rightarrow> run_state \<Rightarrow> run_state result" where
  "run_volatile_buffer_ptr t =
     logged_loop (\<lambda>(pc, addr, val). tsan_write8_volatile_bufptr t pc addr val) 318"

text \<open>
  The loops that hold an \<open>EventBuffer::Ref\<close>: taken before the first iteration, destroyed at the
  end of the function.
\<close>

definition with_Ref ::
  "nat \<Rightarrow> nat \<Rightarrow> (int64_array \<times> ref_state \<Rightarrow> (int64_array \<times> ref_state) result) \<Rightarrow> run_state
     \<Rightarrow> run_state result" where
  "with_Ref this t body = (\<lambda>(arr, p).
     and_then (getLogBufferRef this t p) (\<lambda>(bufRef, p1).
     and_then (body (arr, (bufRef, p1))) (\<lambda>(arr1, (bufRef1, p2)).
     and_then (destroy_Ref bufRef1 p2) (\<lambda>p3. Inr (arr1, p3)))))"

definition run_cached_buffer_ptr :: "nat \<Rightarrow> nat \<Rightarrow> nat \<Rightarrow> int \<Rightarrow> run_state \<Rightarrow> run_state result" where
  "run_cached_buffer_ptr this t off len = with_Ref this t
     (logged_loop (\<lambda>(pc, addr, val). tsan_write8_cached_bufptr this t pc addr val) 367 off len)"

definition run_log_header :: "nat \<Rightarrow> nat \<Rightarrow> int \<Rightarrow> run_state \<Rightarrow> run_state result" where
  "run_log_header t = logged_loop (\<lambda>(pc, addr, val). tsan_write8_log_header t pc addr val) 394"

definition run_log_value :: "nat \<Rightarrow> nat \<Rightarrow> int \<Rightarrow> run_state \<Rightarrow> run_state result" where
  "run_log_value t = logged_loop (\<lambda>(pc, addr, val). tsan_write8_log_value t pc addr val) 420"

definition run_log_src_loc :: "nat \<Rightarrow> nat \<Rightarrow> int \<Rightarrow> run_state \<Rightarrow> run_state result" where
  "run_log_src_loc t = logged_loop (\<lambda>(pc, addr, val). tsan_write8_log_src_loc t pc addr val) 449"

definition run_log_full :: "nat \<Rightarrow> nat \<Rightarrow> nat \<Rightarrow> int \<Rightarrow> run_state \<Rightarrow> run_state result" where
  "run_log_full this t off len = with_Ref this t
     (logged_loop (\<lambda>(pc, addr, val). tsan_write8_log_full this t pc addr val) 502 off len)"

definition run_log_full_128 :: "nat \<Rightarrow> nat \<Rightarrow> nat \<Rightarrow> int \<Rightarrow> run_state \<Rightarrow> run_state result" where
  "run_log_full_128 this t off len = with_Ref this t
     (logged_loop (\<lambda>(pc, addr, val). tsan_write8_log_full_128 this t pc addr val) 533 off len)"

definition run_log_full_naive :: "nat \<Rightarrow> nat \<Rightarrow> int \<Rightarrow> run_state \<Rightarrow> run_state result" where
  "run_log_full_naive t =
     logged_loop (\<lambda>(pc, addr, val). tsan_write8_log_full_naive t pc addr val) 557"

definition run_buf_manager :: "nat \<Rightarrow> nat \<Rightarrow> nat \<Rightarrow> int \<Rightarrow> run_state \<Rightarrow> run_state result" where
  "run_buf_manager this t off len = with_Ref this t
     (logged_loop (\<lambda>(pc, addr, val). tsan_write8_buf_manager this t pc addr val) 613 off len)"

definition run_global_counter :: "nat \<Rightarrow> nat \<Rightarrow> int \<Rightarrow> run_state \<Rightarrow> run_state result" where
  "run_global_counter t =
     logged_loop (\<lambda>(pc, addr, val). tsan_write8_global_counter t pc addr val) 642"

section \<open>Dispatch and thread body\<close>

definition lift_array :: "(int64_array \<Rightarrow> int64_array result) \<Rightarrow> run_state \<Rightarrow> run_state result" where
  "lift_array f = (\<lambda>(arr, p). and_then (f arr) (\<lambda>arr1. Inr (arr1, p)))"

text \<open>An operation without a case only prints a message.\<close>

definition run :: "nat \<Rightarrow> nat \<Rightarrow> LogOp \<Rightarrow> nat \<Rightarrow> int \<Rightarrow> run_state \<Rightarrow> run_state result" where
  "run this t logOp off len st =
     (case logOp of
        NO_OP \<Rightarrow> lift_array (run_noop off len) st
      | NO_SSE \<Rightarrow> lift_array (run_no_sse off len) st
      | FUNC_CALL \<Rightarrow> run_func off len st
      | LOG_ADDR \<Rightarrow> run_log_addr t off len st
      | PREFETCH_LOG_ENTRY \<Rightarrow> run_prefetch_log_entries t off len st
      | LOG_DIRECT_LOAD \<Rightarrow> run_log_addr_direct t off len st
      | VOLATILE_BUF_PTR \<Rightarrow> run_volatile_buffer_ptr t off len st
      | CACHED_BUF_PTR \<Rightarrow> run_cached_buffer_ptr this t off len st
      | LOG_HEADER \<Rightarrow> run_log_header t off len st
      | LOG_VALUE \<Rightarrow> run_log_value t off len st
      | LOG_SRC_LOC \<Rightarrow> run_log_src_loc t off len st
      | LOG_FULL \<Rightarrow> run_log_full this t off len st
      | LOG_FULL_128 \<Rightarrow> run_log_full_128 this t off len st
      | LOG_FULL_NAIVE \<Rightarrow> run_log_full_naive t off len st
      | GLOBAL_COUNTER \<Rightarrow> run_global_counter t off len st
      | BUFFER_MANAGER \<Rightarrow> run_buf_manager this t off len st
      | _ \<Rightarrow> Inr st)"

text \<open>\<open>__log_buffer = new EventBuffer()\<close>, for the operations that do without the manager.\<close>

definition own_buffer :: "nat \<Rightarrow> process \<Rightarrow> process" where
  "own_buffer t p = p\<lparr>
     heap := (heap p)(next_addr p \<mapsto> new_EventBuffer),
     next_addr := Suc (next_addr p),
     log_buffer := (log_buffer p)(t \<mapsto> next_addr p)\<rparr>"

text \<open>\<open>numIterations\<close> is a global variable that the program never changes from 1000.\<close>

definition numIterations :: nat where "numIterations = 1000"

definition workerMain ::
  "nat \<Rightarrow> nat \<Rightarrow> nat \<Rightarrow> LogOp \<Rightarrow> nat \<Rightarrow> int \<Rightarrow> run_state \<Rightarrow> run_state result" where
  "workerMain iterations this t logOp off len = (\<lambda>(arr, p).
     let p1 = (if logOp < BUFFER_MANAGER then own_buffer t p else p)
     in for_loop (\<lambda>_. run this t logOp off len) 0 iterations (arr, p1))"

section \<open>What the loops do to the array\<close>

text \<open>The array after a complete pass over the slice of \<open>n\<close> elements at \<open>off\<close>.\<close>

definition filled :: "nat \<Rightarrow> nat \<Rightarrow> int64_array \<Rightarrow> int64_array" where
  "filled off n arr = arr\<lparr>arr_elems :=
     take off (arr_elems arr) @ map of_nat [0..<n] @ drop (off + n) (arr_elems arr)\<rparr>"

lemma filled_0 [simp]: "filled off 0 arr = arr"
  by (simp add: filled_def)

lemma arr_base_filled [simp]: "arr_base (filled off n arr) = arr_base arr"
  by (simp add: filled_def)

lemma length_filled [simp]:
  "off + n \<le> length (arr_elems arr) \<Longrightarrow> length (arr_elems (filled off n arr)) = length (arr_elems arr)"
  by (simp add: filled_def)

lemma filled_Suc:
  assumes "off + Suc n \<le> length (arr_elems arr)"
  shows "store_elem (off + n) (of_nat n) (filled off n arr) = Inr (filled off (Suc n) arr)"
proof -
  let ?xs = "arr_elems arr"
  from assms have "drop (off + n) ?xs = ?xs ! (off + n) # drop (off + Suc n) ?xs"
    by (simp add: Cons_nth_drop_Suc)
  then have "(arr_elems (filled off n arr))[off + n := of_nat n] = arr_elems (filled off (Suc n) arr)"
    using assms by (simp add: filled_def list_update_append)
  with assms show ?thesis
    by (simp add: store_elem_def filled_def)
qed

lemma filled_twice:
  assumes "off + n \<le> length (arr_elems arr)"
  shows "filled off n (filled off n arr) = filled off n arr"
  using assms by (simp add: filled_def)

lemma run_noop_filled:
  assumes "off + nat len \<le> length (arr_elems arr)"
  shows "run_noop off len arr = Inr (filled off (nat len) arr)"
proof -
  have "\<exists>arr'. for_loop (\<lambda>i. store_elem (off + i) (of_nat i)) 0 (nat len) arr = Inr arr'
      \<and> arr' = filled off (nat len) arr"
    by (rule for_loop_invariant [where P = "\<lambda>k a. a = filled off k arr"])
      (use assms in \<open>auto simp: filled_Suc\<close>)
  then show ?thesis by (simp add: run_noop_def)
qed

text \<open>
  A loop over a total log function does to the array what the uninstrumented loop does, and to the
  log what logging its accesses in order does.
\<close>

definition accesses :: "u64 \<Rightarrow> int64_array \<Rightarrow> nat \<Rightarrow> nat \<Rightarrow> access list" where
  "accesses line arr off n = map (\<lambda>i. (line, elem_addr arr (off + i), of_nat i)) [0..<n]"

lemma accesses_Suc:
  "accesses line arr off (Suc n) = accesses line arr off n @ [(line, elem_addr arr (off + n), of_nat n)]"
  by (simp add: accesses_def)

lemma logged_loop_ok:
  assumes "total_log log good" and "good s" and "off + nat len \<le> length (arr_elems arr)"
  shows "\<exists>s'. logged_loop log line off len (arr, s) = Inr (filled off (nat len) arr, s') \<and> good s'
    \<and> log_all log (accesses line arr off (nat len)) s = Inr s'"
proof -
  let ?P = "\<lambda>k st. fst st = filled off k arr \<and> good (snd st)
    \<and> log_all log (accesses line arr off k) s = Inr (snd st)"
  have "\<exists>st. for_loop (logged_store log line off) 0 (nat len) (arr, s) = Inr st \<and> ?P (nat len) st"
  proof (rule for_loop_invariant [where P = ?P])
    show "?P 0 (arr, s)" using assms(2) by (simp add: accesses_def)
  next
    fix k st
    assume k: "k < nat len" and st: "?P k st"
    obtain s1 where s1: "log (line, elem_addr arr (off + k), of_nat k) (snd st) = Inr s1" "good s1"
      using total_log.log_total [OF assms(1)] st by blast
    moreover have "elem_addr (filled off k arr) (off + k) = elem_addr arr (off + k)"
      by (simp add: elem_addr_def)
    moreover have "store_elem (off + k) (of_nat k) (filled off k arr) = Inr (filled off (Suc k) arr)"
      using k assms(3) by (simp add: filled_Suc)
    ultimately show "\<exists>st'. logged_store log line off (0 + k) st = Inr st' \<and> ?P (Suc k) st'"
      using st by (cases st) (auto simp: logged_store_def accesses_Suc log_all_snoc)
  qed
  then show ?thesis by (auto simp: logged_loop_def)
qed

definition buf_good :: "(int \<Rightarrow> int \<Rightarrow> bool) \<Rightarrow> nat \<Rightarrow> process \<Rightarrow> bool" where
  "buf_good al t p \<longleftrightarrow> (\<exists>a b. log_buffer p t = Some a \<and> heap p a = Some b
     \<and> al (eb_events b) (eb_nextRdtscTime b))"

lemma with_Ref_ok:
  assumes "total_log log (ref_good al t)" and "buf_good al t p"
    and "off + nat len \<le> length (arr_elems arr)"
  shows "\<exists>p'. with_Ref this t (logged_loop log line off len) (arr, p)
      = Inr (filled off (nat len) arr, p') \<and> buf_good al t p'"
proof -
  from assms(2) obtain a b where ab: "log_buffer p t = Some a" "heap p a = Some b"
    "al (eb_events b) (eb_nextRdtscTime b)" by (auto simp: buf_good_def)
  let ?ref = "\<lparr>ref_logBuf = a, ref_buf = a, ref_events = eb_events b,
    ref_nextRdtscTime = eb_nextRdtscTime b\<rparr>"
  have "ref_good al t (?ref, p)" using ab by (simp add: ref_good_def)
  from logged_loop_ok [OF assms(1) this assms(3)] obtain s' where
    loop: "logged_loop log line off len (arr, (?ref, p)) = Inr (filled off (nat len) arr, s')"
    and good: "ref_good al t s'" by blast
  obtain ref' p' where s': "s' = (ref', p')" by (cases s')
  from good s' obtain b' where b': "heap p' (ref_logBuf ref') = Some b'"
    "log_buffer p' t = Some (ref_logBuf ref')" "al (ref_events ref') (ref_nextRdtscTime ref')"
    by (auto simp: ref_good_def)
  have ref: "getLogBufferRef this t p = Inr (?ref, p)"
    using ab by (simp add: getLogBufferRef_def getLogBuffer_def getRef_def)
  show ?thesis
    using loop s' b' by (simp add: with_Ref_def ref buf_good_def)
qed

section \<open>Slices\<close>

text \<open>The part of its slice that a thread has written.\<close>

definition written :: "nat \<Rightarrow> nat \<Rightarrow> nat \<Rightarrow> nat \<Rightarrow> int64_array \<Rightarrow> bool" where
  "written off n i j arr \<longleftrightarrow>
     (\<forall>k < n. 0 < i \<or> k < j \<longrightarrow> arr_elems arr ! (off + k) = of_nat k)"

lemma slices_apart:
  assumes "t \<noteq> u" and "j < n" and "k < (n::nat)"
  shows "t * n + j \<noteq> u * n + k"
proof
  assume same: "t * n + j = u * n + k"
  have "t = (t * n + j) div n" "u = (u * n + k) div n" using assms(2,3) by simp_all
  with same assms(1) show False by simp
qed

lemma written_Suc:
  assumes "written off n i j arr" and "j < n" and "off + n \<le> length (arr_elems arr)"
  shows "written off n i (Suc j) (arr\<lparr>arr_elems := (arr_elems arr)[off + j := of_nat j]\<rparr>)"
  using assms by (auto simp: written_def nth_list_update less_Suc_eq)

text \<open>Slices that are all written make up the array.\<close>

lemma all_written:
  assumes "\<And>t. t < m \<Longrightarrow> written (t * n) n i 0 arr" and "0 < i" and "k < m * n"
  shows "arr_elems arr ! k = of_nat (k mod n)"
proof -
  from assms(3) have "0 < n" by (cases n) auto
  then have t: "k div n < m" "k mod n < n" using assms(3) by (simp_all add: less_mult_imp_div_less)
  from assms(1) [OF t(1)] t(2) assms(2) have "arr_elems arr ! (k div n * n + k mod n) = of_nat (k mod n)"
    by (auto simp: written_def)
  then show ?thesis by simp
qed

end
