(* ===== verification/MainProgram.thy ===== *)
theory MainProgram
  imports Loops
begin

text \<open>
  \<open>Main.cc\<close> as a program: the names it prints, its arguments and the slices of the array it
  gives its threads, and what a thread and the whole program do to the array.
\<close>

section \<open>Every log operation leaves the benchmark's writes alone\<close>

text \<open>What each operation needs of the thread's buffer, and keeps from call to call.\<close>

fun op_good :: "LogOp \<Rightarrow> nat \<Rightarrow> process \<Rightarrow> bool" where
  "op_good LOG_ADDR t p = plain_good 1001 t p"
| "op_good LOG_DIRECT_LOAD t p = plain_good 1001 t p"
| "op_good PREFETCH_LOG_ENTRY t p = prefetch_good t p"
| "op_good VOLATILE_BUF_PTR t p = plain_good 1001 t p"
| "op_good CACHED_BUF_PTR t p = buf_good (post_aligned 1024) t p"
| "op_good LOG_HEADER t p = plain_good 1001 t p"
| "op_good LOG_VALUE t p = plain_good 1001 t p"
| "op_good LOG_SRC_LOC t p = plain_good 1000 t p"
| "op_good LOG_FULL t p = buf_good (pre_aligned 10000000) t p"
| "op_good LOG_FULL_128 t p = buf_good pair_aligned t p"
| "op_good LOG_FULL_NAIVE t p = plain_good 10000001 t p"
| "op_good GLOBAL_COUNTER t p = plain_good 1001 t p"
| "op_good _ t p = True"

text \<open>The operations that need no buffer manager and have a case in \<open>run\<close>.\<close>

definition unmanaged :: "LogOp \<Rightarrow> bool" where
  "unmanaged op \<longleftrightarrow> NO_OP \<le> op \<and> op < BUFFER_MANAGER
     \<and> (\<forall>n. op \<noteq> OTHER_OP n)"

lemma op_good_own_buffer: "op_good op t (own_buffer t p)"
  by (cases op) (simp_all add: own_buffer_def plain_good_def prefetch_good_def buf_good_def
      post_aligned_def pre_aligned_def pair_aligned_def BATCH_SIZE_def)

lemma run_log_addr_direct_ok:
  assumes "plain_good 1001 t p" and "off + nat len \<le> length (arr_elems arr)"
  shows "\<exists>p'. run_log_addr_direct t off len (arr, p) = Inr (filled off (nat len) arr, p')
    \<and> plain_good 1001 t p'"
proof -
  from assms(1) obtain a b where ab: "log_buffer p t = Some a" "heap p a = Some b"
    "0 \<le> eb_events b" "eb_events b < 1001" by (auto simp: plain_good_def)
  then have "direct_good t a (eb_events b, p)" by (simp add: direct_good_def)
  from logged_loop_ok [OF log_addr_direct.total_log_axioms this assms(2)] obtain n p1 where
    "logged_loop (\<lambda>(pc, addr, val). tsan_write8_log_addr_direct a pc addr val) 232 off len
       (arr, (eb_events b, p)) = Inr (filled off (nat len) arr, (n, p1))"
    "direct_good t a (n, p1)" by force
  with ab show ?thesis
    by (auto simp: run_log_addr_direct_def getLogBuffer_def set_events_def direct_good_def
        plain_good_def)
qed

lemma run_func_ok:
  assumes "off + nat len \<le> length (arr_elems arr)"
  shows "run_func off len (arr, p) = Inr (filled off (nat len) arr, p)"
proof -
  have "total_log (\<lambda>(pc, addr, val). tsan_write8_func pc addr val) (\<lambda>p'. p' = p)"
    by unfold_locales (auto simp: tsan_write8_func_def)
  from logged_loop_ok [OF this _ assms, of p] show ?thesis by (auto simp: run_func_def)
qed

lemmas logged_loop_rings =
  logged_loop_ok [OF log_addr.total_log_axioms] logged_loop_ok [OF volatile_bufptr.total_log_axioms]
  logged_loop_ok [OF log_header.total_log_axioms] logged_loop_ok [OF log_value.total_log_axioms]
  logged_loop_ok [OF log_src_loc.total_log_axioms]
  logged_loop_ok [OF log_full_naive.total_log_axioms]
  logged_loop_ok [OF prefetch.total_log_axioms] logged_loop_ok [OF global_counter.total_log_axioms]

lemmas with_Ref_rings =
  with_Ref_ok [OF cached_bufptr.total_log_axioms] with_Ref_ok [OF log_full.total_log_axioms]
  with_Ref_ok [OF log_full_128.total_log_axioms]

lemmas run_defs = run_log_addr_def run_volatile_buffer_ptr_def run_log_header_def run_log_value_def
  run_log_src_loc_def run_log_full_naive_def run_prefetch_log_entries_def run_global_counter_def
  run_cached_buffer_ptr_def run_log_full_def run_log_full_128_def

lemma run_unmanaged:
  assumes "unmanaged op" and "op_good op t p" and "off + nat len \<le> length (arr_elems arr)"
  shows "\<exists>p'. run this t op off len (arr, p) = Inr (filled off (nat len) arr, p') \<and> op_good op t p'"
proof (cases op)
  case NO_OP
  with assms(3) show ?thesis by (simp add: run_def lift_array_def run_noop_filled)
next
  case NO_SSE
  have "run_no_sse off len arr = run_noop off len arr" by (simp add: run_no_sse_def run_noop_def)
  with NO_SSE assms(3) show ?thesis by (simp add: run_def lift_array_def run_noop_filled)
next
  case FUNC_CALL
  with assms(3) show ?thesis by (simp add: run_def run_func_ok)
next
  case LOG_DIRECT_LOAD
  with assms run_log_addr_direct_ok show ?thesis by (simp add: run_def)
next
  case CACHED_BUF_PTR
  with assms(2,3) with_Ref_rings(1) show ?thesis by (simp add: run_def run_defs)
next
  case LOG_FULL
  with assms(2,3) with_Ref_rings(2) show ?thesis by (simp add: run_def run_defs)
next
  case LOG_FULL_128
  with assms(2,3) with_Ref_rings(3) show ?thesis by (simp add: run_def run_defs)
next
  case LOG_ADDR
  with assms(2,3) show ?thesis
    using logged_loop_rings(1) [of t p] by (fastforce simp: run_def run_defs)
next
  case VOLATILE_BUF_PTR
  with assms(2,3) show ?thesis
    using logged_loop_rings(2) [of t p] by (fastforce simp: run_def run_defs)
next
  case LOG_HEADER
  with assms(2,3) show ?thesis
    using logged_loop_rings(3) [of t p] by (fastforce simp: run_def run_defs)
next
  case LOG_VALUE
  with assms(2,3) show ?thesis
    using logged_loop_rings(4) [of t p] by (fastforce simp: run_def run_defs)
next
  case LOG_SRC_LOC
  with assms(2,3) show ?thesis
    using logged_loop_rings(5) [of t p] by (fastforce simp: run_def run_defs)
next
  case LOG_FULL_NAIVE
  with assms(2,3) show ?thesis
    using logged_loop_rings(6) [of t p] by (fastforce simp: run_def run_defs)
next
  case PREFETCH_LOG_ENTRY
  with assms(2,3) show ?thesis
    using logged_loop_rings(7) [of t p] by (fastforce simp: run_def run_defs)
next
  case GLOBAL_COUNTER
  with assms(2,3) show ?thesis
    using logged_loop_rings(8) [of t p] by (fastforce simp: run_def run_defs)
qed (use assms(1) in \<open>auto simp: unmanaged_def\<close>)

lemma workerMain_unmanaged:
  assumes "unmanaged op" and "off + nat len \<le> length (arr_elems arr)" and "0 < iterations"
  shows "\<exists>p'. workerMain iterations this t op off len (arr, p)
    = Inr (filled off (nat len) arr, p') \<and> op_good op t p'"
proof -
  let ?P = "\<lambda>(k::nat) st. fst st = (if k = 0 then arr else filled off (nat len) arr)
    \<and> op_good op t (snd st)"
  have "\<exists>st. for_loop (\<lambda>_. run this t op off len) 0 iterations (arr, own_buffer t p) = Inr st
      \<and> ?P iterations st"
  proof (rule for_loop_invariant [where P = ?P])
    show "?P 0 (arr, own_buffer t p)" by (simp add: op_good_own_buffer)
  next
    fix k st
    assume st: "?P k st"
    then have "off + nat len \<le> length (arr_elems (fst st))" and "op_good op t (snd st)"
      using assms(2) by simp_all
    from run_unmanaged [OF assms(1) this(2,1), of this] st
    show "\<exists>st'. run this t op off len st = Inr st' \<and> ?P (Suc k) st'"
      using filled_twice [OF assms(2)] by (cases st) auto
  qed
  with assms(1,3) show ?thesis by (auto simp: workerMain_def unmanaged_def)
qed

text \<open>
  C13: instrumentation is transparent: whatever log operation below \<open>BUFFER_MANAGER\<close> is chosen,
  a thread's body runs without error (no access outside a buffer or the array, no null pointer, no
  failed assertion, no overflow) for any number of iterations and leaves in the array what the
  uninstrumented loop leaves there.
\<close>

theorem workerMain_transparent:
  assumes "unmanaged op" and "off + nat len \<le> length (arr_elems arr)" and "0 < iterations"
  shows "\<exists>arr' p'. workerMain iterations this t op off len (arr, p) = Inr (arr', p')
    \<and> run_noop off len arr = Inr arr'"
  using workerMain_unmanaged [OF assms, of this t p] run_noop_filled [OF assms(2)] by blast

theorem workerMain_transparent_witness:
  "\<exists>arr' p'. workerMain numIterations 0 0 LOG_FULL 1 2 (\<lparr>arr_base = 4096, arr_elems = [7, 7, 7, 7]\<rparr>, init_process)
     = Inr (arr', p') \<and> run_noop 1 2 \<lparr>arr_base = 4096, arr_elems = [7, 7, 7, 7]\<rparr> = Inr arr'"
  by (rule workerMain_transparent) (simp_all add: unmanaged_def numIterations_def)

text \<open>
  The loop that keeps the counter in a local variable, and the loop that updates it in the buffer,
  go through related states.
\<close>

definition direct_sim ::
  "nat \<Rightarrow> nat \<Rightarrow> int64_array \<times> (int \<times> process) \<Rightarrow> int64_array \<times> process \<Rightarrow> bool" where
  "direct_sim t a = (\<lambda>(arr, n, p) (arr', p').
     arr' = arr \<and> 0 \<le> n \<and> n < 1001 \<and> log_buffer p t = Some a
     \<and> (\<exists>b. heap p a = Some b \<and> p' = store_buf a (b\<lparr>eb_events := n\<rparr>) p))"

lemma direct_sim_step:
  assumes "direct_sim t a st st'"
  shows "rel_sum (=) (direct_sim t a)
    (logged_store (\<lambda>(pc, addr, val). tsan_write8_log_addr_direct a pc addr val) l off k st)
    (logged_store (\<lambda>(pc, addr, val). tsan_write8_log_addr t pc addr val) l' off k st')"
proof -
  obtain arr n p where st: "st = (arr, (n, p))" by (cases st) auto
  with assms obtain b where b: "0 \<le> n" "n < 1001" "log_buffer p t = Some a" "heap p a = Some b"
    and st': "st' = (arr, store_buf a (b\<lparr>eb_events := n\<rparr>) p)"
    by (cases st') (auto simp: direct_sim_def)
  let ?b = "b\<lparr>eb_events := n\<rparr>"
  have call: "tsan_write8_log_addr t pc addr val (store_buf a ?b p)
      = Inr (store_buf a (push 1001 addr ?b) (store_buf a ?b p))" for pc addr val
    using b by (intro log_addr_call) simp_all
  show ?thesis
    using b by (auto simp: st st' logged_store_def log_addr_direct_call call direct_sim_def push_def
        store_elem_def)
qed

text \<open>
  Reading the counters through local variables (\<open>LOG_DIRECT_LOAD\<close>) is the same program as
  \<open>LOG_ADDR\<close>: from the same state, both loops end in the same array, the same buffer contents and
  the same counter.
\<close>

theorem log_addr_direct_equivalent:
  assumes "plain_good 1001 t p"
  shows "run_log_addr_direct t off len (arr, p) = run_log_addr t off len (arr, p)"
proof -
  from assms obtain a b where ab: "log_buffer p t = Some a" "heap p a = Some b"
    "0 \<le> eb_events b" "eb_events b < 1001" by (auto simp: plain_good_def)
  then have start: "direct_sim t a (arr, (eb_events b, p)) (arr, p)"
    by (auto simp: direct_sim_def store_buf_same)
  have sim: "rel_sum (=) (direct_sim t a)
      (logged_loop (\<lambda>(pc, addr, val). tsan_write8_log_addr_direct a pc addr val) 232 off len
        (arr, (eb_events b, p)))
      (run_log_addr t off len (arr, p))"
    unfolding logged_loop_def run_log_addr_def
    by (rule for_loop_simulation [OF direct_sim_step start])
  show ?thesis
    using sim ab
    by (cases rule: rel_sum.cases)
      (auto simp: run_log_addr_direct_def getLogBuffer_def set_events_def direct_sim_def)
qed

theorem log_addr_direct_equivalent_witness:
  "run_log_addr_direct 0 0 3 (\<lparr>arr_base = 0, arr_elems = [5, 5, 5]\<rparr>, own_buffer 0 init_process)
   = run_log_addr 0 0 3 (\<lparr>arr_base = 0, arr_elems = [5, 5, 5]\<rparr>, own_buffer 0 init_process)"
  by (rule log_addr_direct_equivalent) (simp add: own_buffer_def plain_good_def)

section \<open>Names of the operations\<close>

text \<open>Decimal digits, as \<open>%d\<close> prints them.\<close>

fun show_nat :: "nat \<Rightarrow> string" where
  "show_nat n = (if n < 10 then [char_of (48 + n)] else show_nat (n div 10) @ [char_of (48 + n mod 10)])"

declare show_nat.simps [simp del]

definition show_int :: "int \<Rightarrow> string" where
  "show_int n = (if n < 0 then ''-'' @ show_nat (nat (- n)) else show_nat (nat n))"

fun opcodeToString :: "LogOp \<Rightarrow> string" where
  "opcodeToString NO_OP = ''NO_OP''"
| "opcodeToString NO_SSE = ''NO_SSE''"
| "opcodeToString FUNC_CALL = ''FUNC_CALL''"
| "opcodeToString LOG_ADDR = ''LOG_ADDR''"
| "opcodeToString LOG_DIRECT_LOAD = ''LOG_DIRECT_LOAD''"
| "opcodeToString PREFETCH_LOG_ENTRY = ''PREFETCH_LOG_ENTRY''"
| "opcodeToString VOLATILE_BUF_PTR = ''VOLATILE_BUF_PTR''"
| "opcodeToString CACHED_BUF_PTR = ''CACHED_BUF_PTR''"
| "opcodeToString LOG_HEADER = ''LOG_HEADER''"
| "opcodeToString LOG_VALUE = ''LOG_VALUE''"
| "opcodeToString LOG_SRC_LOC = ''LOG_SRC_LOC''"
| "opcodeToString LOG_FULL = ''LOG_FULL''"
| "opcodeToString LOG_FULL_128 = ''LOG_FULL_128''"
| "opcodeToString LOG_FULL_NAIVE = ''LOG_FULL_NAIVE''"
| "opcodeToString GLOBAL_COUNTER = ''GLOBAL_COUNTER''"
| "opcodeToString BUFFER_MANAGER = ''BUFFER_MANAGER''"
| "opcodeToString LOG_TIMESTAMP = ''LOG_TIMESTAMP''"
| "opcodeToString op = ''Unknown LogOp('' @ show_int (LogOp_value op) @ '')''"

lemma length_show_nat: "n < 10 ^ k \<Longrightarrow> 0 < k \<Longrightarrow> length (show_nat n) \<le> k"
proof (induction k arbitrary: n)
  case 0
  then show ?case by simp
next
  case (Suc k)
  show ?case
  proof (cases "n < 10")
    case True
    then show ?thesis by (simp add: show_nat.simps [of n])
  next
    case False
    with Suc.prems(1) have "0 < k" by (cases k) auto
    moreover from Suc.prems(1) have "n div 10 < 10 ^ k" by (simp add: less_mult_imp_div_less mult.commute)
    ultimately show ?thesis using Suc.IH False by (simp add: show_nat.simps [of n])
  qed
qed

section \<open>main\<close>

text \<open>
  The arguments after the program's name, as the numbers \<open>atoi\<close> reads: three of them replace the
  defaults, any other number of arguments is ignored.
\<close>

definition main_args :: "int list \<Rightarrow> int \<times> int \<times> LogOp" where
  "main_args args =
     (case args of
        [n, l, k] \<Rightarrow> (n, l, LogOp_of_int k)
      | _ \<Rightarrow> (1, 1000000, NO_OP))"

text \<open>\<open>BUFFER_SIZE[logOp]\<close> with an operation that came from the command line.\<close>

definition buffer_size_read :: "LogOp \<Rightarrow> int result" where
  "buffer_size_read op =
     (let i = LogOp_value op in
      if 0 \<le> i \<and> i < int (length BUFFER_SIZE) then Inr (BUFFER_SIZE ! nat i) else Inl OutOfBounds)"

fun slices :: "nat \<Rightarrow> nat \<Rightarrow> int \<Rightarrow> (nat \<times> int) list result" where
  "slices i 0 len = Inr []"
| "slices i (Suc n) len =
     and_then (int_mul (int i) len) (\<lambda>off.
     and_then (slices (Suc i) n len) (\<lambda>rest. Inr ((i, off) # rest)))"

record plan =
  pl_size :: int
  pl_op :: LogOp
  pl_len :: int
  pl_threads :: "(nat \<times> int) list"

text \<open>
  What \<open>main\<close> sets up: the size of the array it allocates and, for every thread, its number and the
  index of its slice. The read of \<open>BUFFER_SIZE\<close> is for the first line it prints.
\<close>

definition main_plan :: "int list \<Rightarrow> plan result" where
  "main_plan args =
     (let (numThreads, len, logOp) = main_args args in
      and_then (buffer_size_read logOp) (\<lambda>_.
      and_then (int_mul numThreads len) (\<lambda>n.
      if n < 0 \<or> numThreads < 0 then Inl BadArrayLength
      else and_then (slices 0 (nat numThreads) len) (\<lambda>ts.
      Inr \<lparr>pl_size = n, pl_op = logOp, pl_len = len, pl_threads = ts\<rparr>))))"

text \<open>
  The threads run their bodies; the list has the threads in the order in which they run, one after the
  other. A thread ends here with its body: the destructors of its thread-local objects, which touch
  neither the array nor another thread's buffers, are steps of \<open>Concurrent\<close> (\<open>exit_thread\<close>,
  \<open>destroy_manager\<close>).
\<close>

fun run_threads :: "nat \<Rightarrow> LogOp \<Rightarrow> int \<Rightarrow> (nat \<times> int) list \<Rightarrow> run_state \<Rightarrow> run_state result" where
  "run_threads iterations op len [] st = Inr st"
| "run_threads iterations op len ((i, off) # ts) st =
     and_then (workerMain iterations (buf_manager_of True i) i op (nat off) len st)
       (run_threads iterations op len ts)"

lemma slices_ok:
  assumes "0 \<le> len" and "int (i + n) * len \<le> INT_MAX"
  shows "slices i n len = Inr (map (\<lambda>j. (j, int j * len)) [i..<i + n])"
  using assms(2)
proof (induction n arbitrary: i)
  case 0
  then show ?case by simp
next
  case (Suc n)
  have "int i * len \<le> int (i + Suc n) * len" using assms(1) by (intro mult_right_mono) simp_all
  moreover have "0 \<le> int i * len" using assms(1) by simp
  ultimately have "int_mul (int i) len = Inr (int i * len)"
    using Suc.prems by (simp add: int_mul_def)
  moreover have "slices (Suc i) n len = Inr (map (\<lambda>j. (j, int j * len)) [Suc i..<Suc i + n])"
    using Suc.prems by (intro Suc.IH) simp
  moreover have "[i..<i + Suc n] = i # [Suc i..<Suc i + n]" by (simp add: upt_conv_Cons)
  ultimately show ?case by simp
qed

lemma nth_filled:
  assumes "off + n \<le> length (arr_elems arr)" and "k < length (arr_elems arr)"
  shows "arr_elems (filled off n arr) ! k
    = (if off \<le> k \<and> k < off + n then of_nat (k - off) else arr_elems arr ! k)"
  using assms by (auto simp: filled_def nth_append)

text \<open>
  Whatever the order of the threads, every slice they work on ends up filled, if each thread's body
  fills its own and leaves the process fit (\<open>fit\<close>) for the threads that have not run yet.
\<close>

lemma run_threads_fill:
  assumes body: "\<And>j js p arr. fit (j # js) p \<Longrightarrow> j * nat len + nat len \<le> length (arr_elems arr) \<Longrightarrow>
      \<exists>p1. workerMain iterations (buf_manager_of True j) j op (j * nat len) len (arr, p)
        = Inr (filled (j * nat len) (nat len) arr, p1) \<and> fit js p1"
    and "0 \<le> len" and "fit (map fst ts) p"
    and "\<forall>(j, off) \<in> set ts. off = int j * len \<and> j * nat len + nat len \<le> length (arr_elems arr)"
  shows "\<exists>arr' p'. run_threads iterations op len ts (arr, p) = Inr (arr', p')
    \<and> length (arr_elems arr') = length (arr_elems arr)
    \<and> (\<forall>k < length (arr_elems arr). arr_elems arr' ! k =
         (if \<exists>j \<in> fst ` set ts. j * nat len \<le> k \<and> k < j * nat len + nat len
          then of_nat (k mod nat len) else arr_elems arr ! k))"
  using assms(3,4)
proof (induction ts arbitrary: arr p)
  case Nil
  then show ?case by simp
next
  case (Cons t ts)
  obtain j off where t: "t = (j, off)" by (cases t)
  with Cons.prems(2) assms(2) have off: "nat off = j * nat len"
    and bound: "j * nat len + nat len \<le> length (arr_elems arr)"
    by (simp_all add: nat_mult_distrib)
  from body [OF _ bound, of "map fst ts" p] Cons.prems(1) off obtain p1 where
    step: "workerMain iterations (buf_manager_of True j) j op (nat off) len (arr, p)
      = Inr (filled (nat off) (nat len) arr, p1)" and fit: "fit (map fst ts) p1" by (auto simp: t)
  have "\<forall>(i, off') \<in> set ts. off' = int i * len
      \<and> i * nat len + nat len \<le> length (arr_elems (filled (nat off) (nat len) arr))"
    using Cons.prems(2) bound off by simp
  from Cons.IH [OF fit this] obtain arr' p' where rest:
    "run_threads iterations op len ts (filled (nat off) (nat len) arr, p1) = Inr (arr', p')"
    "length (arr_elems arr') = length (arr_elems arr)"
    "\<forall>k < length (arr_elems arr). arr_elems arr' ! k =
      (if \<exists>j \<in> fst ` set ts. j * nat len \<le> k \<and> k < j * nat len + nat len
       then of_nat (k mod nat len) else arr_elems (filled (nat off) (nat len) arr) ! k)"
    using bound off by auto
  have inside: "k - j * nat len = k mod nat len" if "j * nat len \<le> k" "k < j * nat len + nat len" for k
  proof -
    from that(1) obtain r where "k = j * nat len + r" using le_Suc_ex by blast
    with that(2) show ?thesis by simp
  qed
  have "\<forall>k < length (arr_elems arr). arr_elems arr' ! k =
      (if \<exists>j \<in> fst ` set (t # ts). j * nat len \<le> k \<and> k < j * nat len + nat len
       then of_nat (k mod nat len) else arr_elems arr ! k)"
    using rest(3) bound off by (auto simp: t nth_filled inside)
  with step rest(1,2) show ?case by (auto simp: t)
qed

lemma main_plan_InrD:
  assumes "main_plan args = Inr pl"
  shows "0 \<le> pl_size pl" and "pl_size pl \<le> INT_MAX"
    and "\<exists>n. pl_size pl = int n * pl_len pl
           \<and> pl_threads pl = map (\<lambda>j. (j, int j * pl_len pl)) [0..<n]
           \<and> (n = 0 \<or> 0 \<le> pl_len pl)"
proof -
  obtain T L op where args: "main_args args = (T, L, op)" by (cases "main_args args") auto
  with assms obtain ts where pl: "int_mul T L = Inr (T * L)" "0 \<le> T * L" "0 \<le> T"
    "slices 0 (nat T) L = Inr ts"
    "pl = \<lparr>pl_size = T * L, pl_op = op, pl_len = L, pl_threads = ts\<rparr>"
    by (auto simp: main_plan_def and_then_Inr_iff int_mul_def split: if_splits)
  then show "0 \<le> pl_size pl" "pl_size pl \<le> INT_MAX"
    by (auto simp: int_mul_def split: if_splits)
  have L: "T = 0 \<or> 0 \<le> L" using pl(2,3) by (auto simp: zero_le_mult_iff)
  have "ts = map (\<lambda>j. (j, int j * L)) [0..<nat T]"
  proof (cases "T = 0")
    case True
    with pl(4) show ?thesis by simp
  next
    case False
    with L pl have "int (0 + nat T) * L \<le> INT_MAX" by (auto simp: int_mul_def split: if_splits)
    from slices_ok [OF _ this] L False pl(4) show ?thesis by simp
  qed
  with pl(3,5) L show "\<exists>n. pl_size pl = int n * pl_len pl
      \<and> pl_threads pl = map (\<lambda>j. (j, int j * pl_len pl)) [0..<n] \<and> (n = 0 \<or> 0 \<le> pl_len pl)"
    by (intro exI [of _ "nat T"]) auto
qed

lemma main_fills:
  assumes "main_plan args = Inr pl"
    and "\<And>j js p arr. fit (j # js) p \<Longrightarrow> j * nat (pl_len pl) + nat (pl_len pl) \<le> length (arr_elems arr) \<Longrightarrow>
      \<exists>p1. workerMain iterations (buf_manager_of True j) j op (j * nat (pl_len pl)) (pl_len pl) (arr, p)
        = Inr (filled (j * nat (pl_len pl)) (nat (pl_len pl)) arr, p1) \<and> fit js p1"
    and "mset order = mset (pl_threads pl)" and "fit (map fst order) p"
    and "int (length (arr_elems arr)) = pl_size pl"
  shows "\<exists>arr' p'. run_threads iterations op (pl_len pl) order (arr, p) = Inr (arr', p')
    \<and> length (arr_elems arr') = length (arr_elems arr)
    \<and> (\<forall>k < length (arr_elems arr'). arr_elems arr' ! k = of_nat (k mod nat (pl_len pl)))"
proof -
  from main_plan_InrD(3) [OF assms(1)] obtain n where n: "pl_size pl = int n * pl_len pl"
    "pl_threads pl = map (\<lambda>j. (j, int j * pl_len pl)) [0..<n]" "n = 0 \<or> 0 \<le> pl_len pl" by blast
  have order: "set order = (\<lambda>j. (j, int j * pl_len pl)) ` {0..<n}"
    using arg_cong [OF assms(3), of set_mset] n(2) by simp
  show ?thesis
  proof (cases "n = 0")
    case True
    with assms(3,5) n show ?thesis by simp
  next
    case False
    with n(3) have len: "0 \<le> pl_len pl" by simp
    have total: "length (arr_elems arr) = n * nat (pl_len pl)"
      using assms(5) n(1) len by (metis nat_int nat_mult_distrib of_nat_0_le_iff)
    have "j * nat (pl_len pl) + nat (pl_len pl) \<le> length (arr_elems arr)" if "j < n" for j
      using that total mult_le_mono1 [of "Suc j" n "nat (pl_len pl)"] by (simp add: add.commute)
    then have "\<forall>(j, off) \<in> set order. off = int j * pl_len pl
        \<and> j * nat (pl_len pl) + nat (pl_len pl) \<le> length (arr_elems arr)"
      by (auto simp: order)
    from run_threads_fill [where fit = fit, OF assms(2) len assms(4) this] obtain arr' p' where
      run: "run_threads iterations op (pl_len pl) order (arr, p) = Inr (arr', p')"
      "length (arr_elems arr') = length (arr_elems arr)"
      and elems: "\<forall>k < length (arr_elems arr). arr_elems arr' ! k =
        (if \<exists>j \<in> fst ` set order. j * nat (pl_len pl) \<le> k \<and> k < j * nat (pl_len pl) + nat (pl_len pl)
         then of_nat (k mod nat (pl_len pl)) else arr_elems arr ! k)" by auto
    have "\<exists>j \<in> fst ` set order. j * nat (pl_len pl) \<le> k \<and> k < j * nat (pl_len pl) + nat (pl_len pl)"
      if k: "k < length (arr_elems arr)" for k
    proof -
      from k total have "0 < nat (pl_len pl)" by (cases "nat (pl_len pl)") auto
      then have "k div nat (pl_len pl) < n" using k total by (simp add: less_mult_imp_div_less)
      then have "k div nat (pl_len pl) \<in> fst ` set order" by (force simp: order)
      moreover have "k div nat (pl_len pl) * nat (pl_len pl) \<le> k" by simp
      moreover have "k < k div nat (pl_len pl) * nat (pl_len pl) + nat (pl_len pl)"
        using \<open>0 < nat (pl_len pl)\<close> by (metis dividend_less_div_times add.commute)
      ultimately show ?thesis by blast
    qed
    with elems run show ?thesis by auto
  qed
qed

text \<open>
  The slices that \<open>main\<close> computes fit the array it allocates and do not overlap, so that
  running the threads in any order fills the whole array, element \<open>k\<close> with its index in its slice.
\<close>

theorem main_fills_array:
  assumes "main_plan args = Inr pl" and "unmanaged (pl_op pl)" and "0 < iterations"
    and "mset order = mset (pl_threads pl)" and "int (length (arr_elems arr)) = pl_size pl"
  shows "\<exists>arr' p'. run_threads iterations (pl_op pl) (pl_len pl) order (arr, p) = Inr (arr', p')
    \<and> length (arr_elems arr') = length (arr_elems arr)
    \<and> (\<forall>k < length (arr_elems arr'). arr_elems arr' ! k = of_nat (k mod nat (pl_len pl)))"
proof -
  have "\<exists>p1. workerMain iterations (buf_manager_of True j) j (pl_op pl) (j * nat (pl_len pl)) (pl_len pl) (arr, p)
      = Inr (filled (j * nat (pl_len pl)) (nat (pl_len pl)) arr, p1) \<and> True"
    if "j * nat (pl_len pl) + nat (pl_len pl) \<le> length (arr_elems arr)" for j arr p
    using workerMain_unmanaged [OF assms(2) that assms(3)] by blast
  from main_fills [OF assms(1), where fit = "\<lambda>_ _. True", OF this assms(4) TrueI assms(5)]
  show ?thesis .
qed

lemma main_plan_example:
  "main_plan [2, 2, 3]
   = Inr \<lparr>pl_size = 4, pl_op = LOG_ADDR, pl_len = 2, pl_threads = [(0, 0), (1, 2)]\<rparr>"
  by code_simp

theorem main_fills_array_witness:
  "\<exists>arr' p'. run_threads 1000 LOG_ADDR 2 [(1, 2), (0, 0)]
     (\<lparr>arr_base = 64, arr_elems = [9, 9, 9, 9]\<rparr>, init_process) = Inr (arr', p')
   \<and> (\<forall>k < length (arr_elems arr'). arr_elems arr' ! k = of_nat (k mod 2))"
  using main_fills_array [OF main_plan_example, of 1000 "[(1, 2), (0, 0)]"
      "\<lparr>arr_base = 64, arr_elems = [9, 9, 9, 9]\<rparr>" init_process]
  by (auto simp: unmanaged_def add_mset_commute simp del: run_threads.simps)

lemma LogOp_value_list: "map LogOp_value LogOp_list = [0..17]"
  by code_simp

lemma LogOp_value_of_int: "LogOp_value (LogOp_of_int n) = n"
proof (cases "0 \<le> n \<and> n \<le> 17")
  case True
  have "length LogOp_list = 18" by (simp add: LogOp_list_def)
  with True have "nat n < length LogOp_list" by (simp only: nat_less_iff) simp
  then have "LogOp_value (LogOp_list ! nat n) = map LogOp_value LogOp_list ! nat n"
    by (rule nth_map [symmetric])
  also have "\<dots> = n" using True unfolding LogOp_value_list by (simp add: nth_upto)
  finally show ?thesis using True by (simp add: LogOp_of_int_def)
next
  case False
  then show ?thesis by (auto simp: LogOp_of_int_def)
qed

lemma length_show_int: "INT_MIN \<le> n \<Longrightarrow> n \<le> INT_MAX \<Longrightarrow> length (show_int n) \<le> 11"
  using length_show_nat [of "nat (- n)" 10] length_show_nat [of "nat n" 10]
  by (auto simp: show_int_def nat_less_iff)

text \<open>
  For every number an \<open>int\<close> can hold, the name that \<open>opcodeToString\<close> prints fits the
  50 characters it formats into, terminator included.
\<close>

theorem opcodeToString_fits:
  assumes "INT_MIN \<le> k" and "k \<le> INT_MAX"
  shows "length (opcodeToString (LogOp_of_int k)) < 50"
  using length_show_int [OF assms] length_show_int [of 17] LogOp_value_of_int [of k]
  by (cases "LogOp_of_int k") auto

theorem opcodeToString_fits_witness: "length (opcodeToString (LogOp_of_int (-2147483648))) < 50"
  by (rule opcodeToString_fits) simp_all

text \<open>
  \<open>main\<close> reads \<open>BUFFER_SIZE[logOp]\<close> for its first line of output before anything has checked
  the operation: with a number outside 0 to 16 on the command line the read is outside the table.
\<close>

theorem main_reads_outside_table:
  assumes "k < 0 \<or> 16 < k"
  shows "main_plan [n, len, k] = Inl OutOfBounds"
  using assms
  by (auto simp: main_plan_def main_args_def buffer_size_read_def LogOp_value_of_int BUFFER_SIZE_def
      Let_def)

theorem main_reads_outside_table_witness: "main_plan [1, 1000, 17] = Inl OutOfBounds"
  by (rule main_reads_outside_table) simp

end
