(* ===== verification/Concurrent.thy ===== *)
theory Concurrent
  imports MainProgram
begin

text \<open>
  Application threads that log through the buffer manager (\<open>run_buf_manager\<close> and what it calls in
  \<open>Main.cc\<close>, \<open>BufferManager.cc\<close>) interleaved with each other and with the workers
  (\<open>Worker.h\<close>). A thread's step is one access to shared state: a load of \<open>__log_buffer\<close>, a store
  into its buffer, or one method of the manager, which holds the monitor from start to end.

  \<open>__log_buffer\<close> is loaded with relaxed order, so that a load may miss a reset by another thread and
  still return the pointer that the loading thread stored itself (\<open>may_load\<close>). All other shared data are
  sequentially consistent here, which \<open>DataRaces\<close> justifies: there is no data race on them but that of a
  thread-local manager's destructor, a use after free at the worst.
\<close>

section \<open>Where a thread is\<close>

text \<open>
  \<open>Idle\<close>: outside \<open>run_buf_manager\<close>. \<open>GotBuf\<close>: in \<open>getLogBufferRef\<close>, with the pointer it
  loaded. \<open>Logging\<close>: between two calls of \<open>__tsan_write8_buf_manager\<close>. \<open>Loaded\<close>: in that
  function, \<open>curBuf\<close> loaded. \<open>Slow\<close>: at the start of the slow path. \<open>NeedBuf\<close>: before its call
  of \<open>allocBuffer\<close>. \<open>GotNext\<close>: before its call of \<open>updateLogBuffer\<close>. \<open>Exited\<close>: its context is
  destroyed; whether its manager is destroyed, too, is in \<open>mgr_alive\<close>.
\<close>

datatype app_pc =
    Idle
  | GotBuf "nat option"
  | Logging Ref
  | Loaded Ref "nat option"
  | Slow Ref "nat option"
  | NeedBuf Ref
  | GotNext Ref nat
  | Exited

record system =
  sys_proc :: process
  sys_pc :: "nat \<Rightarrow> app_pc"

definition init_system :: system where
  "init_system = \<lparr>sys_proc = init_process, sys_pc = (\<lambda>_. Idle)\<rparr>"

definition goto :: "nat \<Rightarrow> app_pc \<Rightarrow> process \<Rightarrow> system \<Rightarrow> system" where
  "goto t pc p s = \<lparr>sys_proc = p, sys_pc = (sys_pc s)(t := pc)\<rparr>"

section \<open>Steps\<close>

text \<open>
  The values that a relaxed load of \<open>__log_buffer\<close> by its own thread may return: the current one, or
  the buffer that the thread got last, since only it stores anything else than null there. It cannot
  be older. A load under the monitor, in \<open>allocBuffer\<close>, follows every reset and returns the current
  one.
\<close>

definition ctx_buf :: "process \<Rightarrow> nat \<Rightarrow> nat option" where
  "ctx_buf p t = (case thr_context p t of None \<Rightarrow> None | Some c \<Rightarrow> ctx_logBuffer c)"

definition may_load :: "nat \<Rightarrow> process \<Rightarrow> nat option \<Rightarrow> bool" where
  "may_load t p cur \<longleftrightarrow> cur = getLogBuffer t p \<or> (cur \<noteq> None \<and> cur = ctx_buf p t)"

lemma may_load_current [simp]: "may_load t p (getLogBuffer t p)"
  by (simp add: may_load_def)

lemma may_load_None: "may_load t p None \<Longrightarrow> log_buffer p t = None"
  by (simp add: may_load_def getLogBuffer_def)

text \<open>
  \<open>tlocal\<close>: whether each thread has its own manager, as the code declares it, or all share one, as
  the design notes say. A rule's last argument is the outcome of the step: an error or the next
  state.
\<close>

inductive app_step :: "bool \<Rightarrow> nat \<Rightarrow> system \<Rightarrow> system result \<Rightarrow> bool" for tlocal t where
  begin_run: "sys_pc s t = Idle \<Longrightarrow> may_load t (sys_proc s) cur \<Longrightarrow>
     app_step tlocal t s (Inr (goto t (GotBuf cur) (sys_proc s) s))"
| first_buffer: "sys_pc s t = GotBuf None \<Longrightarrow>
     app_step tlocal t s
       (and_then (allocBuffer (buf_manager_of tlocal t) t (sys_proc s)) (\<lambda>(a, p).
        Inr (goto t (GotBuf (Some a)) p s)))"
| take_ref: "sys_pc s t = GotBuf (Some a) \<Longrightarrow>
     app_step tlocal t s
       (and_then (getRef a (sys_proc s)) (\<lambda>ref. Inr (goto t (Logging ref) (sys_proc s) s)))"
| load: "sys_pc s t = Logging ref \<Longrightarrow> may_load t (sys_proc s) cur \<Longrightarrow>
     app_step tlocal t s (Inr (goto t (Loaded ref cur) (sys_proc s) s))"
| store: "sys_pc s t = Loaded ref curBuf \<Longrightarrow>
     app_step tlocal t s
       (and_then (write_slot (ref_buf ref) (ref_events ref) (encode_src_loc pc addr val)
                    (sys_proc s)) (\<lambda>p.
        if curBuf = None then Inr (goto t (Slow ref curBuf) p s)
        else
          and_then (int_add (ref_events ref) 1) (\<lambda>n.
          let ref1 = ref\<lparr>ref_events := n\<rparr> in
          Inr (goto t (if ref_nextRdtscTime ref \<le> ref_events ref then Slow ref1 curBuf
                       else Logging ref1) p s))))"
| reclaimed: "sys_pc s t = Slow ref None \<Longrightarrow>
     app_step tlocal t s (Inr (goto t (NeedBuf ref) (sys_proc s) s))"
| deadline: "sys_pc s t = Slow ref (Some b) \<Longrightarrow>
     app_step tlocal t s
       (and_then (int_add (ref_nextRdtscTime ref) BATCH_SIZE) (\<lambda>n.
        let ref1 = ref\<lparr>ref_nextRdtscTime := n\<rparr> in
        if buffer_size BUFFER_MANAGER \<le> ref_events ref1 then
          and_then (tryIncEpoch (buf_manager_of tlocal t) ref1 (sys_proc s)) (\<lambda>(_, p).
          Inr (goto t (NeedBuf ref1) p s))
        else Inr (goto t (Logging ref1) (sys_proc s) s)))"
| new_buffer: "sys_pc s t = NeedBuf ref \<Longrightarrow>
     app_step tlocal t s
       (and_then (allocBuffer (buf_manager_of tlocal t) t (sys_proc s)) (\<lambda>(a, p).
        Inr (goto t (GotNext ref a) p s)))"
| switch: "sys_pc s t = GotNext ref a \<Longrightarrow>
     app_step tlocal t s
       (and_then (updateLogBuffer ref (Some a) (sys_proc s)) (\<lambda>(ref1, p).
        Inr (goto t (Logging ref1) p s)))"
| end_run: "sys_pc s t = Logging ref \<Longrightarrow>
     app_step tlocal t s
       (and_then (destroy_Ref ref (sys_proc s)) (\<lambda>p. Inr (goto t Idle p s)))"
| exit_thread: "sys_pc s t = Idle \<Longrightarrow>
     app_step tlocal t s
       (and_then (destroy_context tlocal t (sys_proc s)) (\<lambda>p. Inr (goto t Exited p s)))"
| destroy_manager: "tlocal \<Longrightarrow> sys_pc s t = Exited \<Longrightarrow> thr_context (sys_proc s) t \<noteq> None \<Longrightarrow>
     mgr_alive (sys_proc s) (buf_manager_of tlocal t) \<Longrightarrow>
     app_step tlocal t s
       (Inr (goto t Exited (BufferManager_dtor (buf_manager_of tlocal t) (sys_proc s)) s))"

inductive sys_step :: "bool \<Rightarrow> system \<Rightarrow> system result \<Rightarrow> bool" for tlocal where
  app: "app_step tlocal t s r \<Longrightarrow> sys_step tlocal s r"
| worker: "k < length (workers (sys_proc s)) \<Longrightarrow>
     sys_step tlocal s (and_then (worker_step k (sys_proc s)) (\<lambda>p. Inr (s\<lparr>sys_proc := p\<rparr>)))"

inductive reachable :: "bool \<Rightarrow> system \<Rightarrow> bool" for tlocal where
  start: "reachable tlocal init_system"
| step: "reachable tlocal s \<Longrightarrow> sys_step tlocal s (Inr s') \<Longrightarrow> reachable tlocal s'"

inductive_simps sys_step_iff: "sys_step tlocal s r"

lemma goto_simps [simp]:
  "sys_proc (goto t pc p s) = p" "sys_pc (goto t pc p s) = (sys_pc s)(t := pc)"
  by (simp_all add: goto_def)

text \<open>Memory operations of a thread, seen as one store into a buffer.\<close>

lemma write_slot_InrE:
  assumes "write_slot a i w p = Inr p'"
  obtains b where "heap p a = Some b" "0 \<le> i" "i < BUF_LEN"
    "p' = store_buf a (b\<lparr>eb_buf := (eb_buf b)(i \<mapsto> w)\<rparr>) p"
  using assms by (auto simp: write_slot_def and_then_Inr_iff load_buf_Inr_iff split: if_splits)

lemma destroy_Ref_InrE:
  assumes "destroy_Ref ref p = Inr p'"
  obtains b where "heap p (ref_logBuf ref) = Some b"
    "p' = store_buf (ref_logBuf ref)
       (b\<lparr>eb_events := ref_events ref, eb_nextRdtscTime := ref_nextRdtscTime ref\<rparr>) p"
  using assms by (auto simp: destroy_Ref_def modify_buf_def and_then_Inr_iff load_buf_Inr_iff)

lemma updateLogBuffer_InrE:
  assumes "updateLogBuffer ref (Some a) p = Inr (ref', p')"
  obtains b where "heap p (ref_logBuf ref) = Some b" "a \<noteq> ref_logBuf ref"
    "ref' = ref\<lparr>ref_logBuf := a, ref_buf := a, ref_events := 0, ref_nextRdtscTime := BATCH_SIZE\<rparr>"
    "p' = store_buf (ref_logBuf ref) (b\<lparr>eb_events := ref_events ref, eb_closed := True\<rparr>) p"
  using assms
  by (auto simp: updateLogBuffer_def modify_buf_def and_then_Inr_iff load_buf_Inr_iff)

text \<open>The steps that succeed, with what they did.\<close>

definition after_store :: "Ref \<Rightarrow> nat option \<Rightarrow> app_pc" where
  "after_store ref curBuf =
     (if curBuf = None then Slow ref None
      else if ref_nextRdtscTime ref \<le> ref_events ref
        then Slow (ref\<lparr>ref_events := ref_events ref + 1\<rparr>) curBuf
        else Logging (ref\<lparr>ref_events := ref_events ref + 1\<rparr>))"

inductive_cases app_step_InrE: "app_step tlocal t s (Inr s')"

lemmas app_step_rules = app_step_InrE [consumes 1, case_names begin_run first_buffer take_ref load
  store reclaimed deadline new_buffer switch end_run exit_thread destroy_manager]

lemma app_step_cases [consumes 1, case_names begin_run first_buffer take_ref load store reclaimed
    full room new_buffer switch end_run exit_thread destroy_manager]:
  assumes "app_step tlocal t s (Inr s')"
  obtains cur where "sys_pc s t = Idle" "may_load t (sys_proc s) cur"
      "s' = goto t (GotBuf cur) (sys_proc s) s"
    | a p where "sys_pc s t = GotBuf None"
      "allocBuffer (buf_manager_of tlocal t) t (sys_proc s) = Inr (a, p)"
      "s' = goto t (GotBuf (Some a)) p s"
    | a b where "sys_pc s t = GotBuf (Some a)" "heap (sys_proc s) a = Some b"
      "s' = goto t (Logging \<lparr>ref_logBuf = a, ref_buf = a, ref_events = eb_events b,
         ref_nextRdtscTime = eb_nextRdtscTime b\<rparr>) (sys_proc s) s"
    | ref cur where "sys_pc s t = Logging ref" "may_load t (sys_proc s) cur"
      "s' = goto t (Loaded ref cur) (sys_proc s) s"
    | ref curBuf w b where "sys_pc s t = Loaded ref curBuf"
      "heap (sys_proc s) (ref_buf ref) = Some b" "0 \<le> ref_events ref" "ref_events ref < BUF_LEN"
      "s' = goto t (after_store ref curBuf)
         (store_buf (ref_buf ref) (b\<lparr>eb_buf := (eb_buf b)(ref_events ref \<mapsto> w)\<rparr>) (sys_proc s)) s"
    | ref where "sys_pc s t = Slow ref None" "s' = goto t (NeedBuf ref) (sys_proc s) s"
    | ref b won p where "sys_pc s t = Slow ref (Some b)" "MAX_EVENTS \<le> ref_events ref"
      "tryIncEpoch (buf_manager_of tlocal t)
         (ref\<lparr>ref_nextRdtscTime := ref_nextRdtscTime ref + BATCH_SIZE\<rparr>) (sys_proc s) = Inr (won, p)"
      "s' = goto t (NeedBuf (ref\<lparr>ref_nextRdtscTime := ref_nextRdtscTime ref + BATCH_SIZE\<rparr>)) p s"
    | ref b where "sys_pc s t = Slow ref (Some b)" "ref_events ref < MAX_EVENTS"
      "s' = goto t (Logging (ref\<lparr>ref_nextRdtscTime := ref_nextRdtscTime ref + BATCH_SIZE\<rparr>))
         (sys_proc s) s"
    | ref a p where "sys_pc s t = NeedBuf ref"
      "allocBuffer (buf_manager_of tlocal t) t (sys_proc s) = Inr (a, p)"
      "s' = goto t (GotNext ref a) p s"
    | ref a b where "sys_pc s t = GotNext ref a" "heap (sys_proc s) (ref_logBuf ref) = Some b"
      "a \<noteq> ref_logBuf ref"
      "s' = goto t (Logging (ref\<lparr>ref_logBuf := a, ref_buf := a, ref_events := 0,
           ref_nextRdtscTime := BATCH_SIZE\<rparr>))
         (store_buf (ref_logBuf ref) (b\<lparr>eb_events := ref_events ref, eb_closed := True\<rparr>) (sys_proc s)) s"
    | ref b where "sys_pc s t = Logging ref" "heap (sys_proc s) (ref_logBuf ref) = Some b"
      "s' = goto t Idle (store_buf (ref_logBuf ref)
         (b\<lparr>eb_events := ref_events ref, eb_nextRdtscTime := ref_nextRdtscTime ref\<rparr>) (sys_proc s)) s"
    | p where "sys_pc s t = Idle" "destroy_context tlocal t (sys_proc s) = Inr p"
      "s' = goto t Exited p s"
    | "tlocal" "sys_pc s t = Exited" "thr_context (sys_proc s) t \<noteq> None" "mgr_alive (sys_proc s) t"
      "s' = goto t Exited (BufferManager_dtor t (sys_proc s)) s"
proof -
  note digest = eq_commute [of "Inr s'"] and_then_Inr_iff
  from assms show ?thesis
  proof (cases rule: app_step_rules)
    case (begin_run cur)
    show ?thesis by (rule that(1)) (use begin_run in simp_all)
  next
    case first_buffer
    then show ?thesis by (auto simp: digest intro: that(2))
  next
    case (take_ref a)
    then show ?thesis
      by (auto simp: digest getRef_def new_Ref_def load_buf_Inr_iff intro: that(3))
  next
    case (load ref cur)
    show ?thesis by (rule that(4)) (use load in simp_all)
  next
    case (store ref curBuf pc addr val)
    let ?w = "encode_src_loc pc addr val"
    from store obtain p where w: "write_slot (ref_buf ref) (ref_events ref) ?w (sys_proc s) = Inr p"
      and s': "s' = goto t (after_store ref curBuf) p s"
      by (auto simp: digest after_store_def int_add_Inr_iff Let_def split: if_splits)
    from w obtain b where b: "heap (sys_proc s) (ref_buf ref) = Some b" "0 \<le> ref_events ref"
      "ref_events ref < BUF_LEN"
      "p = store_buf (ref_buf ref) (b\<lparr>eb_buf := (eb_buf b)(ref_events ref \<mapsto> ?w)\<rparr>) (sys_proc s)"
      by (rule write_slot_InrE)
    show ?thesis by (rule that(5) [OF store(2) b(1-3) s' [unfolded b(4)]])
  next
    case (reclaimed ref)
    show ?thesis by (rule that(6)) (use reclaimed in \<open>simp_all\<close>)
  next
    case (deadline ref b)
    show ?thesis
    proof (cases "MAX_EVENTS \<le> ref_events ref")
      case True
      with deadline show ?thesis
        by (auto simp: digest MAX_EVENTS_def int_add_Inr_iff Let_def intro: that(7))
    next
      case False
      show ?thesis
        by (rule that(8)) (use deadline False in \<open>auto simp: digest MAX_EVENTS_def int_add_Inr_iff Let_def\<close>)
    qed
  next
    case (new_buffer ref)
    then show ?thesis by (auto simp: digest intro: that(9))
  next
    case (switch ref a)
    then obtain ref1 p where "updateLogBuffer ref (Some a) (sys_proc s) = Inr (ref1, p)"
      and s': "s' = goto t (Logging ref1) p s" by (auto simp: digest)
    from this(1) obtain b where b: "heap (sys_proc s) (ref_logBuf ref) = Some b" "a \<noteq> ref_logBuf ref"
      "ref1 = ref\<lparr>ref_logBuf := a, ref_buf := a, ref_events := 0, ref_nextRdtscTime := BATCH_SIZE\<rparr>"
      "p = store_buf (ref_logBuf ref) (b\<lparr>eb_events := ref_events ref, eb_closed := True\<rparr>) (sys_proc s)"
      by (rule updateLogBuffer_InrE)
    show ?thesis by (rule that(10) [OF switch(2) b(1,2) s' [unfolded b(3,4)]])
  next
    case (end_run ref)
    then obtain p where "destroy_Ref ref (sys_proc s) = Inr p" and s': "s' = goto t Idle p s"
      by (auto simp: digest)
    from this(1) obtain b where b: "heap (sys_proc s) (ref_logBuf ref) = Some b"
      "p = store_buf (ref_logBuf ref)
         (b\<lparr>eb_events := ref_events ref, eb_nextRdtscTime := ref_nextRdtscTime ref\<rparr>) (sys_proc s)"
      by (rule destroy_Ref_InrE)
    show ?thesis by (rule that(11) [OF end_run(2) b(1) s' [unfolded b(2)]])
  next
    case exit_thread
    then show ?thesis by (auto simp: digest intro: that(12))
  next
    case destroy_manager
    show ?thesis by (rule that(13)) (use destroy_manager in \<open>simp_all add: buf_manager_of_def\<close>)
  qed
qed

end
