(* ===== verification/Conservation.thy ===== *)
theory Conservation
  imports Concurrent
begin

text \<open>
  The invariant of the concurrent runtime, and its managers' part: every buffer is in exactly one
  place and the managers' counters are right, before and after every method.
\<close>

section \<open>Invariants\<close>

abbreviation mgr_of :: "bool \<Rightarrow> nat \<Rightarrow> process \<Rightarrow> BufferManager" where
  "mgr_of tlocal t p \<equiv> buf_manager p (buf_manager_of tlocal t)"

text \<open>Every buffer is in one place of one manager.\<close>

definition pools_ok :: "process \<Rightarrow> bool" where
  "pools_ok p \<longleftrightarrow>
     (\<forall>a. heap p a \<noteq> None \<longleftrightarrow> a < next_addr p)
     \<and> (\<forall>a. a < next_addr p \<longleftrightarrow> (\<exists>m. a \<in># pool m p))
     \<and> (\<forall>m m' a. a \<in># pool m p \<longrightarrow> a \<in># pool m' p \<longrightarrow> m = m')
     \<and> (\<forall>m a. count (pool m p) a \<le> 1)"

text \<open>
  \<open>activeWorkers\<close> counts the workers that have not returned their buffers, never more than
  \<open>MAX_WORKERS\<close>; epochs only grow.
\<close>

definition active :: "nat \<Rightarrow> process \<Rightarrow> nat" where
  "active m p = length (filter (\<lambda>w. w_manager w = m \<and> w_phase w \<noteq> Finished) (workers p))"

definition managers_ok :: "process \<Rightarrow> bool" where
  "managers_ok p \<longleftrightarrow> (\<forall>m. activeWorkers (buf_manager p m) = int (active m p)
     \<and> int (active m p) \<le> MAX_WORKERS
     \<and> 0 \<le> bm_epoch (buf_manager p m) \<and> bm_epoch (buf_manager p m) \<le> INT_MAX)"

text \<open>The pointers of a thread, for each place it can be at.\<close>

definition at_ref :: "process \<Rightarrow> nat \<Rightarrow> Ref \<Rightarrow> bool" where
  "at_ref p t ref \<longleftrightarrow> ctx_buf p t = Some (ref_logBuf ref) \<and> ref_buf ref = ref_logBuf ref"

fun pc_ok :: "process \<Rightarrow> nat \<Rightarrow> app_pc \<Rightarrow> bool" where
  "pc_ok p t Idle = True"
| "pc_ok p t (GotBuf None) = (log_buffer p t = None)"
| "pc_ok p t (GotBuf (Some a)) = (ctx_buf p t = Some a)"
| "pc_ok p t (Logging ref) = at_ref p t ref"
| "pc_ok p t (Loaded ref cur) = (at_ref p t ref \<and> (cur = None \<longrightarrow> log_buffer p t = None))"
| "pc_ok p t (Slow ref cur) = (at_ref p t ref \<and> (cur = None \<longrightarrow> log_buffer p t = None))"
| "pc_ok p t (NeedBuf ref) = (at_ref p t ref \<and> log_buffer p t = None)"
| "pc_ok p t (GotNext ref a) = (ctx_buf p t = Some a \<and> ref_buf ref = ref_logBuf ref
     \<and> heap p (ref_logBuf ref) \<noteq> None)"
| "pc_ok p t Exited = True"

text \<open>
  A thread's pointer is null or names the buffer that its context names, allocated from its
  manager in the current epoch and registered for reclamation.
\<close>

definition thread_ok :: "bool \<Rightarrow> process \<Rightarrow> nat \<Rightarrow> app_pc \<Rightarrow> bool" where
  "thread_ok tlocal p t pc \<longleftrightarrow> pc \<noteq> Exited \<longrightarrow>
     mgr_alive p (buf_manager_of tlocal t)
     \<and> (\<forall>a. ctx_buf p t = Some a \<longrightarrow> heap p a \<noteq> None)
     \<and> (\<forall>a. log_buffer p t = Some a \<longrightarrow> ctx_buf p t = Some a \<and> t \<in> tlsBufAddrs (mgr_of tlocal t p)
          \<and> a \<in> set (allocatedBufs (mgr_of tlocal t p))
          \<and> eb_epoch (the (heap p a)) = bm_epoch (mgr_of tlocal t p))
     \<and> pc_ok p t pc"

definition registered_ok :: "bool \<Rightarrow> system \<Rightarrow> bool" where
  "registered_ok tlocal s \<longleftrightarrow>
     (\<forall>m t. t \<in> tlsBufAddrs (buf_manager (sys_proc s) m) \<longrightarrow>
        m = buf_manager_of tlocal t \<and> sys_pc s t \<noteq> Exited \<and> log_buffer (sys_proc s) t \<noteq> None)"

definition sys_ok :: "bool \<Rightarrow> system \<Rightarrow> bool" where
  "sys_ok tlocal s \<longleftrightarrow> pools_ok (sys_proc s) \<and> managers_ok (sys_proc s) \<and> registered_ok tlocal s
     \<and> (\<forall>t. thread_ok tlocal (sys_proc s) t (sys_pc s t))"

lemma sys_ok_init: "sys_ok tlocal init_system"
  by (simp add: sys_ok_def init_system_def init_process_def pools_ok_def managers_ok_def
      registered_ok_def thread_ok_def pool_def active_def new_BufferManager_def MAX_WORKERS_def
      ctx_buf_def)

section \<open>Places of buffers\<close>

lemma in_pool_iff:
  "a \<in># pool m p \<longleftrightarrow> a \<in> set (freeBufs (buf_manager p m)) \<or> a \<in> set (allocatedBufs (buf_manager p m))
     \<or> (\<exists>w \<in> set (workers p). w_manager w = m \<and> w_phase w \<noteq> Finished \<and> a \<in> set (w_buffers w))"
  by (auto simp: pool_def worker_holds_def in_sum_list_iff split: if_splits)

lemma count_pool:
  "count (pool m p) a = count (mset (freeBufs (buf_manager p m))) a
     + count (mset (allocatedBufs (buf_manager p m))) a
     + count (\<Sum>w\<leftarrow>workers p. worker_holds m w) a"
  by (simp add: pool_def)

lemma pools_okD:
  assumes "pools_ok p"
  shows "heap p a \<noteq> None \<longleftrightarrow> a < next_addr p" and "a < next_addr p \<longleftrightarrow> (\<exists>m. a \<in># pool m p)"
    and "a \<in># pool m p \<Longrightarrow> a \<in># pool m' p \<Longrightarrow> m = m'" and "count (pool m p) a \<le> 1"
    and "a \<in># pool m p \<Longrightarrow> heap p a \<noteq> None"
  using assms by (auto simp: pools_ok_def)

lemma free_not_alloc:
  assumes "pools_ok p" and "a \<in> set (freeBufs (buf_manager p m))"
  shows "a \<notin> set (allocatedBufs (buf_manager p m'))"
proof
  assume alloc: "a \<in> set (allocatedBufs (buf_manager p m'))"
  with assms have same: "m' = m" by (intro pools_okD(3)) (auto simp: in_pool_iff)
  from count_ge_1 [OF assms(2)] count_ge_1 [OF alloc [unfolded same]] have "2 \<le> count (pool m p) a"
    unfolding count_pool by linarith
  with pools_okD(4) [OF assms(1), of m a] show False by simp
qed

lemma free_not_worker:
  assumes "pools_ok p" and "a \<in> set (freeBufs (buf_manager p m))"
    and "w \<in> set (workers p)" and "w_phase w \<noteq> Finished"
  shows "a \<notin> set (w_buffers w)"
proof
  assume held: "a \<in> set (w_buffers w)"
  with assms have "m = w_manager w" by (intro pools_okD(3)) (auto simp: in_pool_iff)
  with held assms have "a \<in># (\<Sum>w\<leftarrow>workers p. worker_holds m w)"
    by (auto simp: in_sum_list_iff worker_holds_def)
  then have "1 \<le> count (\<Sum>w\<leftarrow>workers p. worker_holds m w) a"
    by (simp only: One_nat_def Suc_le_eq count_greater_zero_iff)
  with count_ge_1 [OF assms(2)] have "2 \<le> count (pool m p) a" unfolding count_pool by linarith
  with pools_okD(4) [OF assms(1), of m a] show False by simp
qed

lemma free_last_butlast:
  assumes "pools_ok p" and "freeBufs (buf_manager p m) \<noteq> []"
  shows "last (freeBufs (buf_manager p m)) \<notin> set (butlast (freeBufs (buf_manager p m)))"
proof
  let ?f = "freeBufs (buf_manager p m)"
  assume "last ?f \<in> set (butlast ?f)"
  then have "1 \<le> count (mset (butlast ?f)) (last ?f)" by (rule count_ge_1)
  moreover have "count (mset ?f) (last ?f) = Suc (count (mset (butlast ?f)) (last ?f))"
    by (metis assms(2) mset_butlast_last add_mset_add_single count_add_mset)
  ultimately have "2 \<le> count (pool m p) (last ?f)" unfolding count_pool by linarith
  with pools_okD(4) [OF assms(1), of m "last ?f"] show False by simp
qed

text \<open>The buffer that \<open>allocBuffer\<close> hands out was in no other place.\<close>

lemma allocBuffer_unowned:
  assumes "pools_ok p" and "allocBuffer this t p = Inr (a, p')"
  shows "a \<notin> set (allocatedBufs (buf_manager p m))"
    and "w \<in> set (workers p) \<Longrightarrow> w_phase w \<noteq> Finished \<Longrightarrow> a \<notin> set (w_buffers w)"
    and "a \<in> set (freeBufs (buf_manager p this)) \<or> heap p a = None"
proof -
  from allocBuffer_effects(10) [OF assms(2)]
  have *: "a \<in> set (freeBufs (buf_manager p this)) \<or> a = next_addr p" by auto
  show "a \<in> set (freeBufs (buf_manager p this)) \<or> heap p a = None"
    using * pools_okD(1) [OF assms(1), of a] by auto
  have new: "\<not> (\<exists>m. next_addr p \<in># pool m p)"
    using pools_okD(2) [OF assms(1), of "next_addr p"] by simp
  then have "next_addr p \<notin> set (allocatedBufs (buf_manager p m))" by (auto simp: in_pool_iff)
  with * show "a \<notin> set (allocatedBufs (buf_manager p m))"
    using free_not_alloc [OF assms(1)] by blast
  assume w: "w \<in> set (workers p)" "w_phase w \<noteq> Finished"
  with new have "next_addr p \<notin> set (w_buffers w)" by (auto simp: in_pool_iff)
  with * w show "a \<notin> set (w_buffers w)" using free_not_worker [OF assms(1)] by blast
qed

section \<open>The managers' part of the invariant\<close>

lemma pools_ok_cong:
  assumes "pools_ok p" and "\<And>a. heap p' a = None \<longleftrightarrow> heap p a = None"
    and "next_addr p' = next_addr p" and "\<And>m. pool m p' = pool m p"
  shows "pools_ok p'"
  using assms by (simp add: pools_ok_def)

lemma pools_ok_allocBuffer:
  assumes "pools_ok p" and call: "allocBuffer this t p = Inr (a, p')"
  shows "pools_ok p'"
proof (cases "freeBufs (buf_manager p this) = []")
  case False
  with allocBuffer_effects(10) [OF call] have a: "heap p a \<noteq> None" "next_addr p' = next_addr p"
    by auto
  moreover from a(1) allocBuffer_effects(3) [OF call]
  have "heap p' x = None \<longleftrightarrow> heap p x = None" for x by (auto split: if_splits)
  ultimately show ?thesis
    using False pool_allocBuffer [OF call] by (intro pools_ok_cong [OF assms(1)]) auto
next
  case True
  with allocBuffer_effects(10) [OF call] have a: "a = next_addr p" "next_addr p' = Suc a" by auto
  have pool: "pool m p' = pool m p + (if m = this then {#a#} else {#})" for m
    using pool_allocBuffer [OF call, of m] True a by auto
  have new: "a \<notin># pool m p" for m
    using pools_okD(2) [OF assms(1), of a] a by auto
  then have zero: "count (pool m p) a = 0" for m by (simp add: not_in_iff)
  have heap: "heap p' x \<noteq> None \<longleftrightarrow> x = a \<or> heap p x \<noteq> None" for x
    using allocBuffer_effects(3) [OF call] by auto
  show ?thesis
    unfolding pools_ok_def
  proof (intro conjI allI impI)
    fix x
    show "heap p' x \<noteq> None \<longleftrightarrow> x < next_addr p'"
      using heap [of x] pools_okD(1) [OF assms(1), of x] a by auto
    show "x < next_addr p' \<longleftrightarrow> (\<exists>m. x \<in># pool m p')"
      using pools_okD(2) [OF assms(1), of x] a by (auto simp: pool less_Suc_eq split: if_splits)
  next
    fix m m' x
    assume "x \<in># pool m p'" "x \<in># pool m' p'"
    with new show "m = m'"
      using pools_okD(3) [OF assms(1), of x m m'] by (auto simp: pool split: if_splits)
  next
    fix m x
    show "count (pool m p') x \<le> 1"
      using zero [of m] pools_okD(4) [OF assms(1), of m x] by (cases "x = a") (auto simp: pool)
  qed
qed

lemma pools_ok_tryIncEpoch:
  assumes "pools_ok p" and "tryIncEpoch this ref p = Inr (won, p')"
  shows "pools_ok p'"
proof (cases won)
  case True
  with assms(2) have won: "tryIncEpoch this ref p = Inr (True, p')" by simp
  show ?thesis
    by (rule pools_ok_cong [OF assms(1)])
      (simp_all add: tryIncEpoch_effects(1,2) [OF won] pool_tryIncEpoch [OF assms(2)])
next
  case False
  with assms show ?thesis by (auto elim: tryIncEpoch_cases)
qed

lemma threadExit_heap:
  assumes "threadExit this t p = Inr p'"
  shows "heap p' a = None \<longleftrightarrow> heap p a = None"
proof (cases "ctx_logBuffer (fst (tls_context t p))")
  case None
  with threadExit_effects(9) [OF assms] show ?thesis by simp
next
  case (Some c)
  with threadExit_effects(10) [OF assms] obtain b
    where "heap p c = Some b" "heap p' = (heap p)(c \<mapsto> b\<lparr>eb_closed := True\<rparr>)" by blast
  then show ?thesis by simp
qed

lemma pools_ok_threadExit:
  assumes "pools_ok p" and "threadExit this t p = Inr p'"
  shows "pools_ok p'"
  by (rule pools_ok_cong [OF assms(1)])
    (simp_all add: pool_threadExit [OF assms(2)] threadExit_heap [OF assms(2)]
      threadExit_effects(2) [OF assms(2)])

lemma worker_step_effects:
  assumes "worker_step k p = Inr p'"
  shows "heap p' = heap p" and "next_addr p' = next_addr p" and "log_buffer p' = log_buffer p"
    and "thr_context p' = thr_context p" and "mgr_alive p' = mgr_alive p"
    and "allocatedBufs (buf_manager p' m) = allocatedBufs (buf_manager p m)"
    and "tlsBufAddrs (buf_manager p' m) = tlsBufAddrs (buf_manager p m)"
    and "bm_epoch (buf_manager p' m) = bm_epoch (buf_manager p m)"
proof -
  from assms have "heap p' = heap p \<and> next_addr p' = next_addr p \<and> log_buffer p' = log_buffer p
    \<and> thr_context p' = thr_context p \<and> mgr_alive p' = mgr_alive p
    \<and> allocatedBufs (buf_manager p' m) = allocatedBufs (buf_manager p m)
    \<and> tlsBufAddrs (buf_manager p' m) = tlsBufAddrs (buf_manager p m)
    \<and> bm_epoch (buf_manager p' m) = bm_epoch (buf_manager p m)"
  proof (cases rule: worker_step_cases)
    case (give_back p1)
    then show ?thesis using release_effects(2) [OF give_back(2)] by simp
  qed simp_all
  then show "heap p' = heap p" "next_addr p' = next_addr p" "log_buffer p' = log_buffer p"
    "thr_context p' = thr_context p" "mgr_alive p' = mgr_alive p"
    "allocatedBufs (buf_manager p' m) = allocatedBufs (buf_manager p m)"
    "tlsBufAddrs (buf_manager p' m) = tlsBufAddrs (buf_manager p m)"
    "bm_epoch (buf_manager p' m) = bm_epoch (buf_manager p m)" by simp_all
qed

lemma pools_ok_worker_step:
  assumes "pools_ok p" and "k < length (workers p)" and "worker_step k p = Inr p'"
  shows "pools_ok p'"
  by (rule pools_ok_cong [OF assms(1)])
    (simp_all add: pool_worker_step [OF assms(3,2)] worker_step_effects(1,2) [OF assms(3)])


section \<open>Workers and epochs\<close>

lemma managers_okD:
  assumes "managers_ok p"
  shows "activeWorkers (buf_manager p m) = int (active m p)"
    and "activeWorkers (buf_manager p m) \<le> MAX_WORKERS"
    and "0 \<le> bm_epoch (buf_manager p m)" and "bm_epoch (buf_manager p m) \<le> INT_MAX"
  using assms unfolding managers_ok_def by simp_all

lemma managers_ok_cong:
  assumes "managers_ok p" and "workers p' = workers p"
    and "\<And>m. activeWorkers (buf_manager p' m) = activeWorkers (buf_manager p m)"
    and "\<And>m. bm_epoch (buf_manager p' m) = bm_epoch (buf_manager p m)"
  shows "managers_ok p'"
  using assms by (simp add: managers_ok_def active_def)

lemma tryIncEpoch_bound:
  "tryIncEpoch this ref p = Inr (True, p') \<Longrightarrow> bm_epoch (buf_manager p this) + 1 \<le> INT_MAX"
  by (auto simp: tryIncEpoch_def and_then_Inr_iff Let_def int_add_Inr_iff split: if_splits)

lemma managers_ok_tryIncEpoch:
  assumes "managers_ok p" and call: "tryIncEpoch this ref p = Inr (won, p')"
  shows "managers_ok p'"
proof (cases won)
  case False
  with assms show ?thesis by (auto elim: tryIncEpoch_cases)
next
  case True
  with call have won: "tryIncEpoch this ref p = Inr (True, p')" by simp
  note epoch = tryIncEpoch_bound [OF won]
  show ?thesis
  proof (cases "activeWorkers (buf_manager p this) < MAX_WORKERS")
    case True
    note eff = tryIncEpoch_effects(6) [OF won True]
    from eff have "active m p' = active m p + (if m = this then 1 else 0)" for m
      by (simp add: active_def)
    with eff True epoch assms(1) show ?thesis by (simp add: managers_ok_def)
  next
    case False
    note eff = tryIncEpoch_effects(7) [OF won False]
    from eff have "active m p' = active m p" for m by (simp add: active_def)
    with eff epoch assms(1) show ?thesis by (simp add: managers_ok_def)
  qed
qed

lemma length_filter_update:
  "k < length xs \<Longrightarrow>
   length (filter P (xs[k := x])) + (if P (xs ! k) then 1 else 0)
     = length (filter P xs) + (if P x then 1 else 0)"
proof (induction xs arbitrary: k)
  case Nil
  then show ?case by simp
next
  case (Cons y ys)
  then show ?case by (cases k) (auto split: if_splits)
qed

lemma active_set_worker:
  assumes "k < length (workers p)" and "w_phase (workers p ! k) \<noteq> Finished"
  shows "active m (set_worker k ph p)
    + (if ph = Finished \<and> w_manager (workers p ! k) = m then 1 else 0) = active m p"
  using length_filter_update [OF assms(1), of "\<lambda>w. w_manager w = m \<and> w_phase w \<noteq> Finished"
      "(workers p ! k)\<lparr>w_phase := ph\<rparr>"] assms(2)
  by (auto simp: active_def split: if_splits)

lemma managers_ok_worker_step:
  assumes "managers_ok p" and "k < length (workers p)" and "worker_step k p = Inr p'"
  shows "managers_ok p'"
  using assms(3)
proof (cases rule: worker_step_cases)
  case stutter
  with assms(1) show ?thesis by simp
next
  case (advance i b)
  with assms(1) active_set_worker [OF assms(2), of _ "Waiting (Suc i)"] show ?thesis
    by (simp add: managers_ok_def)
next
  case (count i n)
  then have "active m p' = active m p" for m
    using active_set_worker [OF assms(2), of m Releasing] by (simp add: active_def)
  with assms(1) count show ?thesis by (simp add: managers_ok_def)
next
  case (give_back p1)
  note rel = release_effects(2) [OF give_back(2)]
  have step: "active m p' + (if w_manager (workers p ! k) = m then 1 else 0) = active m p" for m
    using active_set_worker [of k p m Finished] assms(2) give_back(1)
    by (simp add: active_def give_back(3) rel)
  have active: "int (active m p') = int (active m p)
      - (if w_manager (workers p ! k) = m then 1 else 0)" for m
    unfolding step [of m, symmetric] by simp
  show ?thesis
    unfolding managers_ok_def
  proof (intro allI conjI)
    fix m
    show "activeWorkers (buf_manager p' m) = int (active m p')"
    proof -
      have "activeWorkers (buf_manager p' m) = activeWorkers (buf_manager p m)
          - (if w_manager (workers p ! k) = m then 1 else 0)"
        by (simp add: give_back(3) rel)
      with managers_okD(1) [OF assms(1), of m] active [of m] show ?thesis by linarith
    qed
    show "int (active m p') \<le> MAX_WORKERS"
      using managers_okD(1,2) [OF assms(1), of m] by (simp add: active)
    show "0 \<le> bm_epoch (buf_manager p' m)" "bm_epoch (buf_manager p' m) \<le> INT_MAX"
      using managers_okD(3,4) [OF assms(1), of m] by (simp_all add: worker_step_effects(8) [OF assms(3)])
  qed
qed

end
