(* ===== verification/Invariants.thy ===== *)
theory Invariants
  imports Conservation
begin

text \<open>
  Every step of every thread and worker keeps the invariant, whether or not an epoch is skipped; what
  it says of the buffers, the workers, the registered threads and \<open>allocBuffer\<close>.
\<close>

section \<open>The threads' part of the invariant\<close>

text \<open>What a step of one thread must keep for another thread \<open>u\<close>.\<close>

lemma thread_ok_frame:
  assumes "thread_ok tlocal p u pc" and "thr_context p' u = thr_context p u"
    and "mgr_alive p' (buf_manager_of tlocal u) = mgr_alive p (buf_manager_of tlocal u)"
    and "\<And>a. heap p a \<noteq> None \<Longrightarrow> heap p' a \<noteq> None"
    and "log_buffer p' u = None \<or> log_buffer p' u = log_buffer p u"
    and "\<And>a. log_buffer p' u = Some a \<Longrightarrow> log_buffer p u = Some a \<Longrightarrow>
      u \<in> tlsBufAddrs (mgr_of tlocal u p) \<Longrightarrow> a \<in> set (allocatedBufs (mgr_of tlocal u p)) \<Longrightarrow>
      u \<in> tlsBufAddrs (mgr_of tlocal u p') \<and> a \<in> set (allocatedBufs (mgr_of tlocal u p'))
      \<and> eb_epoch (the (heap p' a)) = eb_epoch (the (heap p a))
      \<and> bm_epoch (mgr_of tlocal u p') = bm_epoch (mgr_of tlocal u p)"
  shows "thread_ok tlocal p' u pc"
proof (cases "pc = Exited")
  case True
  then show ?thesis by (simp add: thread_ok_def)
next
  case False
  have ctx: "ctx_buf p' u = ctx_buf p u" by (simp add: ctx_buf_def assms(2))
  from assms(1) False have old: "mgr_alive p (buf_manager_of tlocal u)"
    "\<forall>a. ctx_buf p u = Some a \<longrightarrow> heap p a \<noteq> None" "pc_ok p u pc" by (auto simp: thread_ok_def)
  have "pc_ok p' u pc"
    using old(3) assms(4,5) by (cases "(p', u, pc)" rule: pc_ok.cases) (auto simp: ctx at_ref_def)
  moreover have "\<forall>a. log_buffer p' u = Some a \<longrightarrow> ctx_buf p u = Some a
      \<and> u \<in> tlsBufAddrs (mgr_of tlocal u p') \<and> a \<in> set (allocatedBufs (mgr_of tlocal u p'))
      \<and> eb_epoch (the (heap p' a)) = bm_epoch (mgr_of tlocal u p')"
  proof (intro allI impI)
    fix a assume a: "log_buffer p' u = Some a"
    with assms(5) have "log_buffer p u = Some a" by simp
    with assms(1) False assms(6) [OF a this]
    show "ctx_buf p u = Some a
      \<and> u \<in> tlsBufAddrs (mgr_of tlocal u p') \<and> a \<in> set (allocatedBufs (mgr_of tlocal u p'))
      \<and> eb_epoch (the (heap p' a)) = bm_epoch (mgr_of tlocal u p')" by (simp add: thread_ok_def)
  qed
  ultimately show ?thesis
    using old(1,2) assms(3,4) by (simp add: thread_ok_def ctx)
qed

text \<open>What a step of thread \<open>t\<close> leaves for all the others.\<close>

definition shared_ok :: "bool \<Rightarrow> nat \<Rightarrow> system \<Rightarrow> process \<Rightarrow> bool" where
  "shared_ok tlocal t s p' \<longleftrightarrow> pools_ok p' \<and> managers_ok p'
     \<and> (\<forall>m u. u \<in> tlsBufAddrs (buf_manager p' m) \<longrightarrow> m = buf_manager_of tlocal u
          \<and> (u \<noteq> t \<longrightarrow> sys_pc s u \<noteq> Exited) \<and> log_buffer p' u \<noteq> None)
     \<and> (\<forall>u. u \<noteq> t \<longrightarrow> thread_ok tlocal p' u (sys_pc s u))"

lemma sys_ok_goto:
  assumes "shared_ok tlocal t s p'" and "thread_ok tlocal p' t pc"
    and "pc = Exited \<Longrightarrow> t \<notin> tlsBufAddrs (mgr_of tlocal t p')"
  shows "sys_ok tlocal (goto t pc p' s)"
  using assms by (auto simp: sys_ok_def shared_ok_def registered_ok_def)

lemma sys_okD:
  assumes "sys_ok tlocal s"
  shows "pools_ok (sys_proc s)" and "managers_ok (sys_proc s)" and "registered_ok tlocal s"
    and "thread_ok tlocal (sys_proc s) t (sys_pc s t)"
  using assms by (simp_all add: sys_ok_def)

lemma shared_ok_same: "sys_ok tlocal s \<Longrightarrow> shared_ok tlocal t s (sys_proc s)"
  by (auto simp: sys_ok_def shared_ok_def registered_ok_def)

lemma pools_ok_store:
  "pools_ok p \<Longrightarrow> heap p a \<noteq> None \<Longrightarrow> pools_ok (store_buf a b p)"
  by (rule pools_ok_cong) auto

lemma shared_ok_store:
  assumes "sys_ok tlocal s" and "heap (sys_proc s) a = Some b" and "eb_epoch b' = eb_epoch b"
  shows "shared_ok tlocal t s (store_buf a b' (sys_proc s))"
proof -
  have "thread_ok tlocal (store_buf a b' (sys_proc s)) u (sys_pc s u)" for u
    using sys_okD(4) [OF assms(1), of u] assms(2,3)
    by (elim thread_ok_frame) (auto split: if_splits)
  moreover have "managers_ok (store_buf a b' (sys_proc s))"
    using sys_okD(2) [OF assms(1)] by (rule managers_ok_cong) simp_all
  ultimately show ?thesis
    using sys_okD(1,3) [OF assms(1)] assms(2)
    by (auto simp: shared_ok_def registered_ok_def intro: pools_ok_store)
qed

lemma shared_ok_allocBuffer:
  assumes "sys_ok tlocal s" and "sys_pc s t \<noteq> Exited"
    and call: "allocBuffer (buf_manager_of tlocal t) t (sys_proc s) = Inr (a, p')"
  shows "shared_ok tlocal t s p'"
proof -
  let ?p = "sys_proc s"
  note eff = allocBuffer_effects [OF call]
  from eff(3) obtain b where heap: "heap p' = (heap ?p)(a \<mapsto> b)" by blast
  have other: "x \<noteq> a" if "x \<in> set (allocatedBufs (buf_manager ?p m))" for x m
    using that allocBuffer_unowned(1) [OF sys_okD(1) [OF assms(1)] call] by auto
  have "thread_ok tlocal p' u (sys_pc s u)" if "u \<noteq> t" for u
    using sys_okD(4) [OF assms(1), of u] that
    by (elim thread_ok_frame)
      (auto simp: eff heap dest: other)
  moreover have "managers_ok p'"
    using sys_okD(2) [OF assms(1)] by (rule managers_ok_cong) (simp_all add: eff)
  ultimately show ?thesis
    using pools_ok_allocBuffer [OF sys_okD(1) [OF assms(1)] call] sys_okD(3) [OF assms(1)]
    by (auto simp: shared_ok_def registered_ok_def eff split: if_splits)
qed

lemma shared_ok_tryIncEpoch:
  assumes "sys_ok tlocal s" and "sys_pc s t \<noteq> Exited"
    and call: "tryIncEpoch (buf_manager_of tlocal t) ref (sys_proc s) = Inr (won, p')"
  shows "shared_ok tlocal t s p'"
proof (cases won)
  case False
  with call assms(1) show ?thesis by (auto elim: tryIncEpoch_cases intro: shared_ok_same)
next
  case True
  let ?p = "sys_proc s" and ?m0 = "buf_manager_of tlocal t"
  from True call have won: "tryIncEpoch ?m0 ref ?p = Inr (True, p')" by simp
  note eff = tryIncEpoch_effects [OF won]
  have mgr: "tlsBufAddrs (buf_manager p' m) = (if m = ?m0 then {} else tlsBufAddrs (buf_manager ?p m))"
    "m \<noteq> ?m0 \<Longrightarrow> buf_manager p' m = buf_manager ?p m" for m
    using eff(6,7) by (cases "activeWorkers (mgr_of tlocal t ?p) < MAX_WORKERS"; simp)+
  have "thread_ok tlocal p' u (sys_pc s u)" for u
  proof (rule thread_ok_frame [OF sys_okD(4) [OF assms(1), of u]])
    fix a
    assume "log_buffer p' u = Some a" "u \<in> tlsBufAddrs (mgr_of tlocal u ?p)"
    then have "buf_manager_of tlocal u \<noteq> ?m0" by (auto simp: eff(5) split: if_splits)
    with mgr(2) show "a \<in> set (allocatedBufs (mgr_of tlocal u ?p)) \<Longrightarrow>
      u \<in> tlsBufAddrs (mgr_of tlocal u p') \<and> a \<in> set (allocatedBufs (mgr_of tlocal u p'))
      \<and> eb_epoch (the (heap p' a)) = eb_epoch (the (heap ?p a))
      \<and> bm_epoch (mgr_of tlocal u p') = bm_epoch (mgr_of tlocal u ?p)"
      using \<open>u \<in> tlsBufAddrs (mgr_of tlocal u ?p)\<close> by (simp add: eff(1))
  qed (simp_all add: eff(1-5))
  moreover have "m = ?m0" if "u \<in> tlsBufAddrs (buf_manager ?p m)" "u \<in> tlsBufAddrs (buf_manager ?p ?m0)"
    for u m
    using that sys_okD(3) [OF assms(1)] unfolding registered_ok_def by metis
  ultimately show ?thesis
    using pools_ok_tryIncEpoch [OF sys_okD(1) [OF assms(1)] call]
      managers_ok_tryIncEpoch [OF sys_okD(2) [OF assms(1)] call] sys_okD(3) [OF assms(1)]
    by (auto simp: shared_ok_def registered_ok_def mgr(1) eff(5) split: if_splits)
qed

lemma destroy_context_cases:
  assumes "destroy_context tlocal t p = Inr p'"
  obtains (none) "thr_context p t = None" "p' = p"
    | (some) p1 c where "thr_context p t = Some c"
      "threadExit (buf_manager_of tlocal t) t p = Inr p1"
      "p' = p1\<lparr>printed := printed p1 @ [ContextDestroyed]\<rparr>"
  using assms
  by (auto simp: destroy_context_def Context_dtor_def and_then_Inr_iff split: if_splits)

lemma shared_ok_exit:
  assumes "sys_ok tlocal s" and "sys_pc s t \<noteq> Exited"
    and call: "destroy_context tlocal t (sys_proc s) = Inr p'"
  shows "shared_ok tlocal t s p' \<and> t \<notin> tlsBufAddrs (mgr_of tlocal t p')"
  using call
proof (cases rule: destroy_context_cases)
  case none
  then have "ctx_buf (sys_proc s) t = None" by (simp add: ctx_buf_def)
  with sys_okD(4) [OF assms(1), of t] assms(2) have "log_buffer (sys_proc s) t = None"
    by (cases "log_buffer (sys_proc s) t") (auto simp: thread_ok_def)
  moreover have "log_buffer (sys_proc s) t \<noteq> None" if "t \<in> tlsBufAddrs (mgr_of tlocal t (sys_proc s))"
    using that sys_okD(3) [OF assms(1)] unfolding registered_ok_def by blast
  ultimately show ?thesis
    using none shared_ok_same [OF assms(1)] by auto
next
  case (some p1 c)
  let ?p = "sys_proc s" and ?m0 = "buf_manager_of tlocal t"
  note eff = threadExit_effects [OF some(2)]
  have p': "heap p' = heap p1" "next_addr p' = next_addr p1" "log_buffer p' = log_buffer ?p"
    "buf_manager p' = buf_manager p1" "workers p' = workers ?p"
    "thr_context p' = thr_context p1" by (simp_all add: some(3) eff)
  have heap: "heap p1 a = None \<longleftrightarrow> heap ?p a = None"
    "eb_epoch (the (heap p1 a)) = eb_epoch (the (heap ?p a))" for a
    using threadExit_heap [OF some(2)] eff(9) eff(10)
    by (auto, cases "ctx_logBuffer (fst (tls_context t ?p))") force+
  have "thread_ok tlocal p' u (sys_pc s u)" if "u \<noteq> t" for u
    using sys_okD(4) [OF assms(1), of u] that
    by (elim thread_ok_frame)
      (auto simp: p' eff(3,4,7) heap some(3) eff(5) buf_manager_of_def)
  moreover have "pools_ok p'"
    using pools_ok_threadExit [OF sys_okD(1) [OF assms(1)] some(2)]
    by (rule pools_ok_cong) (auto simp: p' pool_def eff(6))
  moreover have "managers_ok p'"
    using sys_okD(2) [OF assms(1)] by (rule managers_ok_cong) (simp_all add: p' eff)
  ultimately show ?thesis
    using sys_okD(3) [OF assms(1)]
    by (auto simp: shared_ok_def registered_ok_def p' eff(7) split: if_splits)
qed

lemma sys_ok_destroy:
  assumes "sys_ok True s" and "sys_pc s t = Exited"
  shows "sys_ok True (goto t Exited (BufferManager_dtor t (sys_proc s)) s)"
proof (rule sys_ok_goto)
  let ?p = "BufferManager_dtor t (sys_proc s)"
  have "pools_ok ?p" using sys_okD(1) [OF assms(1)] by (rule pools_ok_cong) (simp_all add: pool_def)
  moreover have "managers_ok ?p" using sys_okD(2) [OF assms(1)] by (rule managers_ok_cong) simp_all
  moreover have "thread_ok True ?p u (sys_pc s u)" if "u \<noteq> t" for u
    using sys_okD(4) [OF assms(1), of u]
    by (rule thread_ok_frame) (use that in \<open>simp_all add: buf_manager_of_def\<close>)
  ultimately show "shared_ok True t s ?p"
    using sys_okD(3) [OF assms(1)] by (auto simp: shared_ok_def registered_ok_def)
  show "t \<notin> tlsBufAddrs (mgr_of True t ?p)"
    using sys_okD(3) [OF assms(1)] assms(2) by (auto simp: registered_ok_def)
qed (simp add: thread_ok_def)

section \<open>Every step keeps the invariant\<close>

lemma thread_ok_running:
  "thread_ok tlocal p t pc \<Longrightarrow> pc \<noteq> Exited \<Longrightarrow> pc_ok p t pc' \<Longrightarrow> thread_ok tlocal p t pc'"
  by (simp add: thread_ok_def)

lemma thread_ok_pc: "thread_ok tlocal p t pc \<Longrightarrow> pc \<noteq> Exited \<Longrightarrow> pc_ok p t pc"
  by (simp add: thread_ok_def)

text \<open>A thread that moves on without touching shared state, or that stores into a buffer.\<close>

lemma sys_ok_move:
  assumes "sys_ok tlocal s" and "sys_pc s t \<noteq> Exited" and "pc_ok (sys_proc s) t pc" and "pc \<noteq> Exited"
  shows "sys_ok tlocal (goto t pc (sys_proc s) s)"
  using assms shared_ok_same [OF assms(1)] sys_okD(4) [OF assms(1), of t]
  by (intro sys_ok_goto) (auto intro: thread_ok_running)

lemma pc_ok_store:
  "pc_ok p t pc \<Longrightarrow> pc_ok (store_buf a b p) t pc"
  by (cases "(p, t, pc)" rule: pc_ok.cases) (auto simp: at_ref_def ctx_buf_def)

lemma sys_ok_store:
  assumes "sys_ok tlocal s" and "sys_pc s t \<noteq> Exited" and "heap (sys_proc s) a = Some b"
    and "eb_epoch b' = eb_epoch b" and "pc_ok (sys_proc s) t pc" and "pc \<noteq> Exited"
  shows "sys_ok tlocal (goto t pc (store_buf a b' (sys_proc s)) s)"
proof (rule sys_ok_goto [OF shared_ok_store [OF assms(1,3,4)]])
  have "thread_ok tlocal (sys_proc s) t pc"
    using sys_okD(4) [OF assms(1), of t] assms(2,5) by (rule thread_ok_running)
  then show "thread_ok tlocal (store_buf a b' (sys_proc s)) t pc"
    using assms(3,4) by (elim thread_ok_frame) (auto split: if_splits)
qed (use assms(6) in simp)

lemma allocBuffer_thread:
  assumes "sys_ok tlocal s" and "sys_pc s t \<noteq> Exited"
    and call: "allocBuffer (buf_manager_of tlocal t) t (sys_proc s) = Inr (a, p')"
  shows "ctx_buf p' t = Some a" and "pc_ok p' t pc \<Longrightarrow> thread_ok tlocal p' t pc"
    and "heap (sys_proc s) x \<noteq> None \<Longrightarrow> heap p' x \<noteq> None"
proof -
  note eff = allocBuffer_effects [OF call]
  from eff(3) obtain b where heap: "heap p' = (heap (sys_proc s))(a \<mapsto> b)"
    and b: "eb_epoch b = bm_epoch (mgr_of tlocal t (sys_proc s))" by (auto simp: fresh_buffer_def)
  show ctx: "ctx_buf p' t = Some a" by (simp add: ctx_buf_def eff(5))
  show "heap (sys_proc s) x \<noteq> None \<Longrightarrow> heap p' x \<noteq> None" by (simp add: heap)
  show "pc_ok p' t pc \<Longrightarrow> thread_ok tlocal p' t pc"
    using eff(1) b by (simp add: thread_ok_def ctx eff(4,6,7) heap)
qed

lemma tryIncEpoch_thread:
  assumes "sys_ok tlocal s" and "sys_pc s t = Slow ref (Some a)"
    and "ref_logBuf ref1 = ref_logBuf ref"
    and call: "tryIncEpoch (buf_manager_of tlocal t) ref1 (sys_proc s) = Inr (won, p')"
  shows "log_buffer p' t = None"
proof (cases "log_buffer (sys_proc s) t")
  case None
  with call show ?thesis
    by (cases won) (auto elim: tryIncEpoch_cases dest: tryIncEpoch_effects(5))
next
  case (Some c)
  with sys_okD(4) [OF assms(1), of t] assms(2) have c: "ctx_buf (sys_proc s) t = Some c"
    "t \<in> tlsBufAddrs (mgr_of tlocal t (sys_proc s))"
    "eb_epoch (the (heap (sys_proc s) c)) = bm_epoch (mgr_of tlocal t (sys_proc s))"
    "ref_logBuf ref = c" by (auto simp: thread_ok_def at_ref_def)
  with call assms(3) have won by (auto elim: tryIncEpoch_cases)
  with call c(2) show ?thesis by (auto dest: tryIncEpoch_effects(5))
qed

lemma may_load_Some:
  assumes "thread_ok tlocal p t pc" and "pc \<noteq> Exited" and "may_load t p (Some a)"
  shows "ctx_buf p t = Some a"
  using assms unfolding may_load_def getLogBuffer_def thread_ok_def by metis

lemma sys_ok_app_step:
  assumes ok: "sys_ok tlocal s" and "app_step tlocal t s (Inr s')"
  shows "sys_ok tlocal s'"
  using assms(2)
proof (cases rule: app_step_cases)
  case (begin_run cur)
  have "pc_ok (sys_proc s) t (GotBuf cur)"
    using begin_run(1,2) sys_okD(4) [OF ok, of t] by (cases cur) (auto dest: may_load_None may_load_Some)
  with begin_run show ?thesis by (auto intro!: sys_ok_move [OF ok])
next
  case (first_buffer a p)
  then have run: "sys_pc s t \<noteq> Exited" by simp
  show ?thesis
    unfolding first_buffer(3)
    using allocBuffer_thread(1,2) [OF ok run first_buffer(2)] shared_ok_allocBuffer [OF ok run first_buffer(2)]
    by (intro sys_ok_goto) auto
next
  case (take_ref a b)
  with thread_ok_pc [OF sys_okD(4) [OF ok, of t]] show ?thesis
    by (auto simp: at_ref_def intro!: sys_ok_move [OF ok])
next
  case (load ref cur)
  with thread_ok_pc [OF sys_okD(4) [OF ok, of t]] show ?thesis
    by (auto dest: may_load_None intro!: sys_ok_move [OF ok])
next
  case (store ref curBuf w b)
  have at: "at_ref (sys_proc s) t ref" "curBuf = None \<Longrightarrow> log_buffer (sys_proc s) t = None"
    using store(1) thread_ok_pc [OF sys_okD(4) [OF ok, of t]] by simp_all
  show ?thesis
    unfolding store(5) using at store(1)
    by (intro sys_ok_store [OF ok _ store(2)]) (auto simp: at_ref_def after_store_def)
next
  case (reclaimed ref)
  with thread_ok_pc [OF sys_okD(4) [OF ok, of t]] show ?thesis
    by (auto intro!: sys_ok_move [OF ok])
next
  case (full ref b won p)
  let ?ref1 = "ref\<lparr>ref_nextRdtscTime := ref_nextRdtscTime ref + BATCH_SIZE\<rparr>"
  have run: "sys_pc s t \<noteq> Exited" and at: "at_ref (sys_proc s) t ref"
    using full(1) thread_ok_pc [OF sys_okD(4) [OF ok, of t]] by simp_all
  have logged: "log_buffer p t = None"
    using tryIncEpoch_thread [OF ok full(1) _ full(3)] by simp
  have p: "thr_context p = thr_context (sys_proc s)" "heap p = heap (sys_proc s)"
    "mgr_alive p = mgr_alive (sys_proc s)"
    using full(3) by (cases won; auto elim: tryIncEpoch_cases dest: tryIncEpoch_effects(1,3,4))+
  have "thread_ok tlocal p t (NeedBuf ?ref1)"
    using sys_okD(4) [OF ok, of t] run at logged
    by (simp add: thread_ok_def ctx_buf_def p at_ref_def)
  with full(4) shared_ok_tryIncEpoch [OF ok run full(3)] show ?thesis
    by (auto intro: sys_ok_goto)
next
  case (room ref b)
  with thread_ok_pc [OF sys_okD(4) [OF ok, of t]] show ?thesis
    by (auto simp: at_ref_def intro!: sys_ok_move [OF ok])
next
  case (new_buffer ref a p)
  then have run: "sys_pc s t \<noteq> Exited" by simp
  have at: "at_ref (sys_proc s) t ref" "heap (sys_proc s) (ref_logBuf ref) \<noteq> None"
    using new_buffer sys_okD(4) [OF ok, of t] by (auto simp: thread_ok_def at_ref_def)
  show ?thesis
    unfolding new_buffer(3)
    using allocBuffer_thread(1,2) [OF ok run new_buffer(2)] at
      allocBuffer_thread(3) [OF ok run new_buffer(2), of "ref_logBuf ref"]
      shared_ok_allocBuffer [OF ok run new_buffer(2)]
    by (intro sys_ok_goto) (auto simp: at_ref_def)
next
  case (switch ref a b)
  with thread_ok_pc [OF sys_okD(4) [OF ok, of t]] show ?thesis
    unfolding switch(4) by (intro sys_ok_store [OF ok _ switch(2)]) (auto simp: at_ref_def)
next
  case (end_run ref b)
  then show ?thesis
    unfolding end_run(3) by (intro sys_ok_store [OF ok _ end_run(2)]) auto
next
  case (exit_thread p)
  then have run: "sys_pc s t \<noteq> Exited" by simp
  show ?thesis
    unfolding exit_thread(3) using shared_ok_exit [OF ok run exit_thread(2)]
    by (intro sys_ok_goto) (auto simp: thread_ok_def)
next
  case destroy_manager
  with sys_ok_destroy [of s t] ok show ?thesis by simp
qed

lemma sys_ok_worker:
  assumes ok: "sys_ok tlocal s" and "k < length (workers (sys_proc s))"
    and call: "worker_step k (sys_proc s) = Inr p"
  shows "sys_ok tlocal (s\<lparr>sys_proc := p\<rparr>)"
proof -
  note eff = worker_step_effects [OF call]
  have "thread_ok tlocal p u (sys_pc s u)" for u
    using sys_okD(4) [OF ok, of u] by (elim thread_ok_frame) (auto simp: eff)
  then show ?thesis
    using pools_ok_worker_step [OF sys_okD(1) [OF ok] assms(2) call]
      managers_ok_worker_step [OF sys_okD(2) [OF ok] assms(2) call] sys_okD(3) [OF ok]
    by (auto simp: sys_ok_def registered_ok_def eff)
qed

text \<open>A successful step of the system is a thread's step or a worker's step.\<close>

lemma sys_step_cases [consumes 1, case_names app worker]:
  assumes "sys_step tlocal s (Inr s')"
  obtains t where "app_step tlocal t s (Inr s')"
    | k p where "k < length (workers (sys_proc s))" "worker_step k (sys_proc s) = Inr p"
      "s' = s\<lparr>sys_proc := p\<rparr>"
  using assms by (auto simp: sys_step_iff eq_commute [of "Inr s'"] and_then_Inr_iff)

lemma sys_ok_step: "sys_ok tlocal s \<Longrightarrow> sys_step tlocal s (Inr s') \<Longrightarrow> sys_ok tlocal s'"
  by (erule sys_step_cases) (auto intro: sys_ok_app_step sys_ok_worker)

lemma reachable_ok: "reachable tlocal s \<Longrightarrow> sys_ok tlocal s"
  by (induction rule: reachable.induct) (auto intro: sys_ok_init sys_ok_step)

text \<open>A thread that calls \<open>allocBuffer\<close> gets a buffer.\<close>

lemma allocBuffer_total:
  assumes ok: "sys_ok tlocal s" and "sys_pc s t = GotBuf None \<or> sys_pc s t = NeedBuf ref"
  shows "\<exists>a p. allocBuffer (buf_manager_of tlocal t) t (sys_proc s) = Inr (a, p)
    \<and> getLogBuffer t p = Some a"
proof -
  from assms(2) sys_okD(4) [OF ok, of t] have "mgr_alive (sys_proc s) (buf_manager_of tlocal t)"
    "log_buffer (sys_proc s) t = None" by (auto simp: thread_ok_def)
  moreover have "heap (sys_proc s) (last (freeBufs (mgr_of tlocal t (sys_proc s)))) \<noteq> None"
    if "freeBufs (mgr_of tlocal t (sys_proc s)) \<noteq> []"
    using that by (intro pools_okD(5) [OF sys_okD(1) [OF ok], of _ "buf_manager_of tlocal t"])
      (simp add: in_pool_iff)
  ultimately obtain a p where "allocBuffer (buf_manager_of tlocal t) t (sys_proc s) = Inr (a, p)"
    using allocBuffer_ok by blast
  moreover from this have "getLogBuffer t p = Some a"
    by (simp add: getLogBuffer_def allocBuffer_effects(4))
  ultimately show ?thesis by blast
qed

section \<open>Properties of every reachable state\<close>

text \<open>A first reachable state: thread 0 has its first buffer.\<close>

lemma begin_run_reachable:
  assumes "reachable tlocal s" and "sys_pc s t = Idle"
  shows "reachable tlocal (goto t (GotBuf (log_buffer (sys_proc s) t)) (sys_proc s) s)"
  using reachable.step [OF assms(1) sys_step.app [OF app_step.begin_run [OF assms(2) may_load_current]]]
  by (simp add: getLogBuffer_def)

lemma first_buffer_reachable:
  assumes "reachable tlocal s" and "sys_pc s t = GotBuf None"
  obtains a p where "allocBuffer (buf_manager_of tlocal t) t (sys_proc s) = Inr (a, p)"
    "reachable tlocal (goto t (GotBuf (Some a)) p s)"
proof -
  obtain a p where call: "allocBuffer (buf_manager_of tlocal t) t (sys_proc s) = Inr (a, p)"
    using allocBuffer_total [OF reachable_ok [OF assms(1)] disjI1 [OF assms(2)]] by blast
  with reachable.step [OF assms(1) sys_step.app] app_step.first_buffer [OF assms(2), of tlocal]
  have "reachable tlocal (goto t (GotBuf (Some a)) p s)" by simp
  with call show ?thesis by (rule that)
qed

lemma reachable_first_buffer:
  "\<exists>s. reachable tlocal s \<and> sys_pc s 0 = GotBuf (Some 0) \<and> log_buffer (sys_proc s) 0 = Some 0
     \<and> heap (sys_proc s) 0 \<noteq> None \<and> 0 \<in> tlsBufAddrs (mgr_of tlocal 0 (sys_proc s))"
proof -
  let ?s1 = "goto 0 (GotBuf None) init_process init_system"
  have "reachable tlocal ?s1"
    using begin_run_reachable [OF reachable.start, of 0] by (simp add: init_system_def init_process_def)
  from first_buffer_reachable [OF this, of 0] obtain a p where
    call: "allocBuffer (buf_manager_of tlocal 0) 0 init_process = Inr (a, p)"
    and reach: "reachable tlocal (goto 0 (GotBuf (Some a)) p ?s1)" by auto
  note eff = allocBuffer_effects [OF call]
  have "a = 0" using eff(10) by (simp add: init_process_def new_BufferManager_def)
  moreover from this have "heap p 0 \<noteq> None" using eff(3) by auto
  ultimately show ?thesis
    using reach by (intro exI [of _ "goto 0 (GotBuf (Some a)) p ?s1"]) (simp add: eff(4,6))
qed



text \<open>
  C30: \<open>activeWorkers\<close> is at any time the number of workers that have not returned their buffers,
  and never more than \<open>MAX_WORKERS\<close>.
\<close>

theorem active_workers_bounded:
  assumes "reachable tlocal s"
  shows "activeWorkers (buf_manager (sys_proc s) m)
      = int (length (filter (\<lambda>w. w_manager w = m \<and> w_phase w \<noteq> Finished) (workers (sys_proc s))))
    \<and> activeWorkers (buf_manager (sys_proc s) m) \<le> MAX_WORKERS"
  using managers_okD(1,2) [OF sys_okD(2) [OF reachable_ok [OF assms]], of m]
  by (simp add: active_def)

theorem active_workers_bounded_witness:
  "\<exists>s. reachable False s \<and> heap (sys_proc s) 0 \<noteq> None
     \<and> activeWorkers (buf_manager (sys_proc s) 0) \<le> 32"
  using reachable_first_buffer [of False] active_workers_bounded [of False _ 0]
  by (auto simp: MAX_WORKERS_def)

text \<open>
  The addresses in \<open>tlsBufAddrs\<close> never dangle: a registered thread has not exited, is registered
  with its own manager only, and its pointer names a buffer of the current epoch that its context
  names too.
\<close>

theorem registered_threads_live:
  assumes "reachable tlocal s" and "t \<in> tlsBufAddrs (buf_manager (sys_proc s) m)"
  shows "sys_pc s t \<noteq> Exited \<and> m = buf_manager_of tlocal t
    \<and> (\<exists>a b c. log_buffer (sys_proc s) t = Some a \<and> heap (sys_proc s) a = Some b
         \<and> thr_context (sys_proc s) t = Some c \<and> ctx_logBuffer c = Some a
         \<and> a \<in> set (allocatedBufs (buf_manager (sys_proc s) m))
         \<and> eb_epoch b = bm_epoch (buf_manager (sys_proc s) m))"
proof -
  note ok = reachable_ok [OF assms(1)]
  from sys_okD(3) [OF ok] assms(2) have reg: "m = buf_manager_of tlocal t" "sys_pc s t \<noteq> Exited"
    "log_buffer (sys_proc s) t \<noteq> None" unfolding registered_ok_def by blast+
  then obtain a where a: "log_buffer (sys_proc s) t = Some a" by blast
  with sys_okD(4) [OF ok, of t] reg have "ctx_buf (sys_proc s) t = Some a"
    "heap (sys_proc s) a \<noteq> None" "a \<in> set (allocatedBufs (buf_manager (sys_proc s) m))"
    "eb_epoch (the (heap (sys_proc s) a)) = bm_epoch (buf_manager (sys_proc s) m)"
    by (auto simp: thread_ok_def)
  with a reg show ?thesis by (auto simp: ctx_buf_def split: option.splits)
qed

theorem registered_threads_live_witness:
  "\<exists>s. reachable True s \<and> 0 \<in> tlsBufAddrs (buf_manager (sys_proc s) 0) \<and> sys_pc s 0 \<noteq> Exited"
  using reachable_first_buffer [of True] registered_threads_live [of True _ 0 0]
  by (auto simp: buf_manager_of_def)

text \<open>
  Whenever a thread calls \<open>allocBuffer\<close>, its precondition holds and the call returns a
  buffer: the assertion on \<open>__log_buffer\<close> never fails, and every address in the pool is valid.
\<close>

theorem allocBuffer_never_fails:
  assumes "reachable tlocal s" and "sys_pc s t = GotBuf None \<or> sys_pc s t = NeedBuf ref"
  shows "\<exists>a p. allocBuffer (buf_manager_of tlocal t) t (sys_proc s) = Inr (a, p)
    \<and> getLogBuffer t p = Some a"
  using allocBuffer_total [OF reachable_ok [OF assms(1)] assms(2)] by blast

lemma reachable_asks_for_buffer: "\<exists>s. reachable tlocal s \<and> sys_pc s 0 = GotBuf None"
proof -
  have "getLogBuffer 0 (sys_proc init_system) = None" "sys_pc init_system 0 = Idle"
    by (simp_all add: init_system_def init_process_def getLogBuffer_def)
  with begin_run_reachable [OF reachable.start, of 0 tlocal] show ?thesis
    by (fastforce simp: getLogBuffer_def)
qed

theorem allocBuffer_never_fails_witness:
  "\<exists>s a p. reachable True s \<and> allocBuffer 0 0 (sys_proc s) = Inr (a, p)"
proof -
  obtain s where s: "reachable True s" "sys_pc s 0 = GotBuf None"
    using reachable_asks_for_buffer by blast
  from allocBuffer_never_fails [OF s(1) disjI1 [OF s(2)]] s(1) show ?thesis
    by (auto simp: buf_manager_of_def)
qed

end
