(* ===== verification/WorkerRun.thy ===== *)
theory WorkerRun
  imports ManagerSpec
begin

text \<open>
  The worker of \<open>Worker.h\<close> from start to end: it waits exactly as long as one of its buffers is open,
  counts, and returns the buffers.
\<close>

definition is_closed :: "process \<Rightarrow> nat \<Rightarrow> bool" where
  "is_closed p a \<longleftrightarrow> (\<exists>b. heap p a = Some b \<and> eb_closed b)"

definition is_open :: "process \<Rightarrow> nat \<Rightarrow> bool" where
  "is_open p a \<longleftrightarrow> (\<exists>b. heap p a = Some b \<and> \<not> eb_closed b)"

text \<open>\<open>n\<close> consecutive steps of worker \<open>k\<close>.\<close>

abbreviation worker_steps :: "nat \<Rightarrow> nat \<Rightarrow> process \<Rightarrow> process result" where
  "worker_steps k n \<equiv> for_loop (\<lambda>_. worker_step k) 0 n"

lemma set_worker_twice [simp]:
  "set_worker k ph (set_worker k ph' p) = set_worker k ph p"
  by (cases "k < length (workers p)") (simp_all add: set_worker_def list_update_beyond)

lemma set_worker_id: "w_phase (workers p ! k) = ph \<Longrightarrow> set_worker k ph p = p"
  by (cases "k < length (workers p)") (auto simp: set_worker_def list_update_beyond)

lemma sum_events_set_worker [simp]: "sum_events n as (set_worker k ph p) = sum_events n as p"
  by (induction as arbitrary: n) (simp_all add: load_buf_def)

lemma worker_waits:
  assumes "k < length (workers p)" and "w_phase (workers p ! k) = Waiting 0"
    and "\<forall>a \<in> set (w_buffers (workers p ! k)). is_closed p a"
  shows "j \<le> length (w_buffers (workers p ! k)) \<Longrightarrow>
    worker_steps k j p = Inr (set_worker k (Waiting j) p)"
proof (induction j)
  case 0
  with assms(2) show ?case by (simp add: set_worker_id)
next
  case (Suc j)
  let ?q = "set_worker k (Waiting j) p"
  from Suc.prems have "w_buffers (workers p ! k) ! j \<in> set (w_buffers (workers p ! k))" by simp
  with assms(3) obtain b where "heap p (w_buffers (workers p ! k) ! j) = Some b" "eb_closed b"
    by (auto simp: is_closed_def)
  with Suc.prems assms(1) have "worker_step k ?q = Inr (set_worker k (Waiting (Suc j)) p)"
    by (simp add: worker_step_def Let_def)
  with Suc show ?case by (simp add: for_loop_snoc del: for_loop.simps(2))
qed

text \<open>The state after the count.\<close>

lemma worker_counts:
  assumes "k < length (workers p)" and "w_phase (workers p ! k) = Waiting 0"
    and "\<forall>a \<in> set (w_buffers (workers p ! k)). is_closed p a"
    and "sum_events 0 (w_buffers (workers p ! k)) p = Inr n"
  shows "worker_steps k (Suc (length (w_buffers (workers p ! k)))) p
    = Inr (set_worker k Releasing (p\<lparr>printed := printed p @ [WorkerProcessed n]\<rparr>))"
proof -
  let ?q = "set_worker k (Waiting (length (w_buffers (workers p ! k)))) p"
  have "set_worker k Releasing (?q\<lparr>printed := printed p @ [WorkerProcessed n]\<rparr>)
      = set_worker k Releasing (p\<lparr>printed := printed p @ [WorkerProcessed n]\<rparr>)"
    using assms(1) by (simp add: set_worker_def)
  with assms(1,4) have "worker_step k ?q
      = Inr (set_worker k Releasing (p\<lparr>printed := printed p @ [WorkerProcessed n]\<rparr>))"
    by (simp add: worker_step_def Let_def)
  with worker_waits [OF assms(1-3)] show ?thesis
    by (simp add: for_loop_snoc del: for_loop.simps(2))
qed

lemma worker_run_ends:
  assumes "k < length (workers p)" and "workers p ! k = \<lparr>w_manager = m, w_buffers = as, w_phase = Waiting 0\<rparr>"
    and "\<forall>a \<in> set as. is_closed p a" and "sum_events 0 as p = Inr n"
    and "mgr_alive p m" and "0 < activeWorkers (buf_manager p m)"
    and "activeWorkers (buf_manager p m) \<le> MAX_WORKERS"
  shows "\<exists>p'. worker_steps k (length as + 2) p = Inr p'
    \<and> w_phase (workers p' ! k) = Finished \<and> printed p' = printed p @ [WorkerProcessed n]
    \<and> freeBufs (buf_manager p' m) = freeBufs (buf_manager p m) @ as
    \<and> activeWorkers (buf_manager p' m) = activeWorkers (buf_manager p m) - 1 \<and> heap p' = heap p"
proof -
  let ?q = "set_worker k Releasing (p\<lparr>printed := printed p @ [WorkerProcessed n]\<rparr>)"
  have "worker_steps k (Suc (length as)) p = Inr ?q"
    using worker_counts [OF assms(1)] assms(2-4) by simp
  moreover have "\<exists>p'. worker_step k ?q = Inr p' \<and> w_phase (workers p' ! k) = Finished
      \<and> printed p' = printed p @ [WorkerProcessed n]
      \<and> freeBufs (buf_manager p' m) = freeBufs (buf_manager p m) @ as
      \<and> activeWorkers (buf_manager p' m) = activeWorkers (buf_manager p m) - 1 \<and> heap p' = heap p"
    using assms by (simp add: worker_step_def Let_def release_def int_add_def MAX_WORKERS_def)
  moreover have "worker_steps k (length as + 2) p
      = and_then (worker_steps k (Suc (length as)) p) (worker_step k)"
    by (simp add: for_loop_snoc del: for_loop.simps(2))
  ultimately show ?thesis by (simp del: for_loop.simps(2))
qed

text \<open>The count is the sum of the counters, as long as this is in the range of \<open>int\<close>.\<close>

definition events_in :: "process \<Rightarrow> nat list \<Rightarrow> int" where
  "events_in p as = (\<Sum>a \<leftarrow> as. eb_events (the (heap p a)))"

lemma sum_events_in:
  assumes "\<forall>a \<in> set as. heap p a \<noteq> None \<and> 0 \<le> eb_events (the (heap p a))"
    and "0 \<le> n" and "n + events_in p as \<le> INT_MAX"
  shows "sum_events n as p = Inr (n + events_in p as)"
  using assms
proof (induction as arbitrary: n)
  case Nil
  then show ?case by (simp add: events_in_def)
next
  case (Cons a as)
  then obtain b where b: "heap p a = Some b" "0 \<le> eb_events b" by auto
  have "0 \<le> events_in p as"
    using Cons.prems(1) unfolding events_in_def by (intro sum_list_nonneg) auto
  with Cons.prems(2,3) b have "int_add n (eb_events b) = Inr (n + eb_events b)"
    by (intro int_add_ok) (auto simp: events_in_def)
  moreover have "sum_events (n + eb_events b) as p = Inr (n + eb_events b + events_in p as)"
    using Cons.prems b by (intro Cons.IH) (auto simp: events_in_def)
  ultimately show ?case using b by (simp add: events_in_def)
qed

text \<open>
  C22: a worker of a manager that is alive, all of whose buffers are closed and hold together at most
  \<open>INT_MAX\<close> events, ends: after one test per buffer, the count and the call of \<open>release\<close> it is finished, it
  has printed the sum of its buffers' counters, its buffers are in the pool behind those that were there,
  and one worker less is at work.
\<close>

theorem worker_terminates:
  assumes "k < length (workers p)" and "workers p ! k = \<lparr>w_manager = m, w_buffers = as, w_phase = Waiting 0\<rparr>"
    and "\<forall>a \<in> set as. is_closed p a \<and> 0 \<le> eb_events (the (heap p a))"
    and "(\<Sum>a \<leftarrow> as. eb_events (the (heap p a))) \<le> INT_MAX"
    and "mgr_alive p m" and "0 < activeWorkers (buf_manager p m)"
    and "activeWorkers (buf_manager p m) \<le> MAX_WORKERS"
  shows "\<exists>p'. worker_steps k (length as + 2) p = Inr p'
    \<and> w_phase (workers p' ! k) = Finished
    \<and> printed p' = printed p @ [WorkerProcessed (\<Sum>a \<leftarrow> as. eb_events (the (heap p a)))]
    \<and> freeBufs (buf_manager p' m) = freeBufs (buf_manager p m) @ as
    \<and> activeWorkers (buf_manager p' m) = activeWorkers (buf_manager p m) - 1 \<and> heap p' = heap p"
proof -
  have "sum_events 0 as p = Inr (events_in p as)"
    using sum_events_in [of as p 0] assms(3,4) by (auto simp: is_closed_def events_in_def)
  from worker_run_ends [OF assms(1,2) _ this assms(5-7)] assms(3) show ?thesis
    unfolding events_in_def by blast
qed

text \<open>Buffer 2 of the example state is closed and holds 7 events, and so is buffer 1 here, with 5.\<close>

definition one_worker :: process where
  "one_worker = store_buf 1 (new_EventBuffer\<lparr>eb_events := 5, eb_closed := True\<rparr>)
     (update_manager 0 (\<lambda>m. m\<lparr>activeWorkers := 1, freeBufs := []\<rparr>)
       (two_threads\<lparr>workers := [\<lparr>w_manager = 0, w_buffers = [2, 1], w_phase = Waiting 0\<rparr>]\<rparr>))"

theorem worker_terminates_witness:
  "\<exists>p'. worker_steps 0 4 one_worker = Inr p' \<and> w_phase (workers p' ! 0) = Finished
    \<and> printed p' = printed one_worker @ [WorkerProcessed 12] \<and> freeBufs (buf_manager p' 0) = [2, 1]"
proof -
  have "\<forall>a \<in> set [2, 1]. is_closed one_worker a \<and> 0 \<le> eb_events (the (heap one_worker a))"
    "(\<Sum>a \<leftarrow> [2, 1]. eb_events (the (heap one_worker a))) = 12"
    by (simp_all add: is_closed_def one_worker_def)
  moreover have "mgr_alive one_worker 0" "activeWorkers (buf_manager one_worker 0) = 1"
    "workers one_worker = [\<lparr>w_manager = 0, w_buffers = [2, 1], w_phase = Waiting 0\<rparr>]"
    "freeBufs (buf_manager one_worker 0) = []"
    by (simp_all add: one_worker_def)
  ultimately show ?thesis
    using worker_terminates [of 0 one_worker 0 "[2, 1]"]
    by (auto simp: MAX_WORKERS_def numeral_eq_Suc simp del: for_loop.simps)
qed

text \<open>
  A worker whose next buffer is open spins: however often it tests the flag, neither its own
  state nor any other changes.
\<close>

theorem worker_spins:
  assumes "workers p ! k = \<lparr>w_manager = m, w_buffers = as, w_phase = Waiting i\<rparr>"
    and "i < length as" and "is_open p (as ! i)"
  shows "worker_steps k n p = Inr p"
proof -
  have "worker_step k p = Inr p"
    using assms by (auto simp: worker_step_def is_open_def)
  then show ?thesis by (induction n) (simp_all add: for_loop_snoc del: for_loop.simps(2))
qed

definition waiting_worker :: process where
  "waiting_worker = two_threads\<lparr>workers := [\<lparr>w_manager = 0, w_buffers = [2, 0], w_phase = Waiting 1\<rparr>]\<rparr>"

theorem worker_spins_witness: "worker_steps 0 1000 waiting_worker = Inr waiting_worker"
proof (rule worker_spins)
  show "workers waiting_worker ! 0 = \<lparr>w_manager = 0, w_buffers = [2, 0], w_phase = Waiting 1\<rparr>"
    by (simp add: waiting_worker_def)
  show "is_open waiting_worker ([2, 0] ! 1)" by (simp add: is_open_def waiting_worker_def)
qed simp

end
