(* ===== verification/Ownership.thy ===== *)
theory Ownership
  imports Invariants WorkerRun
begin

text \<open>
  As long as no epoch was skipped for want of workers, every buffer that is still written has one
  writer: threads never share a buffer, a worker counts only buffers that no thread refers to any
  more, and the pool holds only closed buffers. From this and the threads' counters follows which
  steps can fail at all.
\<close>

section \<open>The invariant\<close>

definition no_skip :: "process \<Rightarrow> bool" where
  "no_skip p \<longleftrightarrow> (\<forall>e. TooManyWorkers e \<notin> set (printed p))"

text \<open>The buffers a thread may still write to or write its counters back to.\<close>

definition held_by :: "process \<Rightarrow> nat \<Rightarrow> app_pc \<Rightarrow> nat set" where
  "held_by p t pc = (if pc = Exited then {} else set_option (ctx_buf p t))
     \<union> (case pc of GotNext ref a \<Rightarrow> {ref_logBuf ref} | _ \<Rightarrow> {})"

text \<open>
  The counters, wherever the thread is: between calls the counter has not passed the deadline; in the
  slow path after a reached deadline it is one past it; before a change of buffer it is at most one
  past \<open>MAX_EVENTS\<close>.
\<close>

abbreviation counters_ok :: "int \<Rightarrow> int \<Rightarrow> bool" where
  "counters_ok \<equiv> post_aligned MAX_EVENTS"

definition idle_counts :: "process \<Rightarrow> nat \<Rightarrow> bool" where
  "idle_counts p t \<longleftrightarrow> (\<forall>a b. ctx_buf p t = Some a \<longrightarrow> heap p a = Some b \<longrightarrow>
     counters_ok (eb_events b) (eb_nextRdtscTime b))"

fun pc_counts :: "process \<Rightarrow> nat \<Rightarrow> app_pc \<Rightarrow> bool" where
  "pc_counts p t Idle = idle_counts p t"
| "pc_counts p t (GotBuf cur) = idle_counts p t"
| "pc_counts p t (Logging ref) = counters_ok (ref_events ref) (ref_nextRdtscTime ref)"
| "pc_counts p t (Loaded ref cur) = counters_ok (ref_events ref) (ref_nextRdtscTime ref)"
| "pc_counts p t (Slow ref None) = counters_ok (ref_events ref) (ref_nextRdtscTime ref)"
| "pc_counts p t (Slow ref (Some b)) = (ref_events ref = ref_nextRdtscTime ref + 1
     \<and> counters_ok (ref_nextRdtscTime ref) (ref_nextRdtscTime ref))"
| "pc_counts p t (NeedBuf ref) = (0 \<le> ref_events ref \<and> ref_events ref \<le> MAX_EVENTS + 1)"
| "pc_counts p t (GotNext ref a) = (0 \<le> ref_events ref \<and> ref_events ref \<le> MAX_EVENTS + 1
     \<and> a \<noteq> ref_logBuf ref)"
| "pc_counts p t Exited = True"

definition thread_own :: "process \<Rightarrow> nat \<Rightarrow> app_pc \<Rightarrow> bool" where
  "thread_own p t pc \<longleftrightarrow> (\<forall>a \<in> held_by p t pc. is_open p a) \<and> pc_counts p t pc"

definition worker_waited :: "process \<Rightarrow> worker \<Rightarrow> bool" where
  "worker_waited p w \<longleftrightarrow>
     (case w_phase w of
        Waiting i \<Rightarrow> \<forall>j < i. j < length (w_buffers w) \<longrightarrow> is_closed p (w_buffers w ! j)
      | Releasing \<Rightarrow> \<forall>a \<in> set (w_buffers w). is_closed p a
      | Finished \<Rightarrow> True)"

definition closed_ok :: "process \<Rightarrow> bool" where
  "closed_ok p \<longleftrightarrow> (\<forall>m. \<forall>a \<in> set (freeBufs (buf_manager p m)). is_closed p a)
     \<and> (\<forall>w \<in> set (workers p). worker_waited p w)"

definition bufs_bounded :: "process \<Rightarrow> bool" where
  "bufs_bounded p \<longleftrightarrow>
     (\<forall>a b. heap p a = Some b \<longrightarrow> 0 \<le> eb_events b \<and> eb_events b \<le> MAX_EVENTS + 1)"

definition disjoint_held :: "system \<Rightarrow> bool" where
  "disjoint_held s \<longleftrightarrow> (\<forall>t u. t \<noteq> u \<longrightarrow>
     held_by (sys_proc s) t (sys_pc s t) \<inter> held_by (sys_proc s) u (sys_pc s u) = {})"

definition exclusive_ok :: "system \<Rightarrow> bool" where
  "exclusive_ok s \<longleftrightarrow> (\<forall>t. thread_own (sys_proc s) t (sys_pc s t)) \<and> disjoint_held s
     \<and> closed_ok (sys_proc s) \<and> bufs_bounded (sys_proc s)"

lemma exclusive_okD:
  assumes "exclusive_ok s"
  shows "thread_own (sys_proc s) t (sys_pc s t)"
    and "a \<in> held_by (sys_proc s) t (sys_pc s t) \<Longrightarrow> a \<in> held_by (sys_proc s) u (sys_pc s u) \<Longrightarrow> t = u"
    and "closed_ok (sys_proc s)" and "bufs_bounded (sys_proc s)"
  using assms unfolding exclusive_ok_def disjoint_held_def by blast+

lemma exclusive_ok_init: "exclusive_ok init_system"
  by (simp add: exclusive_ok_def disjoint_held_def closed_ok_def bufs_bounded_def thread_own_def
      held_by_def init_system_def init_process_def new_BufferManager_def ctx_buf_def idle_counts_def)

section \<open>Frames\<close>

lemma held_by_frame: "thr_context p' u = thr_context p u \<Longrightarrow> held_by p' u pc = held_by p u pc"
  by (simp add: held_by_def ctx_buf_def)

lemma thread_own_frame:
  assumes "thread_own p u pc" and "thr_context p' u = thr_context p u"
    and "\<And>a. a \<in> held_by p u pc \<Longrightarrow> heap p' a = heap p a"
  shows "thread_own p' u pc"
proof -
  have ctx: "ctx_buf p' u = ctx_buf p u" by (simp add: ctx_buf_def assms(2))
  have "\<forall>a \<in> held_by p' u pc. is_open p' a"
    unfolding held_by_frame [of p' u p, OF assms(2)]
    using assms(1,3) by (simp add: thread_own_def is_open_def)
  moreover have "idle_counts p' u" if "idle_counts p u" "pc \<noteq> Exited"
    using that assms(3) by (auto simp: idle_counts_def ctx held_by_def)
  ultimately show ?thesis
    using assms(1) by (cases "(p', u, pc)" rule: pc_counts.cases) (simp_all add: thread_own_def)
qed

lemma is_closed_not_open: "is_closed p a \<Longrightarrow> \<not> is_open p a"
  by (auto simp: is_closed_def is_open_def)

lemma worker_waited_mono:
  "worker_waited p w \<Longrightarrow> (\<And>a. a \<in> set (w_buffers w) \<Longrightarrow> is_closed p a \<Longrightarrow> is_closed p' a) \<Longrightarrow>
   worker_waited p' w"
  by (auto simp: worker_waited_def split: worker_phase.splits)

lemma closed_ok_mono:
  assumes "closed_ok p" and "\<And>m. freeBufs (buf_manager p' m) = freeBufs (buf_manager p m)"
    and "workers p' = workers p" and "\<And>a. is_closed p a \<Longrightarrow> is_closed p' a"
  shows "closed_ok p'"
  using assms by (auto simp: closed_ok_def intro: worker_waited_mono)

text \<open>
  One rule for all steps of a thread \<open>t\<close>: it changes only buffers that it holds or that nobody holds,
  and it gets hold only of buffers that nobody holds.
\<close>

lemma exclusive_goto:
  assumes ok: "exclusive_ok s"
    and "\<And>u. u \<noteq> t \<Longrightarrow> thr_context p' u = thr_context (sys_proc s) u"
    and "\<And>u a. u \<noteq> t \<Longrightarrow> a \<in> held_by (sys_proc s) u (sys_pc s u) \<Longrightarrow> heap p' a = heap (sys_proc s) a"
    and "\<And>a u. a \<in> held_by p' t pc' \<Longrightarrow> a \<notin> held_by (sys_proc s) t (sys_pc s t) \<Longrightarrow>
      a \<notin> held_by (sys_proc s) u (sys_pc s u)"
    and "thread_own p' t pc'" and "closed_ok p'" and "bufs_bounded p'"
  shows "exclusive_ok (goto t pc' p' s)"
proof -
  have held: "held_by p' u (sys_pc s u) = held_by (sys_proc s) u (sys_pc s u)" if "u \<noteq> t" for u
    using assms(2) [OF that] by (rule held_by_frame)
  have own: "thread_own p' u (sys_pc s u)" if "u \<noteq> t" for u
    by (rule thread_own_frame [OF exclusive_okD(1) [OF ok] assms(2,3)]) (use that in auto)
  have new: "a \<notin> held_by (sys_proc s) u (sys_pc s u)" if "u \<noteq> t" "a \<in> held_by p' t pc'" for a u
    using that assms(4) [of a u] exclusive_okD(2) [OF ok, of a t u] by blast
  have "disjoint_held (goto t pc' p' s)"
    unfolding disjoint_held_def
  proof (intro allI impI)
    fix u v :: nat
    assume "u \<noteq> v"
    then show "held_by (sys_proc (goto t pc' p' s)) u (sys_pc (goto t pc' p' s) u)
      \<inter> held_by (sys_proc (goto t pc' p' s)) v (sys_pc (goto t pc' p' s) v) = {}"
      using held new exclusive_okD(2) [OF ok, of _ u v] by (cases "u = t"; cases "v = t") auto
  qed
  with own assms(5-7) show ?thesis by (simp add: exclusive_ok_def)
qed

lemma exclusive_move:
  assumes ok: "exclusive_ok s" and "held_by (sys_proc s) t pc' = held_by (sys_proc s) t (sys_pc s t)"
    and "pc_counts (sys_proc s) t pc'"
  shows "exclusive_ok (goto t pc' (sys_proc s) s)"
  using exclusive_okD [OF ok] assms(2,3)
  by (intro exclusive_goto [OF ok]) (auto simp: thread_own_def)

text \<open>A store into a buffer that the thread holds; it may close the buffer if it lets go of it.\<close>

lemma exclusive_store:
  assumes ok: "exclusive_ok s" and a: "heap (sys_proc s) a = Some b"
    and held: "a \<in> held_by (sys_proc s) t (sys_pc s t)"
    and sub: "held_by (sys_proc s) t pc' \<subseteq> held_by (sys_proc s) t (sys_pc s t)"
    and closes: "eb_closed b \<Longrightarrow> eb_closed b'"
    and lets_go: "a \<in> held_by (sys_proc s) t pc' \<Longrightarrow> \<not> eb_closed b'"
    and bound: "0 \<le> eb_events b'" "eb_events b' \<le> MAX_EVENTS + 1"
    and counts: "pc_counts (store_buf a b' (sys_proc s)) t pc'"
  shows "exclusive_ok (goto t pc' (store_buf a b' (sys_proc s)) s)"
proof (rule exclusive_goto [OF ok])
  let ?p = "store_buf a b' (sys_proc s)"
  have same: "held_by ?p t pc' = held_by (sys_proc s) t pc'"
    by (rule held_by_frame) simp
  show "heap ?p x = heap (sys_proc s) x" if "u \<noteq> t" "x \<in> held_by (sys_proc s) u (sys_pc s u)" for u x
  proof -
    have "x \<noteq> a" using that(1) held exclusive_okD(2) [OF ok that(2), of t] by blast
    then show ?thesis by simp
  qed
  show "x \<notin> held_by (sys_proc s) u (sys_pc s u)"
    if "x \<in> held_by ?p t pc'" "x \<notin> held_by (sys_proc s) t (sys_pc s t)" for x u
    using that sub same by auto
  have "is_open ?p x" if "x \<in> held_by ?p t pc'" for x
    using that sub exclusive_okD(1) [OF ok, of t] lets_go unfolding same
    by (auto simp: thread_own_def is_open_def)
  with counts show "thread_own ?p t pc'" by (simp add: thread_own_def)
  show "closed_ok ?p"
    using exclusive_okD(3) [OF ok] by (rule closed_ok_mono) (use a closes in \<open>auto simp: is_closed_def\<close>)
  show "bufs_bounded ?p"
    using exclusive_okD(4) [OF ok] bound by (auto simp: bufs_bounded_def)
qed simp

text \<open>The buffer that \<open>allocBuffer\<close> hands out was held by nobody.\<close>

lemma alloc_not_held:
  assumes "sys_ok tlocal s" and ok: "exclusive_ok s"
    and call: "allocBuffer m t (sys_proc s) = Inr (a, p')"
  shows "a \<notin> held_by (sys_proc s) u (sys_pc s u)"
proof
  assume "a \<in> held_by (sys_proc s) u (sys_pc s u)"
  with exclusive_okD(1) [OF ok, of u] have "is_open (sys_proc s) a" by (simp add: thread_own_def)
  moreover from allocBuffer_unowned(3) [OF sys_okD(1) [OF assms(1)] call]
  have "is_closed (sys_proc s) a \<or> heap (sys_proc s) a = None"
    using exclusive_okD(3) [OF ok] by (auto simp: closed_ok_def)
  ultimately show False by (auto simp: is_open_def dest: is_closed_not_open)
qed

lemma closed_ok_allocBuffer:
  assumes pools: "pools_ok p" and ok: "closed_ok p" and call: "allocBuffer this t p = Inr (a, p')"
  shows "closed_ok p'"
proof -
  note eff = allocBuffer_effects [OF call]
  from eff(3) obtain b where heap: "heap p' = (heap p)(a \<mapsto> b)" by blast
  have keep: "is_closed p x \<Longrightarrow> x \<noteq> a \<Longrightarrow> is_closed p' x" for x
    by (simp add: is_closed_def heap)
  have "is_closed p' x" if x: "x \<in> set (freeBufs (buf_manager p' m))" for x m
  proof -
    have old: "x \<in> set (freeBufs (buf_manager p m))"
      using x by (auto simp: eff(6) dest: in_set_butlastD split: if_splits)
    moreover have "x \<noteq> a"
    proof (cases "freeBufs (buf_manager p this) = []")
      case True
      with eff(10) have "a = next_addr p" by simp
      with pools_okD(1) [OF pools, of a] have "heap p a = None" by simp
      moreover have "heap p x \<noteq> None"
        using old by (intro pools_okD(5) [OF pools, of x m]) (simp add: in_pool_iff)
      ultimately show ?thesis by auto
    next
      case False
      with eff(10) have a: "a = last (freeBufs (buf_manager p this))" by simp
      show ?thesis
      proof
        assume "x = a"
        with old False a have "m = this"
          by (intro pools_okD(3) [OF pools, of a]) (auto simp: in_pool_iff)
        with x \<open>x = a\<close> a free_last_butlast [OF pools False] show False by (simp add: eff(6))
      qed
    qed
    ultimately show ?thesis using ok by (auto simp: closed_ok_def intro: keep)
  qed
  moreover have "worker_waited p' w" if w: "w \<in> set (workers p')" for w
  proof (cases "w_phase w = Finished")
    case True
    then show ?thesis by (simp add: worker_waited_def)
  next
    case False
    have "worker_waited p w" using ok w by (simp add: closed_ok_def eff(8))
    then show ?thesis
    proof (rule worker_waited_mono)
      fix x assume "x \<in> set (w_buffers w)" "is_closed p x"
      with allocBuffer_unowned(2) [OF pools call, of w] False w show "is_closed p' x"
        by (auto simp: eff(8) intro: keep)
    qed
  qed
  ultimately show ?thesis by (simp add: closed_ok_def)
qed

lemma exclusive_alloc:
  assumes sys: "sys_ok tlocal s" and ok: "exclusive_ok s"
    and call: "allocBuffer m t (sys_proc s) = Inr (a, p')"
    and pc: "pc' = GotBuf (Some a) \<or> (\<exists>ref. sys_pc s t = NeedBuf ref \<and> pc' = GotNext ref a)"
  shows "exclusive_ok (goto t pc' p' s)"
proof (rule exclusive_goto [OF ok])
  note eff = allocBuffer_effects [OF call]
  from eff(3) obtain b where heap: "heap p' = (heap (sys_proc s))(a \<mapsto> b)"
    and b: "eb_events b = 0" "eb_nextRdtscTime b = BATCH_SIZE" "\<not> eb_closed b"
    by (auto simp: fresh_buffer_def)
  note unheld = alloc_not_held [OF sys ok call]
  have ctx: "ctx_buf p' t = Some a" by (simp add: ctx_buf_def eff(5))
  have ref: "ref_logBuf ref \<in> held_by (sys_proc s) t (sys_pc s t)" if "sys_pc s t = NeedBuf ref" for ref
    using that thread_ok_pc [OF sys_okD(4) [OF sys, of t]] by (simp add: held_by_def at_ref_def)
  have held: "held_by p' t pc' \<subseteq> insert a (held_by (sys_proc s) t (sys_pc s t))"
    using pc ref by (auto simp: held_by_def ctx)
  show "thr_context p' u = thr_context (sys_proc s) u" if "u \<noteq> t" for u
    using that by (simp add: eff(5))
  show "heap p' x = heap (sys_proc s) x" if "x \<in> held_by (sys_proc s) u (sys_pc s u)" for u x
    using that unheld [of u] by (auto simp: heap)
  show "x \<notin> held_by (sys_proc s) u (sys_pc s u)"
    if "x \<in> held_by p' t pc'" "x \<notin> held_by (sys_proc s) t (sys_pc s t)" for x u
    using that held unheld by auto
  have "is_open p' x" if "x \<in> held_by p' t pc'" for x
    using that held exclusive_okD(1) [OF ok, of t] b(3)
    by (auto simp: thread_own_def is_open_def heap)
  moreover have "pc_counts p' t pc'"
    using pc
  proof
    assume "pc' = GotBuf (Some a)"
    then show ?thesis
      by (simp add: idle_counts_def ctx heap b post_aligned_def size_defs)
  next
    assume "\<exists>ref. sys_pc s t = NeedBuf ref \<and> pc' = GotNext ref a"
    with exclusive_okD(1) [OF ok, of t] ref unheld [of t] show ?thesis
      by (auto simp: thread_own_def)
  qed
  ultimately show "thread_own p' t pc'" by (simp add: thread_own_def)
  show "closed_ok p'"
    using sys_okD(1) [OF sys] exclusive_okD(3) [OF ok] call by (rule closed_ok_allocBuffer)
  show "bufs_bounded p'"
    using exclusive_okD(4) [OF ok] b(1) by (auto simp: bufs_bounded_def heap size_defs)
qed

lemma tryIncEpoch_no_skip:
  assumes call: "tryIncEpoch m ref p = Inr (won, p')" and "no_skip p'"
  shows "heap p' = heap p" and "thr_context p' = thr_context p" and "closed_ok p \<Longrightarrow> closed_ok p'"
proof -
  show same: "heap p' = heap p" "thr_context p' = thr_context p"
    using call by (cases won; auto elim: tryIncEpoch_cases dest: tryIncEpoch_effects(1,3))+
  assume ok: "closed_ok p"
  show "closed_ok p'"
  proof (cases won)
    case False
    with call ok show ?thesis by (auto elim: tryIncEpoch_cases)
  next
    case True
    with call have won: "tryIncEpoch m ref p = Inr (True, p')" by simp
    have room: "activeWorkers (buf_manager p m) < MAX_WORKERS"
    proof (rule ccontr)
      assume "\<not> activeWorkers (buf_manager p m) < MAX_WORKERS"
      from tryIncEpoch_effects(7) [OF won this] assms(2) show False by (auto simp: no_skip_def)
    qed
    have "worker_waited p' w" if "worker_waited p w" for w
      using that by (rule worker_waited_mono) (simp add: is_closed_def same)
    with ok tryIncEpoch_effects(6) [OF won room] show ?thesis
      by (auto simp: closed_ok_def is_closed_def same worker_waited_def)
  qed
qed

lemma exclusive_exit:
  assumes sys: "sys_ok tlocal s" and ok: "exclusive_ok s" and idle: "sys_pc s t = Idle"
    and call: "destroy_context tlocal t (sys_proc s) = Inr p'"
  shows "exclusive_ok (goto t Exited p' s)"
  using call
proof (cases rule: destroy_context_cases)
  case none
  then have "held_by (sys_proc s) t Exited \<subseteq> held_by (sys_proc s) t (sys_pc s t)"
    by (simp add: held_by_def)
  with none exclusive_okD [OF ok] show ?thesis
    by (intro exclusive_goto [OF ok]) (auto simp: thread_own_def held_by_def)
next
  case (some p1 c)
  note eff = threadExit_effects [OF some(2)]
  have ctx: "ctx_buf (sys_proc s) t = ctx_logBuffer (fst (tls_context t (sys_proc s)))"
    by (simp add: ctx_buf_def some(1))
  have heap: "heap p' x = heap (sys_proc s) x
      \<or> x \<in> held_by (sys_proc s) t (sys_pc s t) \<and> (\<exists>b. heap (sys_proc s) x = Some b
          \<and> heap p' x = Some (b\<lparr>eb_closed := True\<rparr>))" for x
  proof (cases "ctx_buf (sys_proc s) t")
    case None
    then show ?thesis using eff(9) by (simp add: ctx some(3))
  next
    case (Some a)
    then obtain b where "heap (sys_proc s) a = Some b"
      "heap p' = (heap (sys_proc s))(a \<mapsto> b\<lparr>eb_closed := True\<rparr>)"
      using eff(10) by (auto simp: ctx some(3))
    with Some idle show ?thesis by (auto simp: held_by_def)
  qed
  show ?thesis
  proof (rule exclusive_goto [OF ok])
    show "thr_context p' u = thr_context (sys_proc s) u" if "u \<noteq> t" for u
      using that by (simp add: some(3) eff(4))
    show "heap p' x = heap (sys_proc s) x"
      if "u \<noteq> t" "x \<in> held_by (sys_proc s) u (sys_pc s u)" for u x
      using that heap [of x] exclusive_okD(2) [OF ok that(2), of t] by metis
    show "closed_ok p'"
      using exclusive_okD(3) [OF ok]
    proof (rule closed_ok_mono)
      show "is_closed p' x" if "is_closed (sys_proc s) x" for x
        using that heap [of x] by (auto simp: is_closed_def)
    qed (simp_all add: some(3) eff(6,7))
    show "bufs_bounded p'"
      unfolding bufs_bounded_def
    proof (intro allI impI)
      fix x b assume "heap p' x = Some b"
      with heap [of x] exclusive_okD(4) [OF ok] show "0 \<le> eb_events b \<and> eb_events b \<le> MAX_EVENTS + 1"
        by (auto simp: bufs_bounded_def)
    qed
  qed (simp_all add: thread_own_def held_by_def)
qed

lemma exclusive_destroy:
  assumes ok: "exclusive_ok s" and "sys_pc s t = Exited"
  shows "exclusive_ok (goto t Exited (BufferManager_dtor m (sys_proc s)) s)"
proof (rule exclusive_goto [OF ok])
  show "closed_ok (BufferManager_dtor m (sys_proc s))"
    by (rule closed_ok_mono [OF exclusive_okD(3) [OF ok]]) (simp_all add: is_closed_def)
qed (use exclusive_okD(4) [OF ok] in \<open>simp_all add: thread_own_def held_by_def bufs_bounded_def\<close>)

lemma next_deadline:
  assumes "counters_ok d d" and "d + 1 < MAX_EVENTS"
  shows "counters_ok (d + 1) (d + BATCH_SIZE)"
  using assms deadline_step(1) [of d] by (auto simp: post_aligned_def size_defs)

lemma exclusive_app_step:
  assumes sys: "sys_ok tlocal s" and ok: "exclusive_ok s" and "app_step tlocal t s (Inr s')"
    and clean: "no_skip (sys_proc s')"
  shows "exclusive_ok s'"
proof -
  have own: "\<forall>a \<in> held_by (sys_proc s) t (sys_pc s t). is_open (sys_proc s) a"
    and counts: "pc_counts (sys_proc s) t (sys_pc s t)"
    using exclusive_okD(1) [OF ok, of t] by (simp_all add: thread_own_def)
  have pc: "sys_pc s t \<noteq> Exited \<Longrightarrow> pc_ok (sys_proc s) t (sys_pc s t)"
    by (rule thread_ok_pc [OF sys_okD(4) [OF sys]])
  have bound: "0 \<le> eb_events b \<and> eb_events b \<le> MAX_EVENTS + 1" if "heap (sys_proc s) a = Some b" for a b
    using that exclusive_okD(4) [OF ok] by (simp add: bufs_bounded_def)
  from assms(3) show ?thesis
  proof (cases rule: app_step_cases)
    case (begin_run cur)
    with counts show ?thesis by (auto simp: held_by_def intro!: exclusive_move [OF ok])
  next
    case (first_buffer a p)
    then show ?thesis by (auto intro: exclusive_alloc [OF sys ok])
  next
    case (take_ref a b)
    with counts pc show ?thesis
      by (auto simp: held_by_def idle_counts_def intro!: exclusive_move [OF ok])
  next
    case (load ref cur)
    with counts show ?thesis by (auto simp: held_by_def intro!: exclusive_move [OF ok])
  next
    case (store ref curBuf w b)
    have ctx: "ctx_buf (sys_proc s) t = Some (ref_buf ref)" using pc store(1) by (simp add: at_ref_def)
    with own store(1,2) have "\<not> eb_closed b" by (simp add: held_by_def is_open_def)
    moreover have "held_by (sys_proc s) t (after_store ref curBuf) = held_by (sys_proc s) t (sys_pc s t)"
      using store(1) by (simp add: held_by_def after_store_def)
    moreover have "pc_counts q t (after_store ref curBuf)" for q
      using counts store(1)
      by (cases curBuf) (auto simp: after_store_def post_aligned_def)
    ultimately show ?thesis
      unfolding store(5) using bound [OF store(2)] ctx store(1)
      by (intro exclusive_store [OF ok store(2)]) (auto simp: held_by_def)
  next
    case (reclaimed ref)
    with counts show ?thesis
      by (auto simp: held_by_def post_aligned_def intro!: exclusive_move [OF ok])
  next
    case (full ref b won p)
    let ?pc = "NeedBuf (ref\<lparr>ref_nextRdtscTime := ref_nextRdtscTime ref + BATCH_SIZE\<rparr>)"
    from clean full(4) have "no_skip p" by simp
    note same = tryIncEpoch_no_skip [OF full(3) this]
    have held: "held_by p t ?pc = held_by (sys_proc s) t (sys_pc s t)"
      using full(1) by (simp add: held_by_def ctx_buf_def same(2))
    moreover have "thread_own p t ?pc"
      using own counts full(1) unfolding thread_own_def held
      by (auto simp: is_open_def same(1) post_aligned_def)
    ultimately show ?thesis
      unfolding full(4) using exclusive_okD(3,4) [OF ok]
      by (intro exclusive_goto [OF ok]) (auto simp: same bufs_bounded_def)
  next
    case (room ref b)
    with counts next_deadline [of "ref_nextRdtscTime ref"] show ?thesis
      by (auto simp: held_by_def intro!: exclusive_move [OF ok])
  next
    case (new_buffer ref a p)
    then show ?thesis by (auto intro: exclusive_alloc [OF sys ok])
  next
    case (switch ref a b)
    have "pc_counts q t (Logging (ref\<lparr>ref_logBuf := a, ref_buf := a, ref_events := 0,
        ref_nextRdtscTime := BATCH_SIZE\<rparr>))" for q
      by (simp add: post_aligned_def size_defs)
    with switch(1,3) counts pc show ?thesis
      unfolding switch(4) by (intro exclusive_store [OF ok switch(2)]) (auto simp: held_by_def)
  next
    case (end_run ref b)
    have ctx: "ctx_buf (sys_proc s) t = Some (ref_logBuf ref)" using pc end_run(1) by (simp add: at_ref_def)
    let ?b = "b\<lparr>eb_events := ref_events ref, eb_nextRdtscTime := ref_nextRdtscTime ref\<rparr>"
    have "pc_counts (store_buf (ref_logBuf ref) ?b (sys_proc s)) t Idle"
      using counts end_run(1) ctx by (simp add: idle_counts_def ctx_buf_def)
    moreover have "0 \<le> ref_events ref" "ref_events ref \<le> MAX_EVENTS + 1"
      using counts end_run(1) by (simp_all add: post_aligned_def)
    ultimately show ?thesis
      unfolding end_run(3) using ctx end_run(1) own end_run(2)
      by (intro exclusive_store [OF ok end_run(2)]) (auto simp: held_by_def is_open_def)
  next
    case (exit_thread p)
    then show ?thesis by (auto intro: exclusive_exit [OF sys ok])
  next
    case destroy_manager
    then show ?thesis by (auto intro: exclusive_destroy [OF ok])
  qed
qed

lemma closed_ok_set_worker:
  assumes "closed_ok p" and "worker_waited p ((workers p ! k)\<lparr>w_phase := ph\<rparr>)"
  shows "closed_ok (set_worker k ph p)"
proof -
  have "worker_waited (set_worker k ph p) w" if "w \<in> set (workers (set_worker k ph p))" for w
  proof (rule worker_waited_mono)
    show "worker_waited p w"
      using that assms set_update_subset_insert [of "workers p" k "(workers p ! k)\<lparr>w_phase := ph\<rparr>"]
      by (auto simp: closed_ok_def)
  qed (simp add: is_closed_def)
  with assms(1) show ?thesis by (simp add: closed_ok_def is_closed_def)
qed

lemma closed_ok_worker_step:
  assumes ok: "closed_ok p" and k: "k < length (workers p)" and "worker_step k p = Inr p'"
  shows "closed_ok p'"
proof -
  from ok k have waited: "worker_waited p (workers p ! k)" by (simp add: closed_ok_def)
  from assms(3) show ?thesis
  proof (cases rule: worker_step_cases)
    case stutter
    with ok show ?thesis by simp
  next
    case (advance i b)
    with waited show ?thesis
      by (auto simp: worker_waited_def less_Suc_eq is_closed_def intro!: closed_ok_set_worker [OF ok])
  next
    case (count i n)
    have "closed_ok (p\<lparr>printed := printed p @ [WorkerProcessed n]\<rparr>)"
      using ok by (rule closed_ok_mono) (simp_all add: is_closed_def)
    then show ?thesis
      unfolding count(4) using waited count(1,2)
      by (intro closed_ok_set_worker) (auto simp: worker_waited_def is_closed_def in_set_conv_nth)
  next
    case (give_back p1)
    note p1 = release_effects(2) [OF give_back(2)]
    have "is_closed p1 a" if "is_closed p a" for a using that by (simp add: p1 is_closed_def)
    with ok waited give_back(1) have "closed_ok p1"
      by (auto simp: closed_ok_def p1 worker_waited_def is_closed_def split: worker_phase.splits)
    then show ?thesis
      unfolding give_back(3) by (rule closed_ok_set_worker) (simp add: worker_waited_def)
  qed
qed

lemma exclusive_worker:
  assumes ok: "exclusive_ok s" and "k < length (workers (sys_proc s))"
    and call: "worker_step k (sys_proc s) = Inr p"
  shows "exclusive_ok (s\<lparr>sys_proc := p\<rparr>)"
proof -
  note eff = worker_step_effects [OF call]
  have held: "held_by p t pc = held_by (sys_proc s) t pc" for t pc
    by (rule held_by_frame) (simp add: eff)
  have "thread_own p t (sys_pc s t)" for t
    using exclusive_okD(1) [OF ok, of t] by (rule thread_own_frame) (simp_all add: eff)
  moreover have "closed_ok p" using exclusive_okD(3) [OF ok] assms(2) call by (rule closed_ok_worker_step)
  ultimately show ?thesis
    using ok by (simp add: exclusive_ok_def disjoint_held_def held bufs_bounded_def eff(1))
qed

text \<open>Output is only ever appended, so an execution without a skip had none before.\<close>

lemma tls_context_printed: "\<exists>ms. printed (snd (tls_context t p)) = printed p @ ms"
  by (auto simp: tls_context_def Let_def split: option.splits)

lemma app_step_printed:
  assumes "app_step tlocal t s (Inr s')"
  shows "\<exists>ms. printed (sys_proc s') = printed (sys_proc s) @ ms"
  using assms
proof (cases rule: app_step_cases)
  case (first_buffer a p)
  with allocBuffer_effects(9) [OF first_buffer(2)] tls_context_printed show ?thesis by simp
next
  case (full ref b won p)
  have "\<exists>ms. printed p = printed (sys_proc s) @ ms"
  proof (cases won)
    case False
    with full(3) show ?thesis by (auto elim: tryIncEpoch_cases)
  next
    case True
    with full(3) tryIncEpoch_effects(6,7) show ?thesis
      by (cases "activeWorkers (mgr_of tlocal t (sys_proc s)) < MAX_WORKERS") fastforce+
  qed
  with full(4) show ?thesis by simp
next
  case (new_buffer ref a p)
  with allocBuffer_effects(9) [OF new_buffer(2)] tls_context_printed show ?thesis by simp
next
  case (exit_thread p)
  from exit_thread(2) show ?thesis
  proof (cases rule: destroy_context_cases)
    case none
    with exit_thread show ?thesis by simp
  next
    case (some p1 c)
    then show ?thesis
      using threadExit_effects(8) [OF some(2)] tls_context_printed [of t "sys_proc s"] exit_thread(3)
      by auto
  qed
qed simp_all

lemma worker_step_printed: "worker_step k p = Inr p' \<Longrightarrow> \<exists>ms. printed p' = printed p @ ms"
  by (erule worker_step_cases) (auto dest: release_effects(2))

lemma no_skip_step:
  assumes "sys_step tlocal s (Inr s')" and "no_skip (sys_proc s')"
  shows "no_skip (sys_proc s)"
proof -
  have "\<exists>ms. printed (sys_proc s') = printed (sys_proc s) @ ms"
    using assms(1) by (cases rule: sys_step_cases) (auto dest: app_step_printed worker_step_printed)
  with assms(2) show ?thesis by (auto simp: no_skip_def)
qed

lemma reachable_exclusive:
  "reachable tlocal s \<Longrightarrow> no_skip (sys_proc s) \<Longrightarrow> exclusive_ok s"
proof (induction rule: reachable.induct)
  case start
  show ?case by (rule exclusive_ok_init)
next
  case (step s s')
  then have ok: "exclusive_ok s" "sys_ok tlocal s" by (auto dest: no_skip_step intro: reachable_ok)
  from step(2) show ?case
    by (cases rule: sys_step_cases)
      (auto intro: exclusive_app_step [OF ok(2,1)] exclusive_worker [OF ok(1)] step.prems)
qed

end
