(* ===== verification/Safety.thy ===== *)
theory Safety
  imports Ownership
begin

text \<open>
  What follows from the ownership invariant for each kind of step: the references and pointers a
  thread has, and the steps that can fail.
\<close>

section \<open>References and pointers\<close>

fun current_ref :: "app_pc \<Rightarrow> Ref option" where
  "current_ref (Logging ref) = Some ref"
| "current_ref (Loaded ref _) = Some ref"
| "current_ref (Slow ref _) = Some ref"
| "current_ref (NeedBuf ref) = Some ref"
| "current_ref (GotNext ref _) = Some ref"
| "current_ref _ = None"

lemma current_ref_held:
  assumes "sys_ok tlocal s" and "current_ref (sys_pc s t) = Some ref"
  shows "ref_buf ref = ref_logBuf ref" and "ref_buf ref \<in> held_by (sys_proc s) t (sys_pc s t)"
proof -
  have "sys_pc s t \<noteq> Exited" using assms(2) by auto
  with sys_okD(4) [OF assms(1), of t] have "pc_ok (sys_proc s) t (sys_pc s t)" by (rule thread_ok_pc)
  with assms(2) show "ref_buf ref = ref_logBuf ref"
    "ref_buf ref \<in> held_by (sys_proc s) t (sys_pc s t)"
    by (cases "sys_pc s t"; auto simp: at_ref_def held_by_def)+
qed

lemma pointer_held:
  assumes "sys_ok tlocal s" and "log_buffer (sys_proc s) t = Some a" and "sys_pc s t \<noteq> Exited"
  shows "a \<in> held_by (sys_proc s) t (sys_pc s t)"
  using assms sys_okD(4) [OF assms(1), of t] by (auto simp: thread_ok_def held_by_def)

text \<open>A closed buffer is out of every thread's reach.\<close>

lemma closed_unreferenced:
  assumes sys: "sys_ok tlocal s" and ok: "exclusive_ok s" and closed: "is_closed (sys_proc s) a"
  shows "current_ref (sys_pc s t) = Some ref \<Longrightarrow> ref_buf ref \<noteq> a"
    and "sys_pc s t \<noteq> Exited \<Longrightarrow> log_buffer (sys_proc s) t \<noteq> Some a"
proof -
  have unheld: "a \<notin> held_by (sys_proc s) t (sys_pc s t)"
    using exclusive_okD(1) [OF ok, of t] is_closed_not_open [OF closed] by (auto simp: thread_own_def)
  then show "current_ref (sys_pc s t) = Some ref \<Longrightarrow> ref_buf ref \<noteq> a"
    using current_ref_held(2) [OF sys] by metis
  from unheld show "sys_pc s t \<noteq> Exited \<Longrightarrow> log_buffer (sys_proc s) t \<noteq> Some a"
    using pointer_held [OF sys] by metis
qed

section \<open>Which steps can fail\<close>

inductive_cases app_step_InlE: "app_step tlocal t s (Inl e)"

lemmas app_step_failures = app_step_InlE [consumes 1, case_names first_buffer take_ref store deadline
  new_buffer switch end_run exit_thread]

lemma app_step_safe:
  assumes sys: "sys_ok tlocal s" and ok: "exclusive_ok s" and "app_step tlocal t s (Inl e)"
  shows "e = SignedOverflow \<and> bm_epoch (mgr_of tlocal t (sys_proc s)) = INT_MAX"
proof -
  note digest = eq_commute [of "Inl e"] and_then_Inl_iff
  have own: "\<forall>a \<in> held_by (sys_proc s) t (sys_pc s t). is_open (sys_proc s) a"
    and counts: "pc_counts (sys_proc s) t (sys_pc s t)"
    using exclusive_okD(1) [OF ok, of t] by (simp_all add: thread_own_def)
  have refs: "ref_buf ref = ref_logBuf ref" "\<exists>b. heap (sys_proc s) (ref_logBuf ref) = Some b"
    if "current_ref (sys_pc s t) = Some ref" for ref
    using current_ref_held [OF sys that] own by (auto simp: is_open_def)
  from assms(3) show ?thesis
  proof (cases rule: app_step_failures)
    case first_buffer
    with allocBuffer_total [OF sys disjI1 [OF first_buffer(2)]] show ?thesis by (auto simp: digest)
  next
    case (take_ref a)
    then have "a \<in> held_by (sys_proc s) t (sys_pc s t)"
      using thread_ok_pc [OF sys_okD(4) [OF sys, of t]] by (simp add: held_by_def)
    with own take_ref show ?thesis by (auto simp: digest is_open_def getRef_def)
  next
    case (store ref curBuf pc addr val)
    then obtain b where b: "heap (sys_proc s) (ref_buf ref) = Some b" using refs by auto
    with counts store show ?thesis
      by (auto simp: digest post_aligned_def size_defs int_add_def Let_def split: if_splits)
  next
    case (deadline ref b)
    let ?ref1 = "ref\<lparr>ref_nextRdtscTime := ref_nextRdtscTime ref + BATCH_SIZE\<rparr>"
    from deadline counts have "int_add (ref_nextRdtscTime ref) BATCH_SIZE
        = Inr (ref_nextRdtscTime ref + BATCH_SIZE)"
      by (auto simp: post_aligned_def size_defs int_add_def)
    with deadline have fail: "tryIncEpoch (buf_manager_of tlocal t) ?ref1 (sys_proc s) = Inl e"
      by (auto simp: digest Let_def split: if_splits)
    have "mgr_alive (sys_proc s) (buf_manager_of tlocal t)"
      using sys_okD(4) [OF sys, of t] deadline by (simp add: thread_ok_def)
    with tryIncEpoch_fails [OF fail] refs [of ref] deadline
      managers_okD(3,4) [OF sys_okD(2) [OF sys], of "buf_manager_of tlocal t"]
    show ?thesis by auto
  next
    case (new_buffer ref)
    with allocBuffer_total [OF sys disjI2 [OF new_buffer(2)]] show ?thesis by (auto simp: digest)
  next
    case (switch ref a)
    with counts refs [of ref] show ?thesis by (auto simp: digest)
  next
    case (end_run ref)
    with refs [of ref] show ?thesis by (auto simp: digest)
  next
    case exit_thread
    have "mgr_alive (sys_proc s) (buf_manager_of tlocal t)"
      using sys_okD(4) [OF sys, of t] exit_thread by (simp add: thread_ok_def)
    moreover have "\<exists>b. heap (sys_proc s) a = Some b"
      if "ctx_logBuffer (fst (tls_context t (sys_proc s))) = Some a" for a
    proof -
      have "ctx_buf (sys_proc s) t = Some a"
        using that by (cases "thr_context (sys_proc s) t") (simp_all add: ctx_buf_def)
      with own exit_thread show ?thesis by (auto simp: held_by_def is_open_def)
    qed
    ultimately show ?thesis
      using exit_thread
      by (auto simp: digest destroy_context_def Context_dtor_def threadExit_def Let_def
          case_prod_beta modify_buf_def load_buf_Inl_iff split: if_splits option.splits)
  qed
qed

text \<open>The destructor of a manager runs only with the end of its own thread.\<close>

lemma app_step_alive:
  assumes "app_step tlocal t s (Inr s')"
  shows "mgr_alive (sys_proc s') m = mgr_alive (sys_proc s) m \<or> tlocal \<and> m = t \<and> sys_pc s' t = Exited"
  using assms
proof (cases rule: app_step_cases)
  case (full ref b won p)
  then show ?thesis
    by (cases won) (auto elim: tryIncEpoch_cases dest: tryIncEpoch_effects(4))
next
  case (exit_thread p)
  from exit_thread(2) show ?thesis
    by (cases rule: destroy_context_cases)
      (auto simp: exit_thread(3) dest: threadExit_effects(5))
qed (simp_all add: allocBuffer_effects(7))

lemma app_step_exited: "app_step tlocal t s (Inr s') \<Longrightarrow> sys_pc s u = Exited \<Longrightarrow> sys_pc s' u = Exited"
  by (erule app_step_cases) (auto simp: after_store_def split: if_splits)

lemma reachable_alive:
  "reachable tlocal s \<Longrightarrow> mgr_alive (sys_proc s) m \<or> tlocal \<and> sys_pc s m = Exited"
proof (induction rule: reachable.induct)
  case start
  show ?case by (simp add: init_system_def init_process_def)
next
  case (step s s')
  from step(2) show ?case
  proof (cases rule: sys_step_cases)
    case (app t)
    with app_step_alive [OF app, of m] app_step_exited [OF app, of m] step.IH show ?thesis by auto
  next
    case (worker k p)
    with worker_step_effects(5) [OF worker(2)] step.IH show ?thesis by simp
  qed
qed

lemma dtor_effects:
  assumes "destroy_context tlocal t p = Inr p'"
  shows "freeBufs (buf_manager p' m) = freeBufs (buf_manager p m)"
    and "allocatedBufs (buf_manager p' m) = allocatedBufs (buf_manager p m)"
    and "workers p' = workers p"
    and "heap p' = heap p \<or> (\<exists>c b. ctx_buf p t = Some c \<and> heap p c = Some b
      \<and> heap p' = (heap p)(c \<mapsto> b\<lparr>eb_closed := True\<rparr>))"
    and "log_buffer p' = log_buffer p"
proof -
  from assms have "freeBufs (buf_manager p' m) = freeBufs (buf_manager p m)
    \<and> allocatedBufs (buf_manager p' m) = allocatedBufs (buf_manager p m) \<and> workers p' = workers p
    \<and> log_buffer p' = log_buffer p
    \<and> (heap p' = heap p \<or> (\<exists>c b. ctx_buf p t = Some c \<and> heap p c = Some b
      \<and> heap p' = (heap p)(c \<mapsto> b\<lparr>eb_closed := True\<rparr>)))"
  proof (cases rule: destroy_context_cases)
    case (some p1 c)
    note eff = threadExit_effects [OF some(2)]
    have ctx: "ctx_logBuffer (fst (tls_context t p)) = ctx_buf p t"
      using some(1) by (simp add: ctx_buf_def)
    have "heap p1 = heap p \<or> (\<exists>c b. ctx_buf p t = Some c \<and> heap p c = Some b
        \<and> heap p1 = (heap p)(c \<mapsto> b\<lparr>eb_closed := True\<rparr>))"
      using eff(9,10) ctx by (cases "ctx_buf p t") auto
    with eff(3,6,7) some(3) show ?thesis by simp
  qed simp
  then show "freeBufs (buf_manager p' m) = freeBufs (buf_manager p m)"
    "allocatedBufs (buf_manager p' m) = allocatedBufs (buf_manager p m)" "workers p' = workers p"
    "heap p' = heap p \<or> (\<exists>c b. ctx_buf p t = Some c \<and> heap p c = Some b
      \<and> heap p' = (heap p)(c \<mapsto> b\<lparr>eb_closed := True\<rparr>))" "log_buffer p' = log_buffer p" by simp_all
qed

lemma sum_events_ok:
  assumes "\<forall>a \<in> set as. \<exists>b. heap p a = Some b \<and> 0 \<le> eb_events b \<and> eb_events b \<le> MAX_EVENTS + 1"
    and "0 \<le> n" and "n + int (length as) * (MAX_EVENTS + 1) \<le> INT_MAX"
  shows "\<exists>n'. sum_events n as p = Inr n'"
  using assms
proof (induction as arbitrary: n)
  case Nil
  then show ?case by simp
next
  case (Cons a as)
  then obtain b where b: "heap p a = Some b" "0 \<le> eb_events b" "eb_events b \<le> MAX_EVENTS + 1" by auto
  have len: "int (length (a # as)) * (MAX_EVENTS + 1)
      = (MAX_EVENTS + 1) + int (length as) * (MAX_EVENTS + 1)" by (simp add: distrib_right)
  have "0 \<le> int (length as) * (MAX_EVENTS + 1)" by (simp add: size_defs)
  with b Cons.prems(2,3) len have "int_add n (eb_events b) = Inr (n + eb_events b)"
    by (intro int_add_ok) linarith+
  moreover have "\<exists>n'. sum_events (n + eb_events b) as p = Inr n'"
    using Cons.prems b len by (intro Cons.IH) auto
  ultimately show ?case using b by simp
qed

lemma sum_events_fails:
  "sum_events n as p = Inl e \<Longrightarrow> \<forall>a \<in> set as. heap p a \<noteq> None \<Longrightarrow> e = SignedOverflow"
  by (induction as arbitrary: n) (auto simp: and_then_Inl_iff load_buf_Inl_iff int_add_Inl_iff)

lemma worker_buffers_valid:
  assumes "sys_ok tlocal s" and "w \<in> set (workers (sys_proc s))" and "w_phase w \<noteq> Finished"
    and "a \<in> set (w_buffers w)"
  shows "heap (sys_proc s) a \<noteq> None"
  using assms by (intro pools_okD(5) [OF sys_okD(1) [OF assms(1)], of a "w_manager w"])
    (auto simp: in_pool_iff)

lemma worker_step_safe:
  assumes sys: "sys_ok tlocal s" and ok: "exclusive_ok s" and "w = workers (sys_proc s) ! k"
    and "k < length (workers (sys_proc s))" and fail: "worker_step k (sys_proc s) = Inl e"
  shows "e = SignedOverflow \<and> 214 < length (w_buffers w)
    \<or> e = UseAfterFree \<and> w_phase w = Releasing \<and> \<not> mgr_alive (sys_proc s) (w_manager w)"
proof (cases "w_phase w")
  case (Waiting i)
  have w: "w \<in> set (workers (sys_proc s))" using assms(3,4) by simp
  have valid: "\<forall>a \<in> set (w_buffers w). heap (sys_proc s) a \<noteq> None"
    using worker_buffers_valid [OF sys w] Waiting by simp
  have "length (w_buffers w) \<le> i"
  proof (rule ccontr)
    assume i: "\<not> ?thesis"
    with valid have "heap (sys_proc s) (w_buffers w ! i) \<noteq> None" by simp
    with i fail Waiting assms(3) show False
      by (auto simp: worker_step_def Let_def and_then_Inl_iff load_buf_Inl_iff)
  qed
  with fail Waiting assms(3) have sum: "sum_events 0 (w_buffers w) (sys_proc s) = Inl e"
    by (auto simp: worker_step_def Let_def and_then_Inl_iff)
  have "214 < length (w_buffers w)"
  proof (rule ccontr)
    assume "\<not> ?thesis"
    then have "int (length (w_buffers w)) * (MAX_EVENTS + 1) \<le> 214 * (MAX_EVENTS + 1)"
      by (intro mult_right_mono) (simp_all add: size_defs)
    then have "0 + int (length (w_buffers w)) * (MAX_EVENTS + 1) \<le> INT_MAX" by (simp add: size_defs)
    moreover have "\<forall>a \<in> set (w_buffers w). \<exists>b. heap (sys_proc s) a = Some b
        \<and> 0 \<le> eb_events b \<and> eb_events b \<le> MAX_EVENTS + 1"
      using valid exclusive_okD(4) [OF ok] by (auto simp: bufs_bounded_def)
    ultimately show False using sum_events_ok [of "w_buffers w" "sys_proc s" 0] sum by auto
  qed
  with sum_events_fails [OF sum valid] show ?thesis by simp
next
  case Releasing
  have "0 < active (w_manager w) (sys_proc s)"
  proof -
    have "w \<in> set (filter (\<lambda>v. w_manager v = w_manager w \<and> w_phase v \<noteq> Finished)
        (workers (sys_proc s)))" using assms(3,4) Releasing by simp
    then show ?thesis unfolding active_def by (rule length_pos_if_in_set)
  qed
  with managers_okD(1,2) [OF sys_okD(2) [OF sys], of "w_manager w"] Releasing fail assms(3)
  show ?thesis
    by (auto simp: worker_step_def Let_def release_def and_then_Inl_iff int_add_Inl_iff MAX_WORKERS_def)
next
  case Finished
  with fail assms(3) show ?thesis by (simp add: worker_step_def)
qed

end
