(* ===== verification/ManagedLog.thy ===== *)
theory ManagedLog
  imports MainProgram
begin

text \<open>
  \<open>BUFFER_MANAGER\<close>, one call after the other: a thread fills its buffer, ends the epoch with the
  event after the last deadline, and goes on in the next buffer; what goes wrong when the epoch has to
  be skipped.
\<close>

section \<open>Calls that stay in the buffer\<close>

abbreviation managed_log :: "nat \<Rightarrow> nat \<Rightarrow> access \<Rightarrow> ref_state \<Rightarrow> ref_state result" where
  "managed_log this t \<equiv> \<lambda>(pc, addr, val). tsan_write8_buf_manager this t pc addr val"

lemma managed_log_call:
  assumes "log_buffer p t = Some c" and "heap p (ref_buf ref) = Some b"
    and "post_aligned MAX_EVENTS (ref_events ref) (ref_nextRdtscTime ref)"
    and "ref_events ref < MAX_EVENTS"
  shows "tsan_write8_buf_manager this t pc addr val (ref, p) = Inr
     (ref\<lparr>ref_events := ref_events ref + 1,
          ref_nextRdtscTime := if ref_events ref < ref_nextRdtscTime ref then ref_nextRdtscTime ref
            else ref_nextRdtscTime ref + 64\<rparr>,
      store_buf (ref_buf ref)
        (b\<lparr>eb_buf := (eb_buf b)(ref_events ref \<mapsto> encode_src_loc pc addr val)\<rparr>) p)"
  using assms deadline_step(1) [of "ref_nextRdtscTime ref"]
  by (auto simp: tsan_write8_buf_manager_def tsan_write8_buf_manager_slow_def getLogBuffer_def
      post_aligned_def size_defs int_add_def Let_def)

text \<open>Any number of them: the events are stored one after the other and nothing else changes.\<close>

lemma managed_log_fill:
  assumes "log_buffer p t = Some c" and "heap p (ref_buf ref) = Some b"
    and "post_aligned MAX_EVENTS (ref_events ref) (ref_nextRdtscTime ref)"
    and "ref_events ref + int (length es) \<le> MAX_EVENTS"
  shows "\<exists>d. log_all (managed_log this t) es (ref, p) = Inr
      (ref\<lparr>ref_events := ref_events ref + int (length es), ref_nextRdtscTime := d\<rparr>,
       store_buf (ref_buf ref) (b\<lparr>eb_buf :=
         put (map (\<lambda>(pc, addr, val). encode_src_loc pc addr val) es) (ref_events ref) (eb_buf b)\<rparr>) p)
    \<and> post_aligned MAX_EVENTS (ref_events ref + int (length es)) d"
  using assms
proof (induction es arbitrary: ref b p)
  case Nil
  then have "log_all (managed_log this t) [] (ref, p) = Inr
      (ref\<lparr>ref_events := ref_events ref, ref_nextRdtscTime := ref_nextRdtscTime ref\<rparr>,
       store_buf (ref_buf ref) b p)" by (simp add: store_buf_same)
  with Nil show ?case by (intro exI [of _ "ref_nextRdtscTime ref"]) simp
next
  case (Cons e es)
  obtain pc addr val where e: "e = (pc, addr, val)" by (cases e)
  let ?d = "if ref_events ref < ref_nextRdtscTime ref then ref_nextRdtscTime ref
    else ref_nextRdtscTime ref + 64"
  let ?ref = "ref\<lparr>ref_events := ref_events ref + 1, ref_nextRdtscTime := ?d\<rparr>"
  let ?b = "b\<lparr>eb_buf := (eb_buf b)(ref_events ref \<mapsto> encode_src_loc pc addr val)\<rparr>"
  let ?p = "store_buf (ref_buf ref) ?b p"
  from Cons.prems(4) have room: "ref_events ref < MAX_EVENTS" by simp
  have aligned: "post_aligned MAX_EVENTS (ref_events ?ref) (ref_nextRdtscTime ?ref)"
    using Cons.prems(3) room deadline_step(1) [of "ref_nextRdtscTime ref"]
    by (auto simp: post_aligned_def size_defs)
  have prems: "log_buffer ?p t = Some c" "heap ?p (ref_buf ?ref) = Some ?b"
    "ref_events ?ref + int (length es) \<le> MAX_EVENTS"
    using Cons.prems by simp_all
  from Cons.IH [OF prems(1,2) aligned prems(3)] obtain d where
    "log_all (managed_log this t) es (?ref, ?p) = Inr
      (?ref\<lparr>ref_events := ref_events ?ref + int (length es), ref_nextRdtscTime := d\<rparr>,
       store_buf (ref_buf ?ref) (?b\<lparr>eb_buf :=
         put (map (\<lambda>(pc, addr, val). encode_src_loc pc addr val) es) (ref_events ?ref) (eb_buf ?b)\<rparr>) ?p)"
    "post_aligned MAX_EVENTS (ref_events ?ref + int (length es)) d" by blast
  with managed_log_call [OF Cons.prems(1-3) room] show ?case
    by (intro exI [of _ d]) (simp add: e add.assoc)
qed

text \<open>
  With \<open>BUFFER_MANAGER\<close> a thread that starts on an empty buffer stores its first 10 million
  events there in the order it logged them, encoded with location, value and address, without
  touching the manager, its pointer or any other buffer.
\<close>

theorem managed_buffer_fills:
  assumes "log_buffer p t = Some c" and "heap p (ref_buf ref) = Some b" and "ref_events ref = 0"
    and "ref_nextRdtscTime ref = BATCH_SIZE" and "int (length es) \<le> MAX_EVENTS"
  shows "\<exists>ref' b'. log_all (managed_log this t) es (ref, p) = Inr (ref', store_buf (ref_buf ref) b' p)
    \<and> ref_logBuf ref' = ref_logBuf ref \<and> ref_buf ref' = ref_buf ref
    \<and> ref_events ref' = int (length es)
    \<and> (\<forall>j < length es. eb_buf b' (int j)
         = Some (case es ! j of (pc, addr, val) \<Rightarrow> encode_src_loc pc addr val))"
proof -
  have "post_aligned MAX_EVENTS (ref_events ref) (ref_nextRdtscTime ref)"
    using assms(3,4) by (simp add: post_aligned_def size_defs)
  from managed_log_fill [OF assms(1,2) this, of es this] assms(3,5) obtain d where
    "log_all (managed_log this t) es (ref, p) = Inr
      (ref\<lparr>ref_events := int (length es), ref_nextRdtscTime := d\<rparr>,
       store_buf (ref_buf ref) (b\<lparr>eb_buf :=
         put (map (\<lambda>(pc, addr, val). encode_src_loc pc addr val) es) 0 (eb_buf b)\<rparr>) p)" by auto
  moreover have "put (map (\<lambda>(pc, addr, val). encode_src_loc pc addr val) es) 0 (eb_buf b) (int j)
      = Some (case es ! j of (pc, addr, val) \<Rightarrow> encode_src_loc pc addr val)" if "j < length es" for j
    using put_nth [of j "map (\<lambda>(pc, addr, val). encode_src_loc pc addr val) es" 0 "eb_buf b"] that
    by simp
  ultimately show ?thesis by auto
qed

theorem managed_buffer_fills_witness:
  "\<exists>ref' b'. log_all (managed_log 0 0) [(1, 2, 3), (4, 5, 6)] (one_ref, one_buffer)
      = Inr (ref', store_buf 0 b' one_buffer)
    \<and> ref_events ref' = 2 \<and> eb_buf b' 1 = Some (encode_src_loc 4 5 6)"
proof -
  have "int (length [(1, 2, 3) :: access, (4, 5, 6)]) \<le> MAX_EVENTS" by (simp add: size_defs)
  from managed_buffer_fills [OF one_buffer_simps(1), of one_ref new_EventBuffer, OF _ _ _ this, of 0]
  obtain ref' b' where r: "log_all (managed_log 0 0) [(1, 2, 3), (4, 5, 6)] (one_ref, one_buffer)
      = Inr (ref', store_buf 0 b' one_buffer)" "ref_events ref' = 2"
    and slots: "\<forall>j < Suc (Suc 0). eb_buf b' (int j) = Some (case [(1, 2, 3), (4, 5, 6)] ! j of
      (pc, addr, val) \<Rightarrow> encode_src_loc pc addr val)"
    by (auto simp: one_ref_def BATCH_SIZE_def simp del: log_all.simps)
  from slots have "eb_buf b' 1 = Some (encode_src_loc 4 5 6)" by (auto dest: spec [of _ 1])
  with r show ?thesis by blast
qed

section \<open>The call that ends the epoch\<close>

text \<open>The state of a thread whose buffer \<open>a\<close> is full, at the manager \<open>this\<close>.\<close>

definition full_buffer :: "nat \<Rightarrow> nat \<Rightarrow> nat \<Rightarrow> Ref \<Rightarrow> process \<Rightarrow> bool" where
  "full_buffer this t a ref p \<longleftrightarrow>
     mgr_alive p this \<and> log_buffer p t = Some a \<and> ref_logBuf ref = a \<and> ref_buf ref = a
     \<and> ref_events ref = MAX_EVENTS \<and> ref_nextRdtscTime ref = MAX_EVENTS
     \<and> t \<in> tlsBufAddrs (buf_manager p this)
     \<and> heap p a \<noteq> None \<and> eb_epoch (the (heap p a)) = bm_epoch (buf_manager p this)
     \<and> 0 \<le> bm_epoch (buf_manager p this) \<and> bm_epoch (buf_manager p this) < INT_MAX
     \<and> heap p (next_addr p) = None
     \<and> (\<forall>c \<in> set (freeBufs (buf_manager p this)). heap p c \<noteq> None)"

text \<open>The call up to the end of the epoch.\<close>

lemma managed_log_full:
  assumes full: "full_buffer this t a ref p" and b: "heap p a = Some b"
  obtains p1 p2 ref1 where
    "p1 = store_buf a (b\<lparr>eb_buf := (eb_buf b)(MAX_EVENTS \<mapsto> encode_src_loc pc addr val)\<rparr>) p"
    "ref1 = ref\<lparr>ref_events := MAX_EVENTS + 1, ref_nextRdtscTime := MAX_EVENTS + BATCH_SIZE\<rparr>"
    "tryIncEpoch this ref1 p1 = Inr (True, p2)" "getLogBuffer t p2 = None"
    "tsan_write8_buf_manager this t pc addr val (ref, p) = next_buffer this t (ref1, p2)"
proof -
  let ?b = "b\<lparr>eb_buf := (eb_buf b)(MAX_EVENTS \<mapsto> encode_src_loc pc addr val)\<rparr>"
  let ?p1 = "store_buf a ?b p"
  let ?ref1 = "ref\<lparr>ref_events := MAX_EVENTS + 1, ref_nextRdtscTime := MAX_EVENTS + BATCH_SIZE\<rparr>"
  from full b obtain p2 where won: "tryIncEpoch this ?ref1 ?p1 = Inr (True, p2)"
    using tryIncEpoch_won [of ?p1 this ?ref1 ?b] by (auto simp: full_buffer_def)
  moreover from full have "getLogBuffer t p2 = None"
    by (simp add: getLogBuffer_def tryIncEpoch_effects(5) [OF won] full_buffer_def)
  moreover have "tsan_write8_buf_manager this t pc addr val (ref, p) = next_buffer this t (?ref1, p2)"
    using full b won
    by (simp add: tsan_write8_buf_manager_def tsan_write8_buf_manager_slow_def full_buffer_def
        getLogBuffer_def size_defs int_add_def)
  ultimately show ?thesis by (intro that) simp_all
qed

text \<open>The thread goes on in an empty buffer; its old one is closed with the reference's count.\<close>

lemma next_buffer_switches:
  assumes "mgr_alive p this" and "log_buffer p t = None" and b: "heap p (ref_logBuf ref) = Some b"
    and free: "ref_logBuf ref \<notin> set (freeBufs (buf_manager p this))"
      "\<forall>c \<in> set (freeBufs (buf_manager p this)). heap p c \<noteq> None"
    and new: "heap p (next_addr p) = None"
  obtains c b' p1 where "allocBuffer this t p = Inr (c, p1)" "c \<noteq> ref_logBuf ref"
    "heap p1 = (heap p)(c \<mapsto> b')"
    "fresh_buffer (ctx_threadId (fst (tls_context t p))) (bm_epoch (buf_manager p this)) b'"
    "next_buffer this t (ref, p) = Inr (\<lparr>ref_logBuf = c, ref_buf = c, ref_events = 0,
       ref_nextRdtscTime = BATCH_SIZE\<rparr>,
       store_buf (ref_logBuf ref) (b\<lparr>eb_events := ref_events ref, eb_closed := True\<rparr>) p1)"
proof -
  from allocBuffer_ok [OF assms(1,2)] free(2) obtain c p1 where alloc: "allocBuffer this t p = Inr (c, p1)"
    by auto
  note eff = allocBuffer_effects [OF alloc]
  from eff(3) obtain b' where b': "heap p1 = (heap p)(c \<mapsto> b')"
    "fresh_buffer (ctx_threadId (fst (tls_context t p))) (bm_epoch (buf_manager p this)) b'" by blast
  have c: "c \<noteq> ref_logBuf ref" using eff(10) free(1) new b by auto
  with alloc b b'(1) have "next_buffer this t (ref, p) = Inr (\<lparr>ref_logBuf = c, ref_buf = c, ref_events = 0,
      ref_nextRdtscTime = BATCH_SIZE\<rparr>,
      store_buf (ref_logBuf ref) (b\<lparr>eb_events := ref_events ref, eb_closed := True\<rparr>) p1)"
    by (simp add: next_buffer_def)
  with alloc c b' show ?thesis by (rule that)
qed

lemma managed_log_epoch:
  assumes "full_buffer this t a ref p" and "heap p a = Some b"
    and "activeWorkers (buf_manager p this) < MAX_WORKERS"
    and "a \<notin> set (freeBufs (buf_manager p this))"
  shows "\<exists>c b' p'. tsan_write8_buf_manager this t pc addr val (ref, p)
      = Inr (\<lparr>ref_logBuf = c, ref_buf = c, ref_events = 0, ref_nextRdtscTime = BATCH_SIZE\<rparr>, p')
    \<and> c \<noteq> a \<and> log_buffer p' t = Some c
    \<and> heap p' a = Some (b\<lparr>eb_buf := (eb_buf b)(MAX_EVENTS \<mapsto> encode_src_loc pc addr val),
        eb_events := MAX_EVENTS + 1, eb_closed := True\<rparr>)
    \<and> heap p' c = Some b' \<and> eb_events b' = 0 \<and> \<not> eb_closed b'
    \<and> eb_epoch b' = bm_epoch (buf_manager p this) + 1
    \<and> buf_manager p' this = (buf_manager p this)\<lparr>
        activeWorkers := activeWorkers (buf_manager p this) + 1,
        bm_epoch := bm_epoch (buf_manager p this) + 1, allocatedBufs := [c],
        freeBufs := butlast (freeBufs (buf_manager p this)), tlsBufAddrs := {t}\<rparr>
    \<and> workers p' = workers p @ [\<lparr>w_manager = this,
        w_buffers = allocatedBufs (buf_manager p this), w_phase = Waiting 0\<rparr>]
    \<and> (\<forall>u. u \<noteq> t \<longrightarrow> thr_context p' u = thr_context p u)
    \<and> (\<forall>x. x \<noteq> a \<longrightarrow> x \<noteq> c \<longrightarrow> heap p' x = heap p x)
    \<and> (freeBufs (buf_manager p this) = [] \<longrightarrow> heap p c = None)"
proof -
  from managed_log_full [OF assms(1,2), of pc addr val] obtain p1 p2 ref1 where
    p1: "p1 = store_buf a (b\<lparr>eb_buf := (eb_buf b)(MAX_EVENTS \<mapsto> encode_src_loc pc addr val)\<rparr>) p"
    and ref1: "ref1 = ref\<lparr>ref_events := MAX_EVENTS + 1, ref_nextRdtscTime := MAX_EVENTS + BATCH_SIZE\<rparr>"
    and won: "tryIncEpoch this ref1 p1 = Inr (True, p2)" and none: "getLogBuffer t p2 = None"
    and call: "tsan_write8_buf_manager this t pc addr val (ref, p) = next_buffer this t (ref1, p2)" .
  note full = assms(1) [unfolded full_buffer_def]
  from assms(3) have "activeWorkers (buf_manager p1 this) < MAX_WORKERS" by (simp add: p1)
  note inc = tryIncEpoch_effects(1,2,4) [OF won] tryIncEpoch_effects(6) [OF won this]
    tryIncEpoch_effects(3) [OF won]
  have free: "freeBufs (buf_manager p2 this) = freeBufs (buf_manager p this)"
    using inc(4) by (simp add: p1)
  have old: "heap p2 (ref_logBuf ref1)
      = Some (b\<lparr>eb_buf := (eb_buf b)(MAX_EVENTS \<mapsto> encode_src_loc pc addr val)\<rparr>)"
    using full by (simp add: inc(1) p1 ref1)
  have "mgr_alive p2 this" "log_buffer p2 t = None" "heap p2 (next_addr p2) = None"
    "ref_logBuf ref1 \<notin> set (freeBufs (buf_manager p2 this))"
    "\<forall>c \<in> set (freeBufs (buf_manager p2 this)). heap p2 c \<noteq> None"
    unfolding free using full none assms(2,4) by (auto simp: inc(1-3) p1 ref1 getLogBuffer_def)
  from next_buffer_switches [OF this(1,2) old this(4,5,3)] obtain c b' p3 where
    alloc: "allocBuffer this t p2 = Inr (c, p3)" and c: "c \<noteq> ref_logBuf ref1"
    and b': "heap p3 = (heap p2)(c \<mapsto> b')"
      "fresh_buffer (ctx_threadId (fst (tls_context t p2))) (bm_epoch (buf_manager p2 this)) b'"
    and nb: "next_buffer this t (ref1, p2) = Inr (\<lparr>ref_logBuf = c, ref_buf = c, ref_events = 0,
      ref_nextRdtscTime = BATCH_SIZE\<rparr>, store_buf (ref_logBuf ref1)
        (b\<lparr>eb_buf := (eb_buf b)(MAX_EVENTS \<mapsto> encode_src_loc pc addr val),
           eb_events := ref_events ref1, eb_closed := True\<rparr>) p3)" .
  have ref1_simps: "ref_logBuf ref1 = a" "ref_events ref1 = MAX_EVENTS + 1"
    using full by (simp_all add: ref1)
  note call = call [unfolded nb ref1_simps] and c = c [unfolded ref1_simps]
  have "c = next_addr p2" if "freeBufs (buf_manager p this) = []"
    using allocBuffer_effects(10) [OF alloc] that by (simp add: free)
  then have "freeBufs (buf_manager p this) = [] \<longrightarrow> heap p c = None"
    using full inc(2) by (simp add: p1)
  moreover have "\<forall>x. x \<noteq> a \<longrightarrow> x \<noteq> c \<longrightarrow> heap p3 x = heap p x"
    using b'(1) by (simp add: inc(1) p1)
  ultimately show ?thesis
    using call c b' inc free allocBuffer_effects(4,5,6,8) [OF alloc] by (auto simp: p1 fresh_buffer_def)
qed

text \<open>
  C23: while fewer than 32 workers are at work, the event after the last deadline goes to slot 10 million
  (the buffer takes one event more than \<open>MAX_EVENTS\<close>) and ends the epoch: the buffer is closed with its final count, a worker gets all
  buffers of the epoch, and the thread goes on in another, empty buffer of the next epoch.
\<close>

theorem managed_epoch_end:
  assumes "full_buffer this t a ref p" and "heap p a = Some b"
    and "activeWorkers (buf_manager p this) < MAX_WORKERS"
    and "a \<notin> set (freeBufs (buf_manager p this))"
  shows "\<exists>c b' p'. tsan_write8_buf_manager this t pc addr val (ref, p)
      = Inr (\<lparr>ref_logBuf = c, ref_buf = c, ref_events = 0, ref_nextRdtscTime = BATCH_SIZE\<rparr>, p')
    \<and> c \<noteq> a \<and> log_buffer p' t = Some c
    \<and> heap p' a = Some (b\<lparr>eb_buf := (eb_buf b)(MAX_EVENTS \<mapsto> encode_src_loc pc addr val),
        eb_events := MAX_EVENTS + 1, eb_closed := True\<rparr>)
    \<and> heap p' c = Some b' \<and> eb_events b' = 0 \<and> \<not> eb_closed b'
    \<and> eb_epoch b' = bm_epoch (buf_manager p this) + 1
    \<and> buf_manager p' this = (buf_manager p this)\<lparr>
        activeWorkers := activeWorkers (buf_manager p this) + 1,
        bm_epoch := bm_epoch (buf_manager p this) + 1, allocatedBufs := [c],
        freeBufs := butlast (freeBufs (buf_manager p this)), tlsBufAddrs := {t}\<rparr>
    \<and> workers p' = workers p @ [\<lparr>w_manager = this,
        w_buffers = allocatedBufs (buf_manager p this), w_phase = Waiting 0\<rparr>]
    \<and> (\<forall>u. u \<noteq> t \<longrightarrow> thr_context p' u = thr_context p u)"
  using managed_log_epoch [OF assms, of pc addr val] by blast

theorem managed_epoch_end_witness:
  "\<exists>c p'. tsan_write8_buf_manager 0 0 1 2 3 (ref_to 0, two_threads)
      = Inr (\<lparr>ref_logBuf = c, ref_buf = c, ref_events = 0, ref_nextRdtscTime = BATCH_SIZE\<rparr>, p')
    \<and> c \<noteq> 0 \<and> workers p' = [\<lparr>w_manager = 0, w_buffers = [0, 1], w_phase = Waiting 0\<rparr>]"
proof -
  have "full_buffer 0 0 0 (ref_to 0) two_threads"
    by (simp add: full_buffer_def ref_to_def size_defs) (simp add: two_threads_def)
  from managed_epoch_end [OF this two_threads_simps(2), of 1 2 3] show ?thesis
    by (auto simp: MAX_WORKERS_def)
qed

lemma managed_log_skip:
  assumes "full_buffer this t a ref p"
    and "\<not> activeWorkers (buf_manager p this) < MAX_WORKERS"
    and "allocatedBufs (buf_manager p this) \<noteq> []" and "last (allocatedBufs (buf_manager p this)) = a"
  shows "tsan_write8_buf_manager this t pc addr val (ref, p) = Inl AssertionFailed"
proof -
  from assms(1) obtain b where b: "heap p a = Some b" by (auto simp: full_buffer_def)
  from managed_log_full [OF assms(1) b, of pc addr val] obtain p1 p2 ref1 where
    p1: "p1 = store_buf a (b\<lparr>eb_buf := (eb_buf b)(MAX_EVENTS \<mapsto> encode_src_loc pc addr val)\<rparr>) p"
    and ref1: "ref1 = ref\<lparr>ref_events := MAX_EVENTS + 1, ref_nextRdtscTime := MAX_EVENTS + BATCH_SIZE\<rparr>"
    and won: "tryIncEpoch this ref1 p1 = Inr (True, p2)" and none: "getLogBuffer t p2 = None"
    and call: "tsan_write8_buf_manager this t pc addr val (ref, p) = next_buffer this t (ref1, p2)" .
  note full = assms(1) [unfolded full_buffer_def]
  from assms(2) have "\<not> activeWorkers (buf_manager p1 this) < MAX_WORKERS" by (simp add: p1)
  note inc = tryIncEpoch_effects(1,2,4) [OF won] tryIncEpoch_effects(7) [OF won this]
  have free: "freeBufs (buf_manager p2 this)
      = freeBufs (buf_manager p this) @ allocatedBufs (buf_manager p this)"
    using inc(4) by (simp add: p1)
  from assms(3,4) have last: "last (freeBufs (buf_manager p2 this)) = a" by (simp add: free)
  with none full obtain c p3 where alloc: "allocBuffer this t p2 = Inr (c, p3)"
    using allocBuffer_ok [of p2 this t] by (auto simp: getLogBuffer_def inc(1,3) p1)
  have "c = a" using allocBuffer_effects(10) [OF alloc] last assms(3) by (simp add: free)
  with full alloc call show ?thesis
    by (simp add: next_buffer_def ref1 updateLogBuffer_def)
qed

text \<open>
  With 32 workers at work the epoch is skipped, and the full buffer goes back to the pool while
  its thread still refers to it. When it was the last one allocated, \<open>allocBuffer\<close> hands it to the same
  thread again, and the assertion of \<open>updateLogBuffer\<close> fails.
\<close>

theorem skipped_epoch_fails:
  assumes "full_buffer this t a ref p"
    and "\<not> activeWorkers (buf_manager p this) < MAX_WORKERS"
    and "allocatedBufs (buf_manager p this) \<noteq> []" and "last (allocatedBufs (buf_manager p this)) = a"
  shows "tsan_write8_buf_manager this t pc addr val (ref, p) = Inl AssertionFailed"
  by (rule managed_log_skip [OF assms])

text \<open>The same two threads with 32 workers at work.\<close>

definition busy_threads :: process where
  "busy_threads = update_manager 0 (\<lambda>m. m\<lparr>activeWorkers := 32\<rparr>) two_threads"

theorem skipped_epoch_fails_witness:
  "tsan_write8_buf_manager 0 1 1 2 3 (ref_to 1, busy_threads) = Inl AssertionFailed"
proof (rule skipped_epoch_fails)
  show "full_buffer 0 1 1 (ref_to 1) busy_threads"
    by (simp add: full_buffer_def busy_threads_def ref_to_def size_defs) (simp add: two_threads_def)
qed (simp_all add: busy_threads_def MAX_WORKERS_def)

section \<open>A reclaimed buffer\<close>

text \<open>
  C18: when another thread has ended the epoch, a thread finds out with its next event: it stores the event
  in its old buffer, behind those that count, closes the buffer without it, and goes on in an empty
  one. The event is in neither.
\<close>

theorem reclaimed_event_dropped:
  assumes "mgr_alive p this" and "log_buffer p t = None" and "ref_buf ref = ref_logBuf ref"
    and "heap p (ref_logBuf ref) = Some b" and "0 \<le> ref_events ref" and "ref_events ref < BUF_LEN"
    and "ref_logBuf ref \<notin> set (freeBufs (buf_manager p this))"
    and "\<forall>c \<in> set (freeBufs (buf_manager p this)). heap p c \<noteq> None" and "heap p (next_addr p) = None"
  shows "\<exists>c b' p'. tsan_write8_buf_manager this t pc addr val (ref, p)
      = Inr (\<lparr>ref_logBuf = c, ref_buf = c, ref_events = 0, ref_nextRdtscTime = BATCH_SIZE\<rparr>, p')
    \<and> c \<noteq> ref_logBuf ref \<and> heap p' c = Some b' \<and> eb_events b' = 0
    \<and> heap p' (ref_logBuf ref) = Some (b\<lparr>eb_buf := (eb_buf b)(ref_events ref \<mapsto> encode_src_loc pc addr val),
        eb_events := ref_events ref, eb_closed := True\<rparr>)"
proof -
  let ?b = "b\<lparr>eb_buf := (eb_buf b)(ref_events ref \<mapsto> encode_src_loc pc addr val)\<rparr>"
  let ?p1 = "store_buf (ref_logBuf ref) ?b p"
  have call: "tsan_write8_buf_manager this t pc addr val (ref, p) = next_buffer this t (ref, ?p1)"
    using assms(2-6) by (simp add: tsan_write8_buf_manager_def tsan_write8_buf_manager_slow_def getLogBuffer_def)
  have "mgr_alive ?p1 this" "log_buffer ?p1 t = None" "heap ?p1 (ref_logBuf ref) = Some ?b"
    "ref_logBuf ref \<notin> set (freeBufs (buf_manager ?p1 this))"
    "\<forall>c \<in> set (freeBufs (buf_manager ?p1 this)). heap ?p1 c \<noteq> None" "heap ?p1 (next_addr ?p1) = None"
    using assms by auto
  from next_buffer_switches [OF this] obtain c b' p1 where
    "c \<noteq> ref_logBuf ref" "heap p1 = (heap ?p1)(c \<mapsto> b')"
    "fresh_buffer (ctx_threadId (fst (tls_context t ?p1))) (bm_epoch (buf_manager ?p1 this)) b'"
    "next_buffer this t (ref, ?p1) = Inr (\<lparr>ref_logBuf = c, ref_buf = c, ref_events = 0,
       ref_nextRdtscTime = BATCH_SIZE\<rparr>,
       store_buf (ref_logBuf ref) (?b\<lparr>eb_events := ref_events ref, eb_closed := True\<rparr>) p1)" .
  then show ?thesis unfolding call by (intro exI [of _ c] exI [of _ b']) (auto simp: fresh_buffer_def)
qed

text \<open>The second thread's buffer was reclaimed before its next event.\<close>

definition reclaimed_thread :: process where
  "reclaimed_thread = two_threads\<lparr>log_buffer := (log_buffer two_threads)(1 := None)\<rparr>"

theorem reclaimed_event_dropped_witness:
  "\<exists>c b b' p'. tsan_write8_buf_manager 0 1 1 2 3 (ref_to 1, reclaimed_thread)
      = Inr (\<lparr>ref_logBuf = c, ref_buf = c, ref_events = 0, ref_nextRdtscTime = BATCH_SIZE\<rparr>, p')
    \<and> heap p' 1 = Some b \<and> eb_events b = 10000000 \<and> eb_buf b 10000000 = Some (encode_src_loc 1 2 3)
    \<and> heap p' c = Some b' \<and> eb_events b' = 0"
proof -
  have p: "mgr_alive reclaimed_thread 0" "log_buffer reclaimed_thread 1 = None"
    "heap reclaimed_thread = heap two_threads" "freeBufs (buf_manager reclaimed_thread 0) = [2]"
    "next_addr reclaimed_thread = 3"
    by (simp_all add: reclaimed_thread_def) (simp add: two_threads_def)
  moreover have "heap two_threads 3 = None" by (simp add: two_threads_def)
  ultimately show ?thesis
    using reclaimed_event_dropped [OF p(1,2), of "ref_to 1" "new_EventBuffer\<lparr>eb_threadId := 1, eb_epoch := 0\<rparr>" 1 2 3]
    by (auto simp: ref_to_def size_defs)
qed

end
