(* ===== verification/Scenarios.thy ===== *)
theory Scenarios
  imports Safety ManagedLog
begin

text \<open>
  Executions of the concurrent runtime: the sequential log function is what a thread's steps do when
  nothing comes between them, and the failures that the safety theorem leaves open do happen.
\<close>

section \<open>A thread on its own\<close>

definition app_run :: "bool \<Rightarrow> nat \<Rightarrow> system \<Rightarrow> system \<Rightarrow> bool" where
  "app_run tlocal t = rtranclp (\<lambda>s s'. app_step tlocal t s (Inr s'))"

text \<open>The thread gets from \<open>s\<close> to the outcome \<open>r\<close>: a state, or an error of its last step.\<close>

definition leads :: "bool \<Rightarrow> nat \<Rightarrow> system \<Rightarrow> system result \<Rightarrow> bool" where
  "leads tlocal t s r \<longleftrightarrow>
     (case r of
        Inr s' \<Rightarrow> app_run tlocal t s s'
      | Inl e \<Rightarrow> \<exists>s'. app_run tlocal t s s' \<and> app_step tlocal t s' (Inl e))"

lemma goto_goto [simp]: "goto t pc p (goto t pc' p' s) = goto t pc p s"
  by (simp add: goto_def)

lemma leads_last: "app_step tlocal t s r \<Longrightarrow> leads tlocal t s r"
  by (cases r) (auto simp: leads_def app_run_def)

lemma leads_step: "app_step tlocal t s (Inr s1) \<Longrightarrow> leads tlocal t s1 r \<Longrightarrow> leads tlocal t s r"
  by (cases r) (auto simp: leads_def app_run_def intro: converse_rtranclp_into_rtranclp)

lemma app_run_trans [trans]: "app_run tlocal t s s1 \<Longrightarrow> app_run tlocal t s1 s2 \<Longrightarrow> app_run tlocal t s s2"
  by (simp add: app_run_def)

lemma app_run_single: "app_step tlocal t s (Inr s') \<Longrightarrow> app_run tlocal t s s'"
  unfolding app_run_def by (rule r_into_rtranclp)

lemma app_run_reachable: "app_run tlocal t s s' \<Longrightarrow> reachable tlocal s \<Longrightarrow> reachable tlocal s'"
  unfolding app_run_def
  by (induction rule: rtranclp_induct) (auto intro: reachable.step sys_step.app)

lemma leads_next_buffer:
  assumes "sys_pc s t = NeedBuf ref"
  shows "leads tlocal t s (and_then (next_buffer (buf_manager_of tlocal t) t (ref, sys_proc s))
    (\<lambda>(ref', p'). Inr (goto t (Logging ref') p' s)))"
proof (cases "allocBuffer (buf_manager_of tlocal t) t (sys_proc s)")
  case (Inl e)
  with app_step.new_buffer [OF assms, of tlocal] show ?thesis
    by (auto simp: next_buffer_def intro: leads_last)
next
  case (Inr ap)
  obtain a p where ap: "ap = (a, p)" by (cases ap)
  let ?s1 = "goto t (GotNext ref a) p s"
  have "app_step tlocal t s (Inr ?s1)"
    using app_step.new_buffer [OF assms, of tlocal] Inr ap by simp
  moreover have "leads tlocal t ?s1 (and_then (updateLogBuffer ref (Some a) p)
      (\<lambda>(ref', p'). Inr (goto t (Logging ref') p' s)))"
    using app_step.switch [of ?s1 t ref a tlocal] by (auto intro: leads_last)
  ultimately show ?thesis by (auto simp: next_buffer_def Inr ap intro: leads_step)
qed

lemma leads_slow:
  "leads tlocal t (goto t (Slow ref1 cur) p1 s)
     (and_then (tsan_write8_buf_manager_slow (buf_manager_of tlocal t) t cur (ref1, p1))
       (\<lambda>(ref', p'). Inr (goto t (Logging ref') p' s)))"
  (is "leads tlocal t _ (and_then (tsan_write8_buf_manager_slow ?m t cur (ref1, p1)) ?resume)")
proof (cases cur)
  case None
  let ?s = "goto t (Slow ref1 None) p1 s"
  have "app_step tlocal t ?s (Inr (goto t (NeedBuf ref1) p1 s))"
    using app_step.reclaimed [of ?s t ref1 tlocal] by simp
  moreover have "leads tlocal t (goto t (NeedBuf ref1) p1 s)
      (and_then (next_buffer ?m t (ref1, p1)) ?resume)"
    using leads_next_buffer [of "goto t (NeedBuf ref1) p1 s" t ref1 tlocal] by simp
  ultimately show ?thesis by (simp add: None tsan_write8_buf_manager_slow_def leads_step)
next
  case (Some b)
  let ?s = "goto t (Slow ref1 (Some b)) p1 s"
  have dl: "app_step tlocal t ?s (and_then (int_add (ref_nextRdtscTime ref1) BATCH_SIZE) (\<lambda>n.
      let ref2 = ref1\<lparr>ref_nextRdtscTime := n\<rparr> in
      if buffer_size BUFFER_MANAGER \<le> ref_events ref2 then
        and_then (tryIncEpoch ?m ref2 p1) (\<lambda>(_, p). Inr (goto t (NeedBuf ref2) p s))
      else Inr (goto t (Logging ref2) p1 s)))"
    using app_step.deadline [of ?s t ref1 b tlocal]
    by (simp add: Let_def cong: if_cong)
  show ?thesis
  proof (cases "int_add (ref_nextRdtscTime ref1) BATCH_SIZE")
    case (Inl e)
    with dl show ?thesis by (simp add: Some tsan_write8_buf_manager_slow_def leads_last)
  next
    case (Inr n)
    let ?ref2 = "ref1\<lparr>ref_nextRdtscTime := n\<rparr>"
    show ?thesis
    proof (cases "buffer_size BUFFER_MANAGER \<le> ref_events ref1")
      case False
      with dl Inr show ?thesis by (simp add: Some tsan_write8_buf_manager_slow_def leads_last)
    next
      case True
      show ?thesis
      proof (cases "tryIncEpoch ?m ?ref2 p1")
        case (Inl e)
        with dl Inr True show ?thesis
          by (simp add: Some tsan_write8_buf_manager_slow_def leads_last)
      next
        fix wp assume wp: "tryIncEpoch ?m ?ref2 p1 = Inr wp"
        obtain won p2 where "wp = (won, p2)" by (cases wp)
        with dl Inr True wp leads_next_buffer [of "goto t (NeedBuf ?ref2) p2 s" t ?ref2 tlocal]
        show ?thesis by (simp add: Some tsan_write8_buf_manager_slow_def leads_step)
      qed
    qed
  qed
qed

lemma buf_manager_run:
  assumes "sys_pc s t = Logging ref"
  shows "case tsan_write8_buf_manager (buf_manager_of tlocal t) t pc addr val (ref, sys_proc s) of
      Inr (ref', p') \<Rightarrow> app_run tlocal t s (goto t (Logging ref') p' s)
    | Inl e \<Rightarrow> \<exists>s'. app_run tlocal t s s' \<and> app_step tlocal t s' (Inl e)"
proof -
  let ?m = "buf_manager_of tlocal t" and ?p = "sys_proc s" and ?cur = "getLogBuffer t (sys_proc s)"
  let ?resume = "\<lambda>(ref', p'). Inr (goto t (Logging ref') p' s) :: system result"
  let ?s1 = "goto t (Loaded ref ?cur) ?p s"
  have load: "app_step tlocal t s (Inr ?s1)" by (rule app_step.load [OF assms may_load_current])
  have store: "app_step tlocal t ?s1
       (and_then (write_slot (ref_buf ref) (ref_events ref) (encode_src_loc pc addr val) ?p) (\<lambda>p.
        if ?cur = None then Inr (goto t (Slow ref ?cur) p s)
        else and_then (int_add (ref_events ref) 1) (\<lambda>n.
          let ref1 = ref\<lparr>ref_events := n\<rparr> in
          Inr (goto t (if ref_nextRdtscTime ref \<le> ref_events ref then Slow ref1 ?cur
                       else Logging ref1) p s))))"
    using app_step.store [of ?s1 t ref ?cur tlocal pc addr val]
    by (simp add: Let_def cong: if_cong)
  have "leads tlocal t ?s1 (and_then (tsan_write8_buf_manager ?m t pc addr val (ref, ?p)) ?resume)"
  proof (cases "write_slot (ref_buf ref) (ref_events ref) (encode_src_loc pc addr val) ?p")
    case (Inl e)
    with store show ?thesis by (simp add: tsan_write8_buf_manager_def Let_def leads_last)
  next
    case (Inr p1)
    show ?thesis
    proof (cases "?cur = None")
      case True
      with store Inr leads_slow [of tlocal t ref ?cur p1 s] show ?thesis
        by (simp add: tsan_write8_buf_manager_def Let_def leads_step)
    next
      case False
      then obtain c where c: "?cur = Some c" by blast
      show ?thesis
      proof (cases "int_add (ref_events ref) 1")
        case (Inl e)
        with store Inr c show ?thesis by (simp add: tsan_write8_buf_manager_def Let_def leads_last)
      next
        fix n assume n: "int_add (ref_events ref) 1 = Inr n"
        with store Inr c leads_slow [of tlocal t "ref\<lparr>ref_events := n\<rparr>" "Some c" p1 s] show ?thesis
          by (cases "ref_nextRdtscTime ref \<le> ref_events ref")
            (simp_all add: tsan_write8_buf_manager_def Let_def leads_step leads_last)
      qed
    qed
  qed
  with load have "leads tlocal t s
      (and_then (tsan_write8_buf_manager ?m t pc addr val (ref, ?p)) ?resume)" by (rule leads_step)
  then show ?thesis
    by (cases "tsan_write8_buf_manager ?m t pc addr val (ref, ?p)") (auto simp: leads_def)
qed

text \<open>Any number of calls, and the ways in which a reachable state goes on.\<close>

lemma managed_log_run:
  assumes "sys_pc s t = Logging ref"
    and "log_all (managed_log (buf_manager_of tlocal t) t) es (ref, sys_proc s) = Inr (ref', p')"
  shows "app_run tlocal t s (goto t (Logging ref') p' s)"
  using assms
proof (induction es arbitrary: s ref)
  case Nil
  then have "goto t (Logging ref') p' s = s" by (auto simp: goto_def fun_upd_idem)
  then show ?case by (simp add: app_run_def)
next
  case (Cons e es)
  obtain pc addr val where e: "e = (pc, addr, val)" by (cases e)
  from Cons.prems(2) obtain ref1 p1 where
    call: "tsan_write8_buf_manager (buf_manager_of tlocal t) t pc addr val (ref, sys_proc s) = Inr (ref1, p1)"
    and rest: "log_all (managed_log (buf_manager_of tlocal t) t) es (ref1, p1) = Inr (ref', p')"
    by (auto simp: e and_then_Inr_iff)
  have "app_run tlocal t s (goto t (Logging ref1) p1 s)"
    using buf_manager_run [OF Cons.prems(1), of tlocal pc addr val] call by simp
  moreover have "app_run tlocal t (goto t (Logging ref1) p1 s) (goto t (Logging ref') p' s)"
    using Cons.IH [of "goto t (Logging ref1) p1 s" ref1] rest by simp
  ultimately show ?case unfolding app_run_def by simp
qed

section \<open>Building blocks of executions\<close>

text \<open>A thread on a fresh buffer of the current epoch, between two calls.\<close>

definition on_fresh_buffer :: "system \<Rightarrow> nat \<Rightarrow> nat \<Rightarrow> bool" where
  "on_fresh_buffer s t a \<longleftrightarrow>
     sys_pc s t = Logging \<lparr>ref_logBuf = a, ref_buf = a, ref_events = 0, ref_nextRdtscTime = BATCH_SIZE\<rparr>
     \<and> log_buffer (sys_proc s) t = Some a"

lemma reach_app: "reachable tlocal s \<Longrightarrow> app_step tlocal t s (Inr s') \<Longrightarrow> reachable tlocal s'"
  by (auto intro: reachable.step sys_step.app)

lemma start_reachable:
  assumes "reachable tlocal s" and "sys_pc s t = Idle" and "log_buffer (sys_proc s) t = None"
  obtains a p s' where "allocBuffer (buf_manager_of tlocal t) t (sys_proc s) = Inr (a, p)"
    "reachable tlocal s'" "on_fresh_buffer s' t a" "sys_proc s' = p"
    "\<And>u. u \<noteq> t \<Longrightarrow> sys_pc s' u = sys_pc s u" "app_run tlocal t s s'"
proof -
  let ?s1 = "goto t (GotBuf None) (sys_proc s) s"
  have "app_step tlocal t s (Inr ?s1)"
    using app_step.begin_run [OF assms(2), of None] assms(3) by (simp add: may_load_def getLogBuffer_def)
  note begins = app_run_single [OF this]
  from first_buffer_reachable [OF app_run_reachable [OF begins assms(1)], of t] obtain a p where
    call: "allocBuffer (buf_manager_of tlocal t) t (sys_proc s) = Inr (a, p)"
    and "reachable tlocal (goto t (GotBuf (Some a)) p s)" by auto
  let ?s2 = "goto t (GotBuf (Some a)) p s"
    and ?ref = "\<lparr>ref_logBuf = a, ref_buf = a, ref_events = 0, ref_nextRdtscTime = BATCH_SIZE\<rparr>"
  note eff = allocBuffer_effects [OF call]
  from eff(3) obtain b where b: "heap p a = Some b" "eb_events b = 0" "eb_nextRdtscTime b = BATCH_SIZE"
    by (auto simp: fresh_buffer_def)
  note begins
  also have "app_run tlocal t ?s1 ?s2"
    using app_step.first_buffer [of ?s1 t tlocal] call by (intro app_run_single) simp
  also have "app_run tlocal t ?s2 (goto t (Logging ?ref) p s)"
    using app_step.take_ref [of ?s2 t a tlocal] b by (intro app_run_single) (simp add: getRef_def)
  finally have run: "app_run tlocal t s (goto t (Logging ?ref) p s)" .
  from app_run_reachable [OF this assms(1)] run call show ?thesis
    by (intro that [of a p "goto t (Logging ?ref) p s"]) (auto simp: on_fresh_buffer_def eff(4))
qed

lemma end_run_reachable:
  assumes "reachable tlocal s" and "sys_pc s t = Logging ref"
    and "heap (sys_proc s) (ref_logBuf ref) = Some b"
  shows "reachable tlocal (goto t Idle (store_buf (ref_logBuf ref)
    (b\<lparr>eb_events := ref_events ref, eb_nextRdtscTime := ref_nextRdtscTime ref\<rparr>) (sys_proc s)) s)"
  by (rule reach_app [OF assms(1)])
    (use app_step.end_run [OF assms(2), of tlocal] assms(3) in simp)

text \<open>Filling the buffer: the last state before the event that ends the epoch.\<close>

lemma fill_reachable:
  assumes reach: "reachable tlocal s" and fresh: "on_fresh_buffer s t a"
    and epoch: "bm_epoch (mgr_of tlocal t (sys_proc s)) < INT_MAX"
  obtains b b' ref' where "heap (sys_proc s) a = Some b" "b' = b\<lparr>eb_buf := eb_buf b'\<rparr>"
    "ref' = \<lparr>ref_logBuf = a, ref_buf = a, ref_events = MAX_EVENTS, ref_nextRdtscTime = MAX_EVENTS\<rparr>"
    "full_buffer (buf_manager_of tlocal t) t a ref' (store_buf a b' (sys_proc s))"
    "reachable tlocal (goto t (Logging ref') (store_buf a b' (sys_proc s)) s)"
    "app_run tlocal t s (goto t (Logging ref') (store_buf a b' (sys_proc s)) s)"
proof -
  let ?p = "sys_proc s" and ?m = "buf_manager_of tlocal t"
  let ?ref = "\<lparr>ref_logBuf = a, ref_buf = a, ref_events = 0, ref_nextRdtscTime = BATCH_SIZE\<rparr>"
  let ?es = "replicate 10000000 (0, 0, 0) :: access list"
  note sys = reachable_ok [OF reach]
  have pc: "sys_pc s t = Logging ?ref" and lb: "log_buffer ?p t = Some a"
    using fresh by (simp_all add: on_fresh_buffer_def)
  have th: "mgr_alive ?p ?m" "heap ?p a \<noteq> None" "t \<in> tlsBufAddrs (buf_manager ?p ?m)"
    "eb_epoch (the (heap ?p a)) = bm_epoch (buf_manager ?p ?m)"
    using sys_okD(4) [OF sys, of t] pc lb by (auto simp: thread_ok_def)
  then obtain b where b: "heap ?p a = Some b" by blast
  have "post_aligned MAX_EVENTS (ref_events ?ref) (ref_nextRdtscTime ?ref)"
    by (simp add: post_aligned_def size_defs)
  from managed_log_fill [OF lb, of ?ref b ?es ?m] b this obtain d where
    fill: "log_all (managed_log ?m t) ?es (?ref, ?p) = Inr
      (?ref\<lparr>ref_events := 10000000, ref_nextRdtscTime := d\<rparr>,
       store_buf a (b\<lparr>eb_buf := put (map (\<lambda>(pc, addr, val). encode_src_loc pc addr val) ?es) 0 (eb_buf b)\<rparr>) ?p)"
    and d: "post_aligned MAX_EVENTS 10000000 d"
    by (auto simp: size_defs simp del: log_all.simps map_replicate put.simps)
  define b' where
    "b' = b\<lparr>eb_buf := put (map (\<lambda>(pc, addr, val). encode_src_loc pc addr val) ?es) 0 (eb_buf b)\<rparr>"
  define ref' where "ref' = \<lparr>ref_logBuf = a, ref_buf = a, ref_events = MAX_EVENTS,
    ref_nextRdtscTime = MAX_EVENTS\<rparr>"
  from d have "d = MAX_EVENTS" by (simp add: post_aligned_def size_defs)
  with fill have "log_all (managed_log ?m t) ?es (?ref, ?p) = Inr (ref', store_buf a b' ?p)"
    by (simp add: ref'_def b'_def size_defs del: log_all.simps map_replicate put.simps)
  note run = managed_log_run [OF pc this]
  from app_run_reachable [OF this reach]
  have "reachable tlocal (goto t (Logging ref') (store_buf a b' ?p) s)" .
  moreover have "full_buffer ?m t a ref' (store_buf a b' ?p)"
  proof -
    have "heap ?p (next_addr ?p) = None"
      using pools_okD(1) [OF sys_okD(1) [OF sys], of "next_addr ?p"] by simp
    moreover have "next_addr ?p \<noteq> a" using calculation b by auto
    moreover have "heap ?p c \<noteq> None" if "c \<in> set (freeBufs (buf_manager ?p ?m))" for c
      using that by (intro pools_okD(5) [OF sys_okD(1) [OF sys], of _ ?m]) (simp add: in_pool_iff)
    ultimately show ?thesis
      using th lb b epoch managers_okD(3) [OF sys_okD(2) [OF sys], of ?m]
      by (auto simp: full_buffer_def ref'_def b'_def simp del: put.simps map_replicate)
  qed
  moreover have "b' = b\<lparr>eb_buf := eb_buf b'\<rparr>" by (simp add: b'_def)
  ultimately show ?thesis using that b ref'_def run by blast
qed

text \<open>A thread that fills its buffer, up to the call of \<open>allocBuffer\<close>.\<close>

lemma full_buffer_run:
  assumes pc: "sys_pc s t = Logging ref" and full: "full_buffer (buf_manager_of tlocal t) t a ref (sys_proc s)"
  obtains b p ref' where "app_run tlocal t s (goto t (NeedBuf ref') p s)"
    "tryIncEpoch (buf_manager_of tlocal t) ref' (store_buf a b (sys_proc s)) = Inr (True, p)"
    "ref_logBuf ref' = a" "ref_events ref' = MAX_EVENTS + 1"
proof -
  let ?m = "buf_manager_of tlocal t" and ?p = "sys_proc s"
  from full obtain b where b: "heap ?p a = Some b" by (auto simp: full_buffer_def)
  note ref = full [unfolded full_buffer_def]
  from managed_log_full [OF full b, of 0 0 0] obtain p1 p2 ref1 where
    p1: "p1 = store_buf a (b\<lparr>eb_buf := (eb_buf b)(MAX_EVENTS \<mapsto> encode_src_loc 0 0 0)\<rparr>) ?p"
    and ref1: "ref1 = ref\<lparr>ref_events := MAX_EVENTS + 1, ref_nextRdtscTime := MAX_EVENTS + BATCH_SIZE\<rparr>"
    and won: "tryIncEpoch ?m ref1 p1 = Inr (True, p2)" .
  let ?s1 = "goto t (Loaded ref (Some a)) ?p s"
  let ?slow = "ref\<lparr>ref_events := MAX_EVENTS + 1\<rparr>"
  let ?s2 = "goto t (Slow ?slow (Some a)) p1 s"
  have "app_step tlocal t s (Inr ?s1)"
    using app_step.load [OF pc, of "Some a"] ref by (simp add: may_load_def getLogBuffer_def)
  moreover have "app_step tlocal t ?s1 (Inr ?s2)"
    using app_step.store [of ?s1 t ref "Some a" tlocal 0 0 0] ref b
    by (simp add: p1 write_slot_def load_buf_def size_defs int_add_def)
  moreover have "app_step tlocal t ?s2 (Inr (goto t (NeedBuf ref1) p2 s))"
    using app_step.deadline [of ?s2 t ?slow a tlocal] ref won
    by (simp add: ref1 size_defs int_add_def Let_def)
  ultimately have "app_run tlocal t s (goto t (NeedBuf ref1) p2 s)"
    by (meson app_run_single app_run_trans)
  moreover have "ref_logBuf ref1 = a" "ref_events ref1 = MAX_EVENTS + 1" using ref by (simp_all add: ref1)
  ultimately show ?thesis using won unfolding p1 by (intro that)
qed

end
