(* ===== verification/Executions.thy ===== *)
theory Executions
  imports Scenarios
begin

text \<open>
  Whole executions: a thread that goes through epochs, workers that finish, a thread that ends while
  its worker is at work, and a thread that leaves its buffer behind.
\<close>

section \<open>Going through an epoch\<close>

lemma epoch_reachable:
  assumes reach: "reachable tlocal s" and fresh: "on_fresh_buffer s t a"
    and epoch: "bm_epoch (mgr_of tlocal t (sys_proc s)) < INT_MAX"
    and room: "activeWorkers (mgr_of tlocal t (sys_proc s)) < MAX_WORKERS"
    and free: "a \<notin> set (freeBufs (mgr_of tlocal t (sys_proc s)))"
  obtains s' c b where "reachable tlocal s'" "on_fresh_buffer s' t c" "c \<noteq> a"
    "\<And>u. u \<noteq> t \<Longrightarrow> sys_pc s' u = sys_pc s u"
    "\<And>u. u \<noteq> t \<Longrightarrow> thr_context (sys_proc s') u = thr_context (sys_proc s) u"
    "heap (sys_proc s') a = Some b" "eb_closed b" "eb_events b = MAX_EVENTS + 1"
    "mgr_of tlocal t (sys_proc s') = (mgr_of tlocal t (sys_proc s))\<lparr>
       activeWorkers := activeWorkers (mgr_of tlocal t (sys_proc s)) + 1,
       bm_epoch := bm_epoch (mgr_of tlocal t (sys_proc s)) + 1, allocatedBufs := [c],
       freeBufs := butlast (freeBufs (mgr_of tlocal t (sys_proc s))), tlsBufAddrs := {t}\<rparr>"
    "workers (sys_proc s') = workers (sys_proc s) @ [\<lparr>w_manager = buf_manager_of tlocal t,
       w_buffers = allocatedBufs (mgr_of tlocal t (sys_proc s)), w_phase = Waiting 0\<rparr>]"
    "app_run tlocal t s s'" "\<And>x. x \<noteq> a \<Longrightarrow> x \<noteq> c \<Longrightarrow> heap (sys_proc s') x = heap (sys_proc s) x"
    "freeBufs (mgr_of tlocal t (sys_proc s)) = [] \<Longrightarrow> heap (sys_proc s) c = None"
proof -
  let ?p = "sys_proc s" and ?m = "buf_manager_of tlocal t"
  from fill_reachable [OF reach fresh epoch] obtain b b' ref where
    full: "full_buffer ?m t a ref (store_buf a b' ?p)"
    and filled: "app_run tlocal t s (goto t (Logging ref) (store_buf a b' ?p) s)" by metis
  have b': "heap (store_buf a b' ?p) a = Some b'" by simp
  from room free have "activeWorkers (buf_manager (store_buf a b' ?p) ?m) < MAX_WORKERS"
    "a \<notin> set (freeBufs (buf_manager (store_buf a b' ?p) ?m))" by simp_all
  from managed_log_epoch [OF full b' this, of 0 0 0] obtain c b2 p' where
    call: "tsan_write8_buf_manager ?m t 0 0 0 (ref, store_buf a b' ?p)
      = Inr (\<lparr>ref_logBuf = c, ref_buf = c, ref_events = 0, ref_nextRdtscTime = BATCH_SIZE\<rparr>, p')"
    and c: "c \<noteq> a" "log_buffer p' t = Some c"
    and old: "heap p' a = Some (b'\<lparr>eb_buf := (eb_buf b')(MAX_EVENTS \<mapsto> encode_src_loc 0 0 0),
        eb_events := MAX_EVENTS + 1, eb_closed := True\<rparr>)"
    and mgr: "buf_manager p' ?m = (buf_manager ?p ?m)\<lparr>
        activeWorkers := activeWorkers (buf_manager ?p ?m) + 1,
        bm_epoch := bm_epoch (buf_manager ?p ?m) + 1, allocatedBufs := [c],
        freeBufs := butlast (freeBufs (buf_manager ?p ?m)), tlsBufAddrs := {t}\<rparr>"
    and workers: "workers p' = workers ?p @ [\<lparr>w_manager = ?m,
        w_buffers = allocatedBufs (buf_manager ?p ?m), w_phase = Waiting 0\<rparr>]"
    and others: "\<forall>u. u \<noteq> t \<longrightarrow> thr_context p' u = thr_context ?p u"
    and frame: "\<forall>x. x \<noteq> a \<longrightarrow> x \<noteq> c \<longrightarrow> heap p' x = heap ?p x"
    and new: "freeBufs (buf_manager ?p ?m) = [] \<longrightarrow> heap ?p c = None"
    by (auto split: if_splits)
  let ?s' = "goto t (Logging \<lparr>ref_logBuf = c, ref_buf = c, ref_events = 0,
    ref_nextRdtscTime = BATCH_SIZE\<rparr>) p' s"
  note filled
  also have "app_run tlocal t (goto t (Logging ref) (store_buf a b' ?p) s) ?s'"
    using buf_manager_run [of "goto t (Logging ref) (store_buf a b' ?p) s" t ref tlocal 0 0 0] call by simp
  finally have run: "app_run tlocal t s ?s'" .
  from app_run_reachable [OF run reach] run c old mgr workers others frame new show ?thesis
    by (intro that [of ?s' c]) (auto simp: on_fresh_buffer_def)
qed

text \<open>One thread alone, from the start: after \<open>e\<close> epochs \<open>e\<close> workers are at work.\<close>

lemma first_epoch:
  obtains s where "reachable tlocal s" "on_fresh_buffer s 0 0"
    "mgr_of tlocal 0 (sys_proc s) = \<lparr>activeWorkers = 0, bm_epoch = 0, allocatedBufs = [0],
       freeBufs = [], tlsBufAddrs = {0}\<rparr>"
    "\<And>u. u \<noteq> 0 \<Longrightarrow> sys_pc s u = Idle" "workers (sys_proc s) = []"
    "heap (sys_proc s) 1 = None" "app_run tlocal 0 init_system s"
proof -
  have init: "sys_pc init_system 0 = Idle" "log_buffer (sys_proc init_system) 0 = None"
    by (simp_all add: init_system_def init_process_def)
  from start_reachable [OF reachable.start [of tlocal] init] obtain a p s where
    call: "allocBuffer (buf_manager_of tlocal 0) 0 init_process = Inr (a, p)"
    and s: "reachable tlocal s" "on_fresh_buffer s 0 a" "sys_proc s = p"
    and others: "\<And>u. u \<noteq> 0 \<Longrightarrow> sys_pc s u = sys_pc init_system u"
    and run: "app_run tlocal 0 init_system s"
    by (auto simp: init_system_def)
  note eff = allocBuffer_effects [OF call]
  have "a = 0" "next_addr p = 1" using eff(10) by (auto simp: init_process_def new_BufferManager_def)
  moreover have "heap p 1 = None"
    using pools_okD(1) [OF sys_okD(1) [OF reachable_ok [OF s(1)]], of 1] s(3) calculation(2) by simp
  ultimately show ?thesis
    using s others eff(6,8) run
    by (intro that) (auto simp: init_system_def init_process_def new_BufferManager_def)
qed

text \<open>Each of them has one full, closed buffer.\<close>

definition waiting_for :: "nat \<Rightarrow> nat \<Rightarrow> worker" where
  "waiting_for m a = \<lparr>w_manager = m, w_buffers = [a], w_phase = Waiting 0\<rparr>"

definition closed_with :: "process \<Rightarrow> nat \<Rightarrow> int option" where
  "closed_with p a = (case heap p a of None \<Rightarrow> None | Some b \<Rightarrow> if eb_closed b then Some (eb_events b) else None)"

lemma closed_with_cong: "heap p' a = heap p a \<Longrightarrow> closed_with p' a = closed_with p a"
  by (simp add: closed_with_def)

lemma epochs_run:
  "e \<le> 32 \<Longrightarrow> \<exists>s a as. app_run tlocal 0 init_system s \<and> on_fresh_buffer s 0 a
     \<and> mgr_of tlocal 0 (sys_proc s) = \<lparr>activeWorkers = int e, bm_epoch = int e,
         allocatedBufs = [a], freeBufs = [], tlsBufAddrs = {0}\<rparr>
     \<and> (\<forall>u. u \<noteq> 0 \<longrightarrow> sys_pc s u = Idle)
     \<and> workers (sys_proc s) = map (waiting_for (buf_manager_of tlocal 0)) as
     \<and> distinct (a # as) \<and> map (closed_with (sys_proc s)) as = replicate e (Some (MAX_EVENTS + 1))"
proof (induction e)
  case 0
  obtain s where "app_run tlocal 0 init_system s" "on_fresh_buffer s 0 0" "workers (sys_proc s) = []"
    "mgr_of tlocal 0 (sys_proc s) = \<lparr>activeWorkers = 0, bm_epoch = 0, allocatedBufs = [0],
       freeBufs = [], tlsBufAddrs = {0}\<rparr>" "\<And>u. u \<noteq> 0 \<Longrightarrow> sys_pc s u = Idle" by (rule first_epoch) blast
  then show ?case by (intro exI [of _ s] exI [of _ 0] exI [of _ "[]"]) simp
next
  case (Suc e)
  then obtain s a as where run: "app_run tlocal 0 init_system s" and fresh: "on_fresh_buffer s 0 a"
    and mgr: "mgr_of tlocal 0 (sys_proc s) = \<lparr>activeWorkers = int e, bm_epoch = int e,
      allocatedBufs = [a], freeBufs = [], tlsBufAddrs = {0}\<rparr>"
    and idle: "\<forall>u. u \<noteq> 0 \<longrightarrow> sys_pc s u = Idle"
    and workers: "workers (sys_proc s) = map (waiting_for (buf_manager_of tlocal 0)) as"
    and as: "distinct (a # as)" "map (closed_with (sys_proc s)) as = replicate e (Some (MAX_EVENTS + 1))" by auto
  have reach: "reachable tlocal s" by (rule app_run_reachable [OF run reachable.start])
  from Suc.prems mgr have room: "bm_epoch (mgr_of tlocal 0 (sys_proc s)) < INT_MAX"
    "activeWorkers (mgr_of tlocal 0 (sys_proc s)) < MAX_WORKERS"
    "a \<notin> set (freeBufs (mgr_of tlocal 0 (sys_proc s)))" by (simp_all add: MAX_WORKERS_def)
  show ?case
  proof (rule epoch_reachable [OF reach fresh room])
    fix s' c b
    assume s': "on_fresh_buffer s' 0 c" "c \<noteq> a" "\<And>u. u \<noteq> 0 \<Longrightarrow> sys_pc s' u = sys_pc s u"
        "heap (sys_proc s') a = Some b" "eb_closed b" "eb_events b = MAX_EVENTS + 1"
      and mgr': "mgr_of tlocal 0 (sys_proc s') = (mgr_of tlocal 0 (sys_proc s))\<lparr>
       activeWorkers := activeWorkers (mgr_of tlocal 0 (sys_proc s)) + 1,
       bm_epoch := bm_epoch (mgr_of tlocal 0 (sys_proc s)) + 1, allocatedBufs := [c],
       freeBufs := butlast (freeBufs (mgr_of tlocal 0 (sys_proc s))), tlsBufAddrs := {0}\<rparr>"
      and workers': "workers (sys_proc s') = workers (sys_proc s) @ [\<lparr>w_manager = buf_manager_of tlocal 0,
       w_buffers = allocatedBufs (mgr_of tlocal 0 (sys_proc s)), w_phase = Waiting 0\<rparr>]"
      and run': "app_run tlocal 0 s s'"
      and frame: "\<And>x. x \<noteq> a \<Longrightarrow> x \<noteq> c \<Longrightarrow> heap (sys_proc s') x = heap (sys_proc s) x"
      and new: "freeBufs (mgr_of tlocal 0 (sys_proc s)) = [] \<Longrightarrow> heap (sys_proc s) c = None"
    have "closed_with (sys_proc s) x \<noteq> None" if "x \<in> set as" for x
      using as(2) that by (metis image_eqI in_set_replicate list.set_map option.distinct(1))
    moreover have "closed_with (sys_proc s) c = None" using new mgr by (simp add: closed_with_def)
    ultimately have c: "c \<notin> set as" by blast
    have "closed_with (sys_proc s') x = closed_with (sys_proc s) x" if "x \<in> set as" for x
      using that as(1) c by (intro closed_with_cong frame) auto
    then have "map (closed_with (sys_proc s')) as = map (closed_with (sys_proc s)) as" by simp
    then have full: "map (closed_with (sys_proc s')) (as @ [a]) = replicate (Suc e) (Some (MAX_EVENTS + 1))"
      using as(2) s'(4-6) by (simp add: closed_with_def replicate_append_same)
    from run run' have run2: "app_run tlocal 0 init_system s'" by (rule app_run_trans)
    from mgr idle workers as(1) s' mgr' workers' c show ?thesis
      by (intro exI [of _ s'] exI [of _ c] exI [of _ "as @ [a]"] conjI run2 full)
        (auto simp: waiting_for_def)
  qed
qed

lemma epochs_reachable:
  assumes "e \<le> 32"
  shows "\<exists>s a. reachable tlocal s \<and> on_fresh_buffer s 0 a
     \<and> mgr_of tlocal 0 (sys_proc s) = \<lparr>activeWorkers = int e, bm_epoch = int e,
         allocatedBufs = [a], freeBufs = [], tlsBufAddrs = {0}\<rparr>
     \<and> (\<forall>u. u \<noteq> 0 \<longrightarrow> sys_pc s u = Idle)"
  using epochs_run [OF assms, of tlocal] app_run_reachable [OF _ reachable.start [of tlocal]] by blast

section \<open>Other threads\<close>

lemma app_step_others: "app_step tlocal t s (Inr s') \<Longrightarrow> u \<noteq> t \<Longrightarrow> sys_pc s' u = sys_pc s u"
  by (erule app_step_cases) simp_all

text \<open>A thread's steps change no other thread's manager and give no other thread a buffer.\<close>

lemma app_step_other_manager:
  assumes "app_step True t s (Inr s')" and "u \<noteq> t"
  shows "mgr_of True u (sys_proc s') = mgr_of True u (sys_proc s)"
    and "log_buffer (sys_proc s) u = None \<Longrightarrow> log_buffer (sys_proc s') u = None"
proof -
  have "mgr_of True u (sys_proc s') = mgr_of True u (sys_proc s)
    \<and> (log_buffer (sys_proc s) u = None \<longrightarrow> log_buffer (sys_proc s') u = None)"
    using assms(1)
  proof (cases rule: app_step_cases)
    case (first_buffer a p)
    with allocBuffer_effects(4,6) [OF first_buffer(2)] assms(2) show ?thesis by (simp add: buf_manager_of_def)
  next
    case (full ref b won p)
    show ?thesis
    proof (cases won)
      case False
      with full have "p = sys_proc s" by (auto elim: tryIncEpoch_cases)
      with full(4) show ?thesis by simp
    next
      case True
      with full(3) have won: "tryIncEpoch (buf_manager_of True t)
        (ref\<lparr>ref_nextRdtscTime := ref_nextRdtscTime ref + BATCH_SIZE\<rparr>) (sys_proc s) = Inr (True, p)" by simp
      show ?thesis
        using tryIncEpoch_effects(5-7) [OF won] assms(2) full(4)
        by (cases "activeWorkers (mgr_of True t (sys_proc s)) < MAX_WORKERS") (simp_all add: buf_manager_of_def)
    qed
  next
    case (new_buffer ref a p)
    with allocBuffer_effects(4,6) [OF new_buffer(2)] assms(2) show ?thesis by (simp add: buf_manager_of_def)
  next
    case (exit_thread p)
    from exit_thread(2) show ?thesis
    proof (cases rule: destroy_context_cases)
      case none
      with exit_thread(3) show ?thesis by simp
    next
      case (some p1 c)
      with threadExit_effects(3,7) [OF some(2)] assms(2) exit_thread(3) show ?thesis
        by (simp add: buf_manager_of_def)
    qed
  qed simp_all
  then show "mgr_of True u (sys_proc s') = mgr_of True u (sys_proc s)"
    "log_buffer (sys_proc s) u = None \<Longrightarrow> log_buffer (sys_proc s') u = None" by simp_all
qed

section \<open>Threads only add workers\<close>

lemma tryIncEpoch_workers:
  assumes call: "tryIncEpoch m ref p = Inr (won, p')"
  shows "\<exists>ws. workers p' = workers p @ ws"
proof (cases won)
  case False
  with call show ?thesis by (auto elim: tryIncEpoch_cases)
next
  case True
  with call have won: "tryIncEpoch m ref p = Inr (True, p')" by simp
  show ?thesis
    using tryIncEpoch_effects(6,7) [OF won]
    by (cases "activeWorkers (buf_manager p m) < MAX_WORKERS") simp_all
qed

lemma app_step_workers:
  assumes "app_step tlocal t s (Inr s')"
  shows "\<exists>ws. workers (sys_proc s') = workers (sys_proc s) @ ws"
  using assms
proof (cases rule: app_step_cases)
  case (full ref b won p)
  with tryIncEpoch_workers [OF full(3)] show ?thesis by simp
next
  case (exit_thread p)
  with dtor_effects(3) [OF exit_thread(2)] show ?thesis by simp
qed (simp_all add: allocBuffer_effects(8))

section \<open>Skips need 32 workers\<close>

lemma tls_context_no_skip: "no_skip (snd (tls_context t p)) = no_skip p"
  by (auto simp: tls_context_def Let_def no_skip_def split: option.splits)

lemma tryIncEpoch_skip:
  assumes call: "tryIncEpoch this ref p = Inr (won, p')"
  shows "length (workers p) \<le> length (workers p')"
    and "no_skip p \<Longrightarrow> no_skip p' \<or> MAX_WORKERS \<le> activeWorkers (buf_manager p this)"
proof -
  have "length (workers p) \<le> length (workers p') \<and> (no_skip p \<longrightarrow> no_skip p' \<or>
      MAX_WORKERS \<le> activeWorkers (buf_manager p this))"
  proof (cases won)
    case False
    with call show ?thesis by (auto elim: tryIncEpoch_cases)
  next
    case True
    with call have won: "tryIncEpoch this ref p = Inr (True, p')" by simp
    then show ?thesis
      using tryIncEpoch_effects(6,7) [OF won]
      by (cases "activeWorkers (buf_manager p this) < MAX_WORKERS") (auto simp: no_skip_def)
  qed
  then show "length (workers p) \<le> length (workers p')"
    "no_skip p \<Longrightarrow> no_skip p' \<or> MAX_WORKERS \<le> activeWorkers (buf_manager p this)" by auto
qed

lemma app_step_skip:
  assumes sys: "sys_ok tlocal s" and "app_step tlocal t s (Inr s')"
  shows "length (workers (sys_proc s)) \<le> length (workers (sys_proc s'))
    \<and> (no_skip (sys_proc s) \<longrightarrow> no_skip (sys_proc s') \<or> 32 \<le> length (workers (sys_proc s)))"
  using assms(2)
proof (cases rule: app_step_cases)
  case (first_buffer a p)
  then show ?thesis
    using allocBuffer_effects(8,9) [OF first_buffer(2)] tls_context_no_skip [of t "sys_proc s"]
    by (simp add: no_skip_def)
next
  case (new_buffer ref a p)
  then show ?thesis
    using allocBuffer_effects(8,9) [OF new_buffer(2)] tls_context_no_skip [of t "sys_proc s"]
    by (simp add: no_skip_def)
next
  case (full ref b won p)
  have "int (active m (sys_proc s)) \<le> int (length (workers (sys_proc s)))" for m
    by (simp add: active_def)
  then have "activeWorkers (mgr_of tlocal t (sys_proc s)) \<le> int (length (workers (sys_proc s)))"
    unfolding managers_okD(1) [OF sys_okD(2) [OF sys]] .
  with tryIncEpoch_skip [OF full(3)] full(4) show ?thesis by (auto simp: MAX_WORKERS_def)
next
  case (exit_thread p)
  from exit_thread(2) show ?thesis
  proof (cases rule: destroy_context_cases)
    case none
    with exit_thread(3) show ?thesis by simp
  next
    case (some p1 c)
    then show ?thesis
      using threadExit_effects(6,8) [OF some(2)] tls_context_no_skip [of t "sys_proc s"] exit_thread(3)
      by (simp add: no_skip_def)
  qed
qed (simp_all add: no_skip_def)

lemma worker_step_length: "worker_step k p = Inr p' \<Longrightarrow> length (workers p') = length (workers p)"
  by (erule worker_step_cases) (auto dest: release_effects(2))

lemma worker_step_no_skip: "worker_step k p = Inr p' \<Longrightarrow> no_skip p' = no_skip p"
  by (erule worker_step_cases) (auto dest: release_effects(2) simp: no_skip_def)

lemma skip_needs_workers:
  "reachable tlocal s \<Longrightarrow> no_skip (sys_proc s) \<or> 32 \<le> length (workers (sys_proc s))"
proof (induction rule: reachable.induct)
  case start
  show ?case by (simp add: init_system_def init_process_def no_skip_def)
next
  case (step s s')
  note sys = reachable_ok [OF step(1)]
  from step(2) show ?case
  proof (cases rule: sys_step_cases)
    case (app t)
    with app_step_skip [OF sys app] step.IH show ?thesis by auto
  next
    case (worker k p)
    with worker_step_length [OF worker(2)] worker_step_no_skip [OF worker(2)] step.IH show ?thesis
      by simp
  qed
qed

text \<open>
  An epoch that is skipped while the thread's buffer was the last one allocated: the thread gets its full
  buffer back.
\<close>

lemma skip_run:
  assumes reach: "reachable tlocal s" and fresh: "on_fresh_buffer s t a"
    and epoch: "bm_epoch (mgr_of tlocal t (sys_proc s)) < INT_MAX"
    and busy: "\<not> activeWorkers (mgr_of tlocal t (sys_proc s)) < MAX_WORKERS"
    and last: "allocatedBufs (mgr_of tlocal t (sys_proc s)) \<noteq> []"
      "last (allocatedBufs (mgr_of tlocal t (sys_proc s))) = a"
  obtains s' ref where "app_run tlocal t s s'" "sys_pc s' t = GotNext ref a" "ref_logBuf ref = a"
    "ref_events ref = MAX_EVENTS + 1" "workers (sys_proc s') = workers (sys_proc s)" "\<not> no_skip (sys_proc s')"
    "\<And>x. x \<noteq> a \<Longrightarrow> heap (sys_proc s') x = heap (sys_proc s) x"
proof -
  let ?p = "sys_proc s" and ?m = "buf_manager_of tlocal t"
  from fill_reachable [OF reach fresh epoch] obtain b b' ref where
    full: "full_buffer ?m t a ref (store_buf a b' ?p)"
    and filled: "app_run tlocal t s (goto t (Logging ref) (store_buf a b' ?p) s)" by metis
  let ?s1 = "goto t (Logging ref) (store_buf a b' ?p) s"
  have "sys_pc ?s1 t = Logging ref" "full_buffer ?m t a ref (sys_proc ?s1)" using full by simp_all
  from full_buffer_run [OF this] obtain b2 p2 ref2 where
    run: "app_run tlocal t ?s1 (goto t (NeedBuf ref2) p2 ?s1)"
    and inc: "tryIncEpoch ?m ref2 (store_buf a b2 (sys_proc ?s1)) = Inr (True, p2)"
    and ref2: "ref_logBuf ref2 = a" "ref_events ref2 = MAX_EVENTS + 1" .
  from inc have won: "tryIncEpoch ?m ref2 (store_buf a b2 ?p) = Inr (True, p2)" by simp
  have "\<not> activeWorkers (buf_manager (store_buf a b2 ?p) ?m) < MAX_WORKERS" using busy by simp
  note inc = tryIncEpoch_effects(1) [OF won] tryIncEpoch_effects(7) [OF won this]
  let ?s2 = "goto t (NeedBuf ref2) p2 s"
  from run have "app_run tlocal t ?s1 ?s2" by simp
  with filled have run2: "app_run tlocal t s ?s2" by (rule app_run_trans)
  obtain c p3 where alloc: "allocBuffer ?m t p2 = Inr (c, p3)"
    using allocBuffer_total [OF reachable_ok [OF app_run_reachable [OF run2 reach]], of t ref2] by auto
  have "freeBufs (buf_manager p2 ?m) = freeBufs (buf_manager ?p ?m) @ allocatedBufs (buf_manager ?p ?m)"
    using inc(2) by simp
  with last allocBuffer_effects(10) [OF alloc] have c: "c = a" by auto
  have "app_run tlocal t ?s2 (goto t (GotNext ref2 a) p3 s)"
    using app_step.new_buffer [of ?s2 t ref2 tlocal] alloc c by (intro app_run_single) simp
  with run2 have "app_run tlocal t s (goto t (GotNext ref2 a) p3 s)" by (rule app_run_trans)
  moreover have "\<not> no_skip p2" using inc(2) by (auto simp: no_skip_def)
  then have "\<not> no_skip p3"
    using allocBuffer_effects(9) [OF alloc] tls_context_no_skip [of t p2] by (simp add: no_skip_def)
  moreover have "workers p3 = workers ?p" using allocBuffer_effects(8) [OF alloc] inc(2) by simp
  moreover have "heap p3 x = heap ?p x" if "x \<noteq> a" for x
    using allocBuffer_effects(3) [OF alloc] inc(1) c that by auto
  ultimately show ?thesis
    using ref2 by (intro that [of "goto t (GotNext ref2 a) p3 s" ref2]) simp_all
qed

text \<open>So the assertion of \<open>updateLogBuffer\<close> fails.\<close>

lemma skip_fails:
  assumes "sys_pc s t = GotNext ref a" and "ref_logBuf ref = a"
  shows "updateLogBuffer ref (Some a) (sys_proc s) = Inl AssertionFailed"
    and "app_step tlocal t s (Inl AssertionFailed)"
proof -
  show "updateLogBuffer ref (Some a) (sys_proc s) = Inl AssertionFailed"
    using assms(2) by (simp add: updateLogBuffer_def)
  with app_step.switch [OF assms(1), of tlocal] show "app_step tlocal t s (Inl AssertionFailed)" by simp
qed

section \<open>Workers and exits in reachable states\<close>

lemma worker_steps_reachable:
  assumes "reachable tlocal s" and "k < length (workers (sys_proc s))"
  shows "worker_steps k n (sys_proc s) = Inr p \<Longrightarrow>
    reachable tlocal (s\<lparr>sys_proc := p\<rparr>) \<and> length (workers p) = length (workers (sys_proc s))"
proof (induction n arbitrary: p)
  case 0
  with assms(1) show ?case by (cases s) auto
next
  case (Suc n)
  then obtain q where q: "worker_steps k n (sys_proc s) = Inr q" "worker_step k q = Inr p"
    by (auto simp: for_loop_snoc and_then_Inr_iff simp del: for_loop.simps(2))
  from Suc.IH [OF q(1)] have r: "reachable tlocal (s\<lparr>sys_proc := q\<rparr>)"
    "length (workers q) = length (workers (sys_proc s))" by simp_all
  have "sys_step tlocal (s\<lparr>sys_proc := q\<rparr>) (Inr (s\<lparr>sys_proc := p\<rparr>))"
    using sys_step.worker [of k "s\<lparr>sys_proc := q\<rparr>" tlocal] assms(2) r(2) q(2) by simp
  with r worker_step_length [OF q(2)] show ?case by (auto intro: reachable.step)
qed

lemma exit_reachable:
  assumes reach: "reachable tlocal s" and idle: "sys_pc s t = Idle"
    and ctx: "ctx_buf (sys_proc s) t = Some c"
  obtains p where "reachable tlocal (goto t Exited p s)" "mgr_alive p = mgr_alive (sys_proc s)"
    "thr_context p t \<noteq> None" "workers p = workers (sys_proc s)"
    "\<And>a. a \<noteq> c \<Longrightarrow> heap p a = heap (sys_proc s) a" "is_closed p c"
proof -
  let ?p = "sys_proc s" and ?m = "buf_manager_of tlocal t"
  have alive: "mgr_alive ?p ?m" and "heap ?p c \<noteq> None"
    using sys_okD(4) [OF reachable_ok [OF reach], of t] idle ctx by (auto simp: thread_ok_def)
  then obtain b where b: "heap ?p c = Some b" by blast
  from ctx obtain cx where cx: "thr_context ?p t = Some cx" "ctx_logBuffer cx = Some c"
    by (auto simp: ctx_buf_def split: option.splits)
  with alive b have "\<exists>p. destroy_context tlocal t ?p = Inr p"
    by (simp add: destroy_context_def Context_dtor_def threadExit_def tls_context_def)
  then obtain p where p: "destroy_context tlocal t ?p = Inr p" by blast
  have "reachable tlocal (goto t Exited p s)"
    by (rule reach_app [OF reach]) (use app_step.exit_thread [OF idle, of tlocal] p in simp)
  moreover from p have "mgr_alive p = mgr_alive ?p \<and> thr_context p t \<noteq> None \<and> workers p = workers ?p
      \<and> heap p = (heap ?p)(c \<mapsto> b\<lparr>eb_closed := True\<rparr>)"
  proof (cases rule: destroy_context_cases)
    case none
    with cx show ?thesis by simp
  next
    case (some p1 cx')
    from threadExit_effects(4,5,6,10) [OF some(2)] cx b show ?thesis by (simp add: some(3))
  qed
  ultimately show ?thesis by (intro that [of p]) (auto simp: is_closed_def)
qed

text \<open>One thread alone, after its first epoch; the worker has its first buffer.\<close>

lemma second_epoch:
  obtains s c b where "reachable tlocal s" "on_fresh_buffer s 0 c" "c \<noteq> 0"
    "heap (sys_proc s) 0 = Some b" "eb_closed b" "eb_events b = MAX_EVENTS + 1"
    "mgr_of tlocal 0 (sys_proc s) = \<lparr>activeWorkers = 1, bm_epoch = 1, allocatedBufs = [c],
       freeBufs = [], tlsBufAddrs = {0}\<rparr>"
    "workers (sys_proc s) = [\<lparr>w_manager = buf_manager_of tlocal 0, w_buffers = [0],
       w_phase = Waiting 0\<rparr>]"
    "\<And>u. u \<noteq> 0 \<Longrightarrow> sys_pc s u = Idle"
proof -
  obtain s where s: "reachable tlocal s" "on_fresh_buffer s 0 0"
    and mgr: "mgr_of tlocal 0 (sys_proc s) = \<lparr>activeWorkers = 0, bm_epoch = 0, allocatedBufs = [0],
       freeBufs = [], tlsBufAddrs = {0}\<rparr>" and "\<And>u. u \<noteq> 0 \<Longrightarrow> sys_pc s u = Idle"
    and "workers (sys_proc s) = []" by (rule first_epoch [of tlocal]) blast
  moreover from mgr have "bm_epoch (mgr_of tlocal 0 (sys_proc s)) < INT_MAX"
    "activeWorkers (mgr_of tlocal 0 (sys_proc s)) < MAX_WORKERS"
    "0 \<notin> set (freeBufs (mgr_of tlocal 0 (sys_proc s)))" by (simp_all add: MAX_WORKERS_def)
  from epoch_reachable [OF s this] obtain s' c b where "reachable tlocal s'" "on_fresh_buffer s' 0 c"
    "c \<noteq> 0" "\<And>u. u \<noteq> 0 \<Longrightarrow> sys_pc s' u = sys_pc s u" "heap (sys_proc s') 0 = Some b" "eb_closed b" "eb_events b = MAX_EVENTS + 1"
    "mgr_of tlocal 0 (sys_proc s') = (mgr_of tlocal 0 (sys_proc s))\<lparr>
       activeWorkers := activeWorkers (mgr_of tlocal 0 (sys_proc s)) + 1,
       bm_epoch := bm_epoch (mgr_of tlocal 0 (sys_proc s)) + 1, allocatedBufs := [c],
       freeBufs := butlast (freeBufs (mgr_of tlocal 0 (sys_proc s))), tlsBufAddrs := {0}\<rparr>"
    "workers (sys_proc s') = workers (sys_proc s) @ [\<lparr>w_manager = buf_manager_of tlocal 0,
       w_buffers = allocatedBufs (mgr_of tlocal 0 (sys_proc s)), w_phase = Waiting 0\<rparr>]" by metis
  ultimately show ?thesis by (intro that) (auto simp: mgr)
qed

text \<open>Its worker has counted and returns the buffer.\<close>

lemma first_worker_releases:
  obtains s q c b where "reachable True s" "on_fresh_buffer s 0 c" "c \<noteq> 0"
    "heap (sys_proc s) 0 = Some b" "eb_closed b" "eb_events b = MAX_EVENTS + 1"
    "workers (sys_proc s) = [\<lparr>w_manager = 0, w_buffers = [0], w_phase = Releasing\<rparr>]"
    "worker_step 0 (sys_proc s) = Inr q" "freeBufs (buf_manager q 0) = [0]" "length (workers q) = 1"
proof -
  obtain s c b where s: "reachable True s" "on_fresh_buffer s 0 c" "c \<noteq> 0"
    "heap (sys_proc s) 0 = Some b" "eb_closed b" "eb_events b = MAX_EVENTS + 1"
    "buf_manager (sys_proc s) 0 = \<lparr>activeWorkers = 1, bm_epoch = 1, allocatedBufs = [c],
       freeBufs = [], tlsBufAddrs = {0}\<rparr>"
    "workers (sys_proc s) = [\<lparr>w_manager = 0, w_buffers = [0], w_phase = Waiting 0\<rparr>]"
    using second_epoch [of True] unfolding buf_manager_of_def by metis
  have alive: "mgr_alive (sys_proc s) 0"
    using sys_okD(4) [OF reachable_ok [OF s(1)], of 0] s(2)
    by (auto simp: on_fresh_buffer_def thread_ok_def buf_manager_of_def)
  let ?q = "set_worker 0 Releasing (sys_proc s\<lparr>printed := printed (sys_proc s) @
    [WorkerProcessed (MAX_EVENTS + 1)]\<rparr>)"
  have "worker_steps 0 2 (sys_proc s) = Inr ?q"
    using worker_counts [of 0 "sys_proc s" "MAX_EVENTS + 1"] s
    by (simp add: is_closed_def int_add_def size_defs numeral_2_eq_2 del: for_loop.simps)
  with worker_steps_reachable [OF s(1), of 0 2] s(8) have "reachable True (s\<lparr>sys_proc := ?q\<rparr>)"
    by simp
  moreover obtain q where "worker_step 0 ?q = Inr q" "freeBufs (buf_manager q 0) = [0]"
    "length (workers q) = 1"
    using s(7,8) alive by (simp add: worker_step_def release_def int_add_def)
  ultimately show ?thesis
    using s by (intro that [of "s\<lparr>sys_proc := ?q\<rparr>" c b q]) (auto simp: on_fresh_buffer_def)
qed

end
