(* ===== verification/Guarantees.thy ===== *)
theory Guarantees
  imports Executions
begin

text \<open>
  What the concurrent runtime guarantees: no races between threads, between threads and workers, or
  through the pool, and a complete list of the steps that can fail, as long as no epoch is skipped;
  and the executions that show where the guarantees end.
\<close>

section \<open>The log function as steps\<close>

text \<open>
  C11: \<open>__tsan_write8_buf_manager\<close>, run without interruption, is exactly a sequence of the thread's
  atomic steps: where the function returns, they lead to the state it returns with the thread between
  two calls again; where it fails, they lead to a step that fails with the same error.
\<close>

theorem buf_manager_refined:
  assumes "sys_pc s t = Logging ref"
  shows "case tsan_write8_buf_manager (buf_manager_of tlocal t) t pc addr val (ref, sys_proc s) of
      Inr (ref', p') \<Rightarrow> app_run tlocal t s (goto t (Logging ref') p' s)
    | Inl e \<Rightarrow> \<exists>s'. app_run tlocal t s s' \<and> app_step tlocal t s' (Inl e)"
  by (rule buf_manager_run [OF assms])

theorem buf_manager_refined_witness:
  "\<exists>s ref p'. reachable True s \<and> ref_events ref = 1
     \<and> app_run True 0 s (goto 0 (Logging ref) p' s)"
proof -
  obtain s where s: "reachable True s" "on_fresh_buffer s 0 0" by (rule first_epoch [of True])
  let ?ref = "\<lparr>ref_logBuf = 0, ref_buf = 0, ref_events = 0, ref_nextRdtscTime = BATCH_SIZE\<rparr>"
  have pc: "sys_pc s 0 = Logging ?ref" and lb: "log_buffer (sys_proc s) 0 = Some 0"
    using s(2) by (simp_all add: on_fresh_buffer_def)
  with sys_okD(4) [OF reachable_ok [OF s(1)], of 0] obtain b where "heap (sys_proc s) 0 = Some b"
    by (auto simp: thread_ok_def at_ref_def)
  with managed_log_call [OF lb, of ?ref b "buf_manager_of True 0" 1 2 3] obtain ref p' where
    "tsan_write8_buf_manager (buf_manager_of True 0) 0 1 2 3 (?ref, sys_proc s) = Inr (ref, p')"
    "ref_events ref = 1"
    by (auto simp: post_aligned_def size_defs)
  with buf_manager_refined [OF pc, of True 1 2 3] s(1) show ?thesis by auto
qed

section \<open>No races\<close>

text \<open>
  C2: as long as no epoch was skipped, two threads never hold references to the same buffer, and
  no thread's pointer names a buffer that another thread still writes through its reference: every
  event goes to a buffer with a single writer.
\<close>

theorem exclusive_references:
  assumes "reachable tlocal s" and "no_skip (sys_proc s)" and "t \<noteq> u"
    and "current_ref (sys_pc s t) = Some ref"
  shows "(\<forall>ref'. current_ref (sys_pc s u) = Some ref' \<longrightarrow> ref_buf ref' \<noteq> ref_buf ref)
    \<and> (sys_pc s u \<noteq> Exited \<longrightarrow> log_buffer (sys_proc s) u \<noteq> Some (ref_buf ref))"
proof -
  note sys = reachable_ok [OF assms(1)] and ok = reachable_exclusive [OF assms(1,2)]
  have "ref_buf ref \<notin> held_by (sys_proc s) u (sys_pc s u)"
    using current_ref_held(2) [OF sys assms(4)] exclusive_okD(2) [OF ok, of _ t u] assms(3) by blast
  then show ?thesis
    using current_ref_held(2) [OF sys, of u] pointer_held [OF sys, of u] by metis
qed

theorem exclusive_references_witness:
  "\<exists>s r0 r1. reachable False s \<and> current_ref (sys_pc s 0) = Some r0
     \<and> current_ref (sys_pc s 1) = Some r1 \<and> ref_buf r1 \<noteq> ref_buf r0"
proof -
  obtain s0 where s0: "reachable False s0" "on_fresh_buffer s0 0 0"
    "mgr_of False 0 (sys_proc s0) = \<lparr>activeWorkers = 0, bm_epoch = 0, allocatedBufs = [0],
       freeBufs = [], tlsBufAddrs = {0}\<rparr>"
    "\<And>u. u \<noteq> 0 \<Longrightarrow> sys_pc s0 u = Idle" "workers (sys_proc s0) = []" by (rule first_epoch [of False]) blast
  have "log_buffer (sys_proc s0) 1 = None"
    using sys_okD(4) [OF reachable_ok [OF s0(1)], of 1] s0(3,4)
    by (cases "log_buffer (sys_proc s0) 1") (auto simp: thread_ok_def buf_manager_of_def)
  from start_reachable [OF s0(1) _ this] s0(4) obtain a p s where
    call: "allocBuffer (buf_manager_of False 1) 1 (sys_proc s0) = Inr (a, p)"
    and s: "reachable False s" "on_fresh_buffer s 1 a" "sys_proc s = p"
    and pc: "sys_pc s 0 = sys_pc s0 0" by (metis zero_neq_one)
  have "workers (sys_proc s) = []" using allocBuffer_effects(8) [OF call] s(3) s0(5) by simp
  with skip_needs_workers [OF s(1)] have "no_skip (sys_proc s)" by simp
  from exclusive_references [OF s(1) this, of 0 1] s(1,2) s0(2) pc show ?thesis
    by (auto simp: on_fresh_buffer_def)
qed

text \<open>
  C6: as long as no epoch was skipped, a worker that is past its busy-wait reads buffers that are
  closed and that no thread refers to any more, through a reference or through its pointer: their
  number of events is final.
\<close>

theorem workers_read_settled_buffers:
  assumes "reachable tlocal s" and "no_skip (sys_proc s)" and "w \<in> set (workers (sys_proc s))"
    and "w_phase w = Releasing \<or> w_phase w = Waiting (length (w_buffers w))"
    and "a \<in> set (w_buffers w)"
  shows "(\<exists>b. heap (sys_proc s) a = Some b \<and> eb_closed b)
    \<and> (\<forall>t ref. current_ref (sys_pc s t) = Some ref \<longrightarrow> ref_buf ref \<noteq> a)
    \<and> (\<forall>t. sys_pc s t \<noteq> Exited \<longrightarrow> log_buffer (sys_proc s) t \<noteq> Some a)"
proof -
  note sys = reachable_ok [OF assms(1)] and ok = reachable_exclusive [OF assms(1,2)]
  have "worker_waited (sys_proc s) w"
    using exclusive_okD(3) [OF ok] assms(3) by (simp add: closed_ok_def)
  moreover from assms(5) obtain j where "j < length (w_buffers w)" "a = w_buffers w ! j"
    by (auto simp: in_set_conv_nth)
  ultimately have "is_closed (sys_proc s) a"
    using assms(4,5) by (auto simp: worker_waited_def simp del: nth_mem)
  with closed_unreferenced [OF sys ok this] show ?thesis by (auto simp: is_closed_def)
qed

theorem workers_read_settled_buffers_witness:
  "\<exists>s w. reachable True s \<and> workers (sys_proc s) = [w] \<and> w_phase w = Releasing \<and> w_buffers w = [0]
     \<and> log_buffer (sys_proc s) 0 \<noteq> Some 0"
proof -
  obtain s c b where s: "reachable True s" "on_fresh_buffer s 0 c" "c \<noteq> 0"
    "heap (sys_proc s) 0 = Some b" "eb_closed b" "eb_events b = MAX_EVENTS + 1"
    "workers (sys_proc s) = [\<lparr>w_manager = buf_manager_of True 0, w_buffers = [0], w_phase = Waiting 0\<rparr>]"
    using second_epoch [of True] by metis
  let ?q = "set_worker 0 Releasing (sys_proc s\<lparr>printed := printed (sys_proc s) @
    [WorkerProcessed (MAX_EVENTS + 1)]\<rparr>)"
  have "worker_steps 0 2 (sys_proc s) = Inr ?q"
    using worker_counts [of 0 "sys_proc s" "MAX_EVENTS + 1"] s
    by (simp add: is_closed_def int_add_def size_defs numeral_2_eq_2 del: for_loop.simps)
  with worker_steps_reachable [OF s(1), of 0 2] s(7) have r: "reachable True (s\<lparr>sys_proc := ?q\<rparr>)"
    by simp
  have "no_skip ?q" using skip_needs_workers [OF r] s(7) by simp
  with workers_read_settled_buffers [OF r, of "workers ?q ! 0" 0] s(2,3,7) r show ?thesis
    by (intro exI [of _ "s\<lparr>sys_proc := ?q\<rparr>"]) (auto simp: on_fresh_buffer_def)
qed

text \<open>
  As long as no epoch was skipped, a buffer in a manager's pool is referenced by no thread, so
  that \<open>allocBuffer\<close> never resets a buffer in use.
\<close>

theorem pool_buffers_unreferenced:
  assumes "reachable tlocal s" and "no_skip (sys_proc s)"
    and "a \<in> set (freeBufs (buf_manager (sys_proc s) m))"
  shows "(\<forall>t ref. current_ref (sys_pc s t) = Some ref \<longrightarrow> ref_buf ref \<noteq> a)
    \<and> (\<forall>t. sys_pc s t \<noteq> Exited \<longrightarrow> log_buffer (sys_proc s) t \<noteq> Some a)"
proof -
  note sys = reachable_ok [OF assms(1)] and ok = reachable_exclusive [OF assms(1,2)]
  have "is_closed (sys_proc s) a"
    using exclusive_okD(3) [OF ok] assms(3) by (auto simp: closed_ok_def)
  with closed_unreferenced [OF sys ok this] show ?thesis by blast
qed

theorem pool_buffers_unreferenced_witness:
  "\<exists>s. reachable True s \<and> freeBufs (buf_manager (sys_proc s) 0) = [0]
     \<and> log_buffer (sys_proc s) 0 \<noteq> Some 0"
proof -
  obtain s q c where s: "reachable True s" "on_fresh_buffer s 0 c"
    "workers (sys_proc s) = [\<lparr>w_manager = 0, w_buffers = [0], w_phase = Releasing\<rparr>]"
    "worker_step 0 (sys_proc s) = Inr q" "freeBufs (buf_manager q 0) = [0]" "length (workers q) = 1"
    by (rule first_worker_releases)
  have r: "reachable True (s\<lparr>sys_proc := q\<rparr>)"
    using sys_step.worker [of 0 s True] s(1,3,4) by (auto intro: reachable.step)
  have "no_skip q" using skip_needs_workers [OF r] s(6) by simp
  with pool_buffers_unreferenced [OF r, of 0 0] s r show ?thesis
    by (intro exI [of _ "s\<lparr>sys_proc := q\<rparr>"]) (auto simp: on_fresh_buffer_def)
qed

section \<open>Which steps can fail\<close>

text \<open>
  C7: as long as no epoch was skipped, no interleaving of threads and workers fails an assertion,
  dereferences a null or invalid pointer or accesses a buffer outside its bounds. What can fail: the
  epoch number after \<open>INT_MAX\<close> epochs, a worker's count over more than 214 buffers, and, with a
  manager per thread, the call of \<open>release\<close> on the manager of a thread that has exited.
\<close>

theorem only_known_failures:
  assumes "reachable tlocal s" and "no_skip (sys_proc s)" and "sys_step tlocal s (Inl e)"
  shows "e = SignedOverflow \<and> ((\<exists>m. bm_epoch (buf_manager (sys_proc s) m) = INT_MAX)
        \<or> (\<exists>w \<in> set (workers (sys_proc s)). 214 < length (w_buffers w)))
    \<or> tlocal \<and> e = UseAfterFree \<and> (\<exists>w \<in> set (workers (sys_proc s)).
        w_phase w = Releasing \<and> sys_pc s (w_manager w) = Exited)"
proof -
  note sys = reachable_ok [OF assms(1)] and ok = reachable_exclusive [OF assms(1,2)]
  from assms(3) consider t where "app_step tlocal t s (Inl e)"
    | k where "k < length (workers (sys_proc s))" "worker_step k (sys_proc s) = Inl e"
    by (auto simp: sys_step_iff eq_commute [of "Inl e"] and_then_Inl_iff)
  then show ?thesis
  proof cases
    case (1 t)
    with app_step_safe [OF sys ok 1] show ?thesis by blast
  next
    case (2 k)
    with worker_step_safe [OF sys ok refl 2] reachable_alive [OF assms(1)] show ?thesis
      by (meson nth_mem)
  qed
qed

text \<open>
  A thread that fills one buffer and ends while the worker of that buffer is about to give it back: the
  context is destroyed, the thread's manager not yet.
\<close>

lemma exit_before_release:
  "\<exists>s. reachable True s \<and> no_skip (sys_proc s) \<and> sys_pc s 0 = Exited \<and> thr_context (sys_proc s) 0 \<noteq> None
     \<and> mgr_alive (sys_proc s) 0
     \<and> workers (sys_proc s) = [\<lparr>w_manager = 0, w_buffers = [0], w_phase = Releasing\<rparr>]"
proof -
  obtain s c b q where s: "reachable True s" "on_fresh_buffer s 0 c" "c \<noteq> 0" "heap (sys_proc s) 0 = Some b"
    "workers (sys_proc s) = [\<lparr>w_manager = 0, w_buffers = [0], w_phase = Releasing\<rparr>]"
    "worker_step 0 (sys_proc s) = Inr q"
    by (rule first_worker_releases)
  have alive: "mgr_alive (sys_proc s) 0"
    using s(5,6) by (auto simp: worker_step_def release_def and_then_Inr_iff)
  let ?ref = "\<lparr>ref_logBuf = c, ref_buf = c, ref_events = 0, ref_nextRdtscTime = BATCH_SIZE\<rparr>"
  have pc: "sys_pc s 0 = Logging ?ref" using s(2) by (simp add: on_fresh_buffer_def)
  with sys_okD(4) [OF reachable_ok [OF s(1)], of 0] have ctx: "ctx_buf (sys_proc s) 0 = Some c"
    and "heap (sys_proc s) c \<noteq> None" by (auto simp: thread_ok_def at_ref_def)
  then obtain bc where bc: "heap (sys_proc s) c = Some bc" by blast
  define s1 where "s1 = goto 0 Idle (store_buf c
    (bc\<lparr>eb_events := 0, eb_nextRdtscTime := BATCH_SIZE\<rparr>) (sys_proc s)) s"
  have s1: "reachable True s1" "sys_pc s1 0 = Idle" "ctx_buf (sys_proc s1) 0 = Some c"
    "workers (sys_proc s1) = workers (sys_proc s)" "mgr_alive (sys_proc s1) 0"
    using end_run_reachable [OF s(1) pc, of bc] bc ctx alive by (simp_all add: s1_def ctx_buf_def)
  from exit_reachable [OF s1(1-3)] obtain p where p: "reachable True (goto 0 Exited p s1)"
    "mgr_alive p = mgr_alive (sys_proc s1)" "thr_context p 0 \<noteq> None" "workers p = workers (sys_proc s1)" by metis
  then have "no_skip p" using skip_needs_workers [OF p(1)] s1(4) s(5) by simp
  with p s1(4,5) s(5) show ?thesis by (intro exI [of _ "goto 0 Exited p s1"]) simp
qed

text \<open>If the thread destroys the manager first, the worker calls \<open>release\<close> on the destroyed manager.\<close>

lemma destroyed_manager_released:
  assumes "sys_pc s t = Exited" and "thr_context (sys_proc s) t \<noteq> None" and "mgr_alive (sys_proc s) t"
    and "workers (sys_proc s) ! k = \<lparr>w_manager = t, w_buffers = as, w_phase = Releasing\<rparr>"
  shows "app_step True t s (Inr (goto t Exited (BufferManager_dtor t (sys_proc s)) s))"
    and "worker_step k (BufferManager_dtor t (sys_proc s)) = Inl UseAfterFree"
  using app_step.destroy_manager [of True s t] assms
  by (simp_all add: buf_manager_of_def worker_step_def release_def lock_monitor_def)

lemma release_after_exit:
  "\<exists>s. reachable True s \<and> no_skip (sys_proc s) \<and> sys_step True s (Inl UseAfterFree)"
proof -
  obtain s where s: "reachable True s" "no_skip (sys_proc s)" "sys_pc s 0 = Exited"
    "thr_context (sys_proc s) 0 \<noteq> None" "mgr_alive (sys_proc s) 0"
    "workers (sys_proc s) = [\<lparr>w_manager = 0, w_buffers = [0], w_phase = Releasing\<rparr>]"
    using exit_before_release by blast
  let ?q = "BufferManager_dtor 0 (sys_proc s)"
  note dtor = destroyed_manager_released [OF s(3-5), of 0 "[0]"]
  have "app_step True 0 s (Inr (goto 0 Exited ?q s))" by (rule dtor(1)) (simp add: s(6))
  with s(1) have r: "reachable True (goto 0 Exited ?q s)" by (rule reach_app)
  have "worker_step 0 ?q = Inl UseAfterFree" by (rule dtor(2)) (simp add: s(6))
  with sys_step.worker [of 0 "goto 0 Exited ?q s" True] s(6)
  have "sys_step True (goto 0 Exited ?q s) (Inl UseAfterFree)" by simp
  moreover have "no_skip ?q" using s(2) by (simp add: no_skip_def)
  ultimately show ?thesis using r by (intro exI [of _ "goto 0 Exited ?q s"]) simp
qed

theorem only_known_failures_witness:
  "\<exists>s. reachable True s \<and> (\<exists>w \<in> set (workers (sys_proc s)).
     w_phase w = Releasing \<and> sys_pc s (w_manager w) = Exited)"
proof -
  obtain s where s: "reachable True s" "no_skip (sys_proc s)" "sys_step True s (Inl UseAfterFree)"
    using release_after_exit by blast
  from only_known_failures [OF this] s(1) show ?thesis by auto
qed

section \<open>Where the guarantees end\<close>

text \<open>A thread alone that goes through 32 epochs while no worker takes a step, and fills its 33rd buffer.\<close>

lemma epoch_skipped:
  "\<exists>s ref as. app_run tlocal 0 init_system s \<and> \<not> no_skip (sys_proc s)
     \<and> workers (sys_proc s) = map (waiting_for (buf_manager_of tlocal 0)) as
     \<and> map (closed_with (sys_proc s)) as = replicate 32 (Some 10000001)
     \<and> distinct (ref_logBuf ref # as) \<and> ref_events ref = 10000001
     \<and> sys_pc s 0 = GotNext ref (ref_logBuf ref)"
proof -
  from epochs_run [of 32 tlocal] obtain s a as where
    run: "app_run tlocal 0 init_system s" and fresh: "on_fresh_buffer s 0 a"
    and mgr: "mgr_of tlocal 0 (sys_proc s) = \<lparr>activeWorkers = 32, bm_epoch = 32,
      allocatedBufs = [a], freeBufs = [], tlsBufAddrs = {0}\<rparr>"
    and as: "workers (sys_proc s) = map (waiting_for (buf_manager_of tlocal 0)) as" "distinct (a # as)"
      "map (closed_with (sys_proc s)) as = replicate 32 (Some (MAX_EVENTS + 1))" by auto
  have "reachable tlocal s" by (rule app_run_reachable [OF run reachable.start])
  then obtain s' ref where s': "app_run tlocal 0 s s'" "sys_pc s' 0 = GotNext ref a" "ref_logBuf ref = a"
    "ref_events ref = MAX_EVENTS + 1" "workers (sys_proc s') = workers (sys_proc s)" "\<not> no_skip (sys_proc s')"
    and frame: "\<And>x. x \<noteq> a \<Longrightarrow> heap (sys_proc s') x = heap (sys_proc s) x"
    by (rule skip_run [OF _ fresh]) (simp_all add: mgr MAX_WORKERS_def)
  have "map (closed_with (sys_proc s')) as = map (closed_with (sys_proc s)) as"
    using as(2) by (intro map_cong refl closed_with_cong frame) auto
  moreover have "app_run tlocal 0 init_system s'" using run s'(1) by (rule app_run_trans)
  ultimately show ?thesis
    using as s'(2-6) by (intro exI [of _ s'] exI [of _ ref] exI [of _ as]) (simp add: size_defs)
qed

text \<open>
  C16: the assertion can fail: when a single thread has filled 33 buffers and no worker has taken a step
  yet, so that 32 workers have a full and closed buffer each and the epoch is skipped, \<open>allocBuffer\<close>
  gives the thread its full buffer back, and the assertion of \<open>updateLogBuffer\<close> fails, with one manager
  per thread as with a shared one.
\<close>

theorem skipped_epoch_reachable:
  "\<exists>s ref as. app_run tlocal 0 init_system s \<and> \<not> no_skip (sys_proc s)
     \<and> workers (sys_proc s)
        = map (\<lambda>a. \<lparr>w_manager = buf_manager_of tlocal 0, w_buffers = [a], w_phase = Waiting 0\<rparr>) as
     \<and> map (closed_with (sys_proc s)) as = replicate 32 (Some 10000001)
     \<and> distinct (ref_logBuf ref # as) \<and> ref_events ref = 10000001
     \<and> sys_pc s 0 = GotNext ref (ref_logBuf ref)
     \<and> updateLogBuffer ref (Some (ref_logBuf ref)) (sys_proc s) = Inl AssertionFailed
     \<and> app_step tlocal 0 s (Inl AssertionFailed)"
  using epoch_skipped [of tlocal] skip_fails [OF _ refl] unfolding waiting_for_def by blast

text \<open>
  An epoch is skipped only after 32 workers have been started; until then the guarantees above
  hold without a condition.
\<close>

theorem skips_need_32_workers:
  assumes "reachable tlocal s" and "TooManyWorkers e \<in> set (printed (sys_proc s))"
  shows "32 \<le> length (workers (sys_proc s))"
  using skip_needs_workers [OF assms(1)] assms(2) by (auto simp: no_skip_def)

theorem skips_need_32_workers_witness:
  "\<exists>s e. reachable False s \<and> TooManyWorkers e \<in> set (printed (sys_proc s))
     \<and> 32 \<le> length (workers (sys_proc s))"
proof -
  obtain s where s: "reachable False s" "\<not> no_skip (sys_proc s)"
    using epoch_skipped [of False] app_run_reachable [OF _ reachable.start [of False]] by blast
  then obtain e where e: "TooManyWorkers e \<in> set (printed (sys_proc s))" by (auto simp: no_skip_def)
  with skips_need_32_workers [OF s(1) e] s(1) show ?thesis by blast
qed

section \<open>Buffers left behind\<close>

text \<open>An open buffer that a worker waits for and that no thread can close any more.\<close>

definition abandoned :: "system \<Rightarrow> nat \<Rightarrow> nat \<Rightarrow> bool" where
  "abandoned s k a \<longleftrightarrow> k < length (workers (sys_proc s))
     \<and> (\<exists>i. w_phase (workers (sys_proc s) ! k) = Waiting i
          \<and> i < length (w_buffers (workers (sys_proc s) ! k))
          \<and> w_buffers (workers (sys_proc s) ! k) ! i = a)
     \<and> is_open (sys_proc s) a \<and> (\<forall>t. a \<notin> held_by (sys_proc s) t (sys_pc s t))"

lemma alloc_other_buffer:
  assumes sys: "sys_ok tlocal s" and ok: "exclusive_ok s" and open_a: "is_open (sys_proc s) a"
    and call: "allocBuffer m t (sys_proc s) = Inr (c, p)"
  shows "c \<noteq> a" and "heap p a = heap (sys_proc s) a"
proof -
  show "c \<noteq> a"
    using allocBuffer_unowned(3) [OF sys_okD(1) [OF sys] call] exclusive_okD(3) [OF ok] open_a
    by (auto simp: closed_ok_def is_open_def dest!: bspec is_closed_not_open)
  with allocBuffer_effects(3) [OF call] show "heap p a = heap (sys_proc s) a" by auto
qed

lemma app_step_unheld:
  assumes sys: "sys_ok tlocal s" and ok: "exclusive_ok s" and step: "app_step tlocal t s (Inr s')"
    and open_a: "is_open (sys_proc s) a" and unheld: "\<forall>u. a \<notin> held_by (sys_proc s) u (sys_pc s u)"
  shows "is_open (sys_proc s') a" and "a \<notin> held_by (sys_proc s') u (sys_pc s' u)"
    and "\<exists>ws. workers (sys_proc s') = workers (sys_proc s) @ ws"
proof -
  have pc: "sys_pc s t \<noteq> Exited \<Longrightarrow> pc_ok (sys_proc s) t (sys_pc s t)"
    by (rule thread_ok_pc [OF sys_okD(4) [OF sys]])
  have mine: "a \<notin> held_by (sys_proc s) t (sys_pc s t)" using unheld by blast
  note alloc = alloc_other_buffer [OF sys ok open_a]
  have "heap (sys_proc s') a = heap (sys_proc s) a
      \<and> (\<forall>v. v \<noteq> t \<longrightarrow> thr_context (sys_proc s') v = thr_context (sys_proc s) v \<and> sys_pc s' v = sys_pc s v)
      \<and> a \<notin> held_by (sys_proc s') t (sys_pc s' t)"
    using step
  proof (cases rule: app_step_cases)
    case (first_buffer c p)
    with alloc [OF first_buffer(2)] mine show ?thesis
      using allocBuffer_effects(5) [OF first_buffer(2)] by (auto simp: held_by_def ctx_buf_def)
  next
    case (store ref curBuf w b)
    with mine pc show ?thesis by (auto simp: held_by_def ctx_buf_def at_ref_def after_store_def)
  next
    case (full ref b won p)
    have "heap p = heap (sys_proc s)" "thr_context p = thr_context (sys_proc s)"
      using full(3) by (cases won; auto elim: tryIncEpoch_cases dest: tryIncEpoch_effects(1,3))+
    then show ?thesis using mine full(1,4) by (auto simp: held_by_def ctx_buf_def)
  next
    case (new_buffer ref c p)
    with alloc [OF new_buffer(2)] mine pc show ?thesis
      using allocBuffer_effects(5) [OF new_buffer(2)] by (auto simp: held_by_def ctx_buf_def at_ref_def)
  next
    case (switch ref c b)
    with mine show ?thesis by (auto simp: held_by_def ctx_buf_def)
  next
    case (end_run ref b)
    with mine pc show ?thesis by (auto simp: held_by_def ctx_buf_def at_ref_def)
  next
    case (exit_thread p)
    from exit_thread(2) show ?thesis
    proof (cases rule: destroy_context_cases)
      case none
      with exit_thread mine show ?thesis by (simp add: held_by_def)
    next
      case (some p1 c)
      note eff = threadExit_effects [OF some(2)]
      have "heap p1 a = heap (sys_proc s) a"
      proof (cases "ctx_logBuffer c")
        case None
        with eff(9) some(1) show ?thesis by simp
      next
        case (Some x)
        with mine exit_thread(1) some(1) have "x \<noteq> a" by (auto simp: held_by_def ctx_buf_def)
        with eff(10) [of x] some(1) Some show ?thesis by auto
      qed
      with eff(4,6) some(3) exit_thread(3) show ?thesis by (auto simp: held_by_def)
    qed
  qed (use mine in \<open>auto simp: held_by_def\<close>)
  then have 1: "heap (sys_proc s') a = heap (sys_proc s) a"
    and 2: "v \<noteq> t \<Longrightarrow> thr_context (sys_proc s') v = thr_context (sys_proc s) v"
      "v \<noteq> t \<Longrightarrow> sys_pc s' v = sys_pc s v"
    and 3: "a \<notin> held_by (sys_proc s') t (sys_pc s' t)" for v by auto
  show "is_open (sys_proc s') a" using open_a 1 by (simp add: is_open_def)
  show "\<exists>ws. workers (sys_proc s') = workers (sys_proc s) @ ws" by (rule app_step_workers [OF step])
  show "a \<notin> held_by (sys_proc s') u (sys_pc s' u)"
  proof (cases "u = t")
    case True
    with 3 show ?thesis by simp
  next
    case False
    then have "held_by (sys_proc s') u (sys_pc s u) = held_by (sys_proc s) u (sys_pc s u)"
      using 2(1) by (intro held_by_frame)
    with False 2(2) unheld show ?thesis by simp
  qed
qed

lemma abandoned_step:
  assumes sys: "sys_ok tlocal s" and ok: "exclusive_ok s" and ab: "abandoned s k a"
    and "sys_step tlocal s (Inr s')"
  shows "abandoned s' k a \<and> workers (sys_proc s') ! k = workers (sys_proc s) ! k"
  using assms(4)
proof (cases rule: sys_step_cases)
  case (app t)
  from ab have "is_open (sys_proc s) a" "\<forall>u. a \<notin> held_by (sys_proc s) u (sys_pc s u)"
    by (simp_all add: abandoned_def)
  note keep = app_step_unheld [OF sys ok app this]
  from keep(3) obtain ws where "workers (sys_proc s') = workers (sys_proc s) @ ws" by blast
  with ab keep(1,2) show ?thesis by (auto simp: abandoned_def nth_append)
next
  case (worker j p)
  note eff = worker_step_effects [OF worker(2)]
  have same: "workers p ! k = workers (sys_proc s) ! k"
  proof (cases "j = k")
    case True
    from ab obtain b where "heap (sys_proc s) a = Some b" "\<not> eb_closed b"
      by (auto simp: abandoned_def is_open_def)
    with ab worker(2) True have "p = sys_proc s"
      by (auto simp: abandoned_def worker_step_def Let_def)
    then show ?thesis by simp
  next
    case False
    with worker(2) show ?thesis
      by (cases rule: worker_step_cases) (auto dest: release_effects(2))
  qed
  have held: "held_by p u (sys_pc s u) = held_by (sys_proc s) u (sys_pc s u)" for u
    by (rule held_by_frame) (simp add: eff)
  from ab worker(3) same held worker_step_length [OF worker(2)] show ?thesis
    by (simp add: abandoned_def is_open_def eff(1))
qed

text \<open>Any number of steps of any threads and workers.\<close>

definition sys_run :: "bool \<Rightarrow> system \<Rightarrow> system \<Rightarrow> bool" where
  "sys_run tlocal = rtranclp (\<lambda>s s'. sys_step tlocal s (Inr s'))"

lemma sys_run_abandoned:
  assumes "reachable tlocal s" and "abandoned s k a" and "sys_run tlocal s s'"
  shows "no_skip (sys_proc s') \<Longrightarrow>
    reachable tlocal s' \<and> abandoned s' k a \<and> workers (sys_proc s') ! k = workers (sys_proc s) ! k"
  using assms(3) unfolding sys_run_def
proof (induction rule: rtranclp_induct)
  case base
  with assms show ?case by simp
next
  case (step s1 s2)
  have "no_skip (sys_proc s1)" using no_skip_step [OF step(2)] step.prems .
  with step.IH have s1: "reachable tlocal s1" "abandoned s1 k a"
    "workers (sys_proc s1) ! k = workers (sys_proc s) ! k" by auto
  have "exclusive_ok s1" using s1(1) \<open>no_skip (sys_proc s1)\<close> by (rule reachable_exclusive)
  from abandoned_step [OF reachable_ok [OF s1(1)] this s1(2) step(2)] s1 step(2) show ?case
    by (auto intro: reachable.step)
qed

text \<open>
  A thread that is between two runs when its buffer is reclaimed need not close it: \<open>getLogBufferRef\<close>
  gets it a new buffer and its context forgets the old one.
\<close>

lemma next_run_abandons:
  assumes reach: "reachable tlocal s" and clean: "no_skip (sys_proc s)" and idle: "sys_pc s t = Idle"
    and ctx: "ctx_buf (sys_proc s) t = Some a" and reclaimed: "log_buffer (sys_proc s) t = None"
    and k: "k < length (workers (sys_proc s))" "w_phase (workers (sys_proc s) ! k) = Waiting i"
      "i < length (w_buffers (workers (sys_proc s) ! k))" "w_buffers (workers (sys_proc s) ! k) ! i = a"
  obtains c s' where "app_run tlocal t s s'" "on_fresh_buffer s' t c" "c \<noteq> a" "abandoned s' k a"
    "no_skip (sys_proc s')"
proof -
  have ok: "exclusive_ok s" using reach clean by (rule reachable_exclusive)
  have held: "a \<in> held_by (sys_proc s) t (sys_pc s t)" using idle ctx by (simp add: held_by_def)
  then have open_a: "is_open (sys_proc s) a" and others: "u \<noteq> t \<Longrightarrow>
      a \<notin> held_by (sys_proc s) u (sys_pc s u)" for u
    using exclusive_okD(1) [OF ok, of t] exclusive_okD(2) [OF ok held, of u] by (auto simp: thread_own_def)
  from start_reachable [OF reach idle reclaimed] obtain c p s' where
    call: "allocBuffer (buf_manager_of tlocal t) t (sys_proc s) = Inr (c, p)"
    and s': "reachable tlocal s'" "on_fresh_buffer s' t c" "sys_proc s' = p"
      "\<And>u. u \<noteq> t \<Longrightarrow> sys_pc s' u = sys_pc s u" "app_run tlocal t s s'" by blast
  note eff = allocBuffer_effects [OF call]
  note alloc = alloc_other_buffer [OF reachable_ok [OF reach] ok open_a call]
  have "a \<notin> held_by (sys_proc s') u (sys_pc s' u)" for u
  proof (cases "u = t")
    case True
    with s'(2,3) alloc(1) eff(5) show ?thesis
      by (auto simp: held_by_def on_fresh_buffer_def ctx_buf_def)
  next
    case False
    have "held_by (sys_proc s') u (sys_pc s u) = held_by (sys_proc s) u (sys_pc s u)"
      using False eff(5) s'(3) by (intro held_by_frame) simp
    with others [OF False] s'(4) [OF False] show ?thesis by simp
  qed
  with s'(3) eff(8) alloc(2) open_a k have "abandoned s' k a"
    by (simp add: abandoned_def is_open_def)
  moreover have "no_skip (sys_proc s')"
    using clean eff(9) tls_context_no_skip [of t "sys_proc s"] by (simp add: no_skip_def s'(3))
  ultimately show ?thesis using that s'(2,5) alloc(1) by blast
qed

text \<open>Such a state: the second thread ends the epoch while the first one, with buffer 0, is between two runs.\<close>

lemma reclaimed_between_runs:
  "\<exists>s a. reachable False s \<and> no_skip (sys_proc s) \<and> sys_pc s 0 = Idle
     \<and> ctx_buf (sys_proc s) 0 = Some 0 \<and> log_buffer (sys_proc s) 0 = None
     \<and> workers (sys_proc s) = [\<lparr>w_manager = 0, w_buffers = [0, a], w_phase = Waiting 0\<rparr>]"
proof -
  obtain s0 where s0: "reachable False s0" "on_fresh_buffer s0 0 0"
    "buf_manager (sys_proc s0) 0 = \<lparr>activeWorkers = 0, bm_epoch = 0, allocatedBufs = [0],
       freeBufs = [], tlsBufAddrs = {0}\<rparr>"
    "\<And>u. u \<noteq> 0 \<Longrightarrow> sys_pc s0 u = Idle" "workers (sys_proc s0) = []"
    by (rule first_epoch [of False]) (auto simp: buf_manager_of_def)
  let ?ref = "\<lparr>ref_logBuf = 0, ref_buf = 0, ref_events = 0, ref_nextRdtscTime = BATCH_SIZE\<rparr>"
  have pc: "sys_pc s0 0 = Logging ?ref" using s0(2) by (simp add: on_fresh_buffer_def)
  with sys_okD(4) [OF reachable_ok [OF s0(1)], of 0] obtain b where
    ctx0: "ctx_buf (sys_proc s0) 0 = Some 0" and b: "heap (sys_proc s0) 0 = Some b"
    by (auto simp: thread_ok_def at_ref_def)
  define s1 where "s1 = goto 0 Idle (store_buf 0
    (b\<lparr>eb_events := 0, eb_nextRdtscTime := BATCH_SIZE\<rparr>) (sys_proc s0)) s0"
  have s1: "reachable False s1" "\<And>u. sys_pc s1 u = Idle" "ctx_buf (sys_proc s1) 0 = Some 0"
    "buf_manager (sys_proc s1) = buf_manager (sys_proc s0)" "workers (sys_proc s1) = []"
    using end_run_reachable [OF s0(1) pc, of b] b ctx0 s0(4,5) by (auto simp: s1_def ctx_buf_def)
  have "log_buffer (sys_proc s1) 1 = None"
    using sys_okD(4) [OF reachable_ok [OF s1(1)], of 1] s0(3) s1(2,4)
    by (cases "log_buffer (sys_proc s1) 1") (auto simp: thread_ok_def buf_manager_of_def)
  from start_reachable [OF s1(1) s1(2) this] obtain a1 p1 s2 where
    call1: "allocBuffer 0 1 (sys_proc s1) = Inr (a1, p1)"
    and s2: "reachable False s2" "on_fresh_buffer s2 1 a1" "sys_proc s2 = p1"
    and pc2: "\<And>u. u \<noteq> 1 \<Longrightarrow> sys_pc s2 u = Idle"
    using s1(2) unfolding buf_manager_of_def by metis
  note eff1 = allocBuffer_effects [OF call1]
  have m2: "buf_manager (sys_proc s2) 0 = \<lparr>activeWorkers = 0, bm_epoch = 0, allocatedBufs = [0, a1],
       freeBufs = [], tlsBufAddrs = {1, 0}\<rparr>"
    using s2(3) eff1(6) s1(4) s0(3) by simp
  have w2: "workers (sys_proc s2) = []" using s2(3) eff1(8) s1(5) by simp
  obtain s3 c3 where s3: "reachable False s3"
    "on_fresh_buffer s3 1 c3" "\<And>u. u \<noteq> 1 \<Longrightarrow> sys_pc s3 u = sys_pc s2 u"
    "\<And>u. u \<noteq> 1 \<Longrightarrow> thr_context (sys_proc s3) u = thr_context (sys_proc s2) u"
    "tlsBufAddrs (buf_manager (sys_proc s3) 0) = {1}"
    "workers (sys_proc s3) = [\<lparr>w_manager = 0, w_buffers = [0, a1], w_phase = Waiting 0\<rparr>]"
    by (rule epoch_reachable [OF s2(1,2)]) (auto simp: m2 w2 buf_manager_of_def MAX_WORKERS_def)
  have idle3: "sys_pc s3 0 = Idle" using s3(3) pc2 by simp
  have ctx3: "ctx_buf (sys_proc s3) 0 = Some 0"
    using s3(4) eff1(5) s2(3) s1(3) by (simp add: ctx_buf_def)
  have "no_skip (sys_proc s3)" using skip_needs_workers [OF s3(1)] s3(6) by simp
  moreover have "log_buffer (sys_proc s3) 0 = None"
    using sys_okD(4) [OF reachable_ok [OF s3(1)], of 0] s3(5) idle3
    by (cases "log_buffer (sys_proc s3) 0") (auto simp: thread_ok_def buf_manager_of_def)
  ultimately show ?thesis using s3(1,6) idle3 ctx3 by blast
qed

lemma abandoned_exists: "\<exists>s. reachable False s \<and> no_skip (sys_proc s) \<and> abandoned s 0 0"
proof -
  obtain s a where s: "reachable False s" "no_skip (sys_proc s)" "sys_pc s 0 = Idle"
    "ctx_buf (sys_proc s) 0 = Some 0" "log_buffer (sys_proc s) 0 = None"
    "workers (sys_proc s) = [\<lparr>w_manager = 0, w_buffers = [0, a], w_phase = Waiting 0\<rparr>]"
    using reclaimed_between_runs by blast
  obtain c s' where "app_run False 0 s s'" "abandoned s' 0 0" "no_skip (sys_proc s')"
    by (rule next_run_abandons [OF s(1-5), of 0 0]) (simp_all add: s(6))
  with s(1) show ?thesis by (blast intro: app_run_reachable)
qed

text \<open>
  C20: with a shared manager, as the design notes describe it, a worker that waits for an abandoned
  buffer never gets past it: whatever the threads and workers do from then on, as long as they skip no
  epoch, the buffer stays open and the worker stays where it is.
\<close>

theorem abandoned_buffer_blocks_worker:
  assumes "reachable tlocal s" and "abandoned s k a" and "sys_run tlocal s s'"
    and "no_skip (sys_proc s')"
  shows "(\<exists>b. heap (sys_proc s') a = Some b \<and> \<not> eb_closed b)
    \<and> workers (sys_proc s') ! k = workers (sys_proc s) ! k"
  using sys_run_abandoned [OF assms] by (auto simp: abandoned_def is_open_def)

theorem abandoned_buffer_blocks_worker_witness:
  "\<exists>s b. reachable False s \<and> abandoned s 0 0 \<and> heap (sys_proc s) 0 = Some b \<and> \<not> eb_closed b"
proof -
  obtain s where s: "reachable False s" "no_skip (sys_proc s)" "abandoned s 0 0"
    using abandoned_exists by blast
  have "sys_run False s s" by (simp add: sys_run_def)
  from abandoned_buffer_blocks_worker [OF s(1,3) this s(2)] s show ?thesis by blast
qed

text \<open>
  C21: this is how a buffer is abandoned: when the buffer of a thread that holds no reference, between
  two runs, has been reclaimed and a worker waits for it, the thread can begin its next run; it gets
  another buffer, and the old one stays open, without any thread that could close it.
\<close>

theorem next_run_abandons_buffer:
  assumes "reachable tlocal s" and "no_skip (sys_proc s)" and "sys_pc s t = Idle"
    and "ctx_buf (sys_proc s) t = Some a" and "log_buffer (sys_proc s) t = None"
    and "k < length (workers (sys_proc s))"
    and "w_phase (workers (sys_proc s) ! k) = Waiting i"
    and "i < length (w_buffers (workers (sys_proc s) ! k))"
    and "w_buffers (workers (sys_proc s) ! k) ! i = a"
  shows "\<exists>s' ref. app_run tlocal t s s' \<and> sys_pc s' t = Logging ref \<and> ref_buf ref \<noteq> a
    \<and> log_buffer (sys_proc s') t = Some (ref_buf ref) \<and> abandoned s' k a"
  by (rule next_run_abandons [OF assms]) (force simp: on_fresh_buffer_def)

theorem next_run_abandons_buffer_witness:
  "\<exists>s s'. reachable False s \<and> sys_pc s 0 = Idle \<and> ctx_buf (sys_proc s) 0 = Some 0
     \<and> app_run False 0 s s' \<and> abandoned s' 0 0"
proof -
  obtain s a where s: "reachable False s" "no_skip (sys_proc s)" "sys_pc s 0 = Idle"
    "ctx_buf (sys_proc s) 0 = Some 0" "log_buffer (sys_proc s) 0 = None"
    "workers (sys_proc s) = [\<lparr>w_manager = 0, w_buffers = [0, a], w_phase = Waiting 0\<rparr>]"
    using reclaimed_between_runs by blast
  have "0 < length (workers (sys_proc s))" "w_phase (workers (sys_proc s) ! 0) = Waiting 0"
    "0 < length (w_buffers (workers (sys_proc s) ! 0))" "w_buffers (workers (sys_proc s) ! 0) ! 0 = 0"
    by (simp_all add: s(6))
  from next_run_abandons_buffer [OF s(1-5) this] s(1,3,4) show ?thesis by blast
qed

end
