(* ===== verification/LoggedEvents.thy ===== *)
theory LoggedEvents
  imports Executions
begin

text \<open>
  What the logging is for: a history of the accesses logged to each buffer beside the state, and the
  invariant that the buffers hold exactly these, each once and in order. Without it the theorems on
  ownership would hold of a runtime that stores nothing.
\<close>

section \<open>Histories\<close>

text \<open>
  \<open>h a\<close>: the accesses logged to the buffer at \<open>a\<close> since it was last handed out. The access with
  which a thread finds out that its buffer was reclaimed (\<open>Loaded ref None\<close>) is not among them: the
  code does not count it.
\<close>

type_synonym history = "nat \<Rightarrow> access list"

definition asks_for_buffer :: "app_pc \<Rightarrow> bool" where
  "asks_for_buffer pc \<longleftrightarrow> pc = GotBuf None \<or> (\<exists>ref. pc = NeedBuf ref)"

definition logs_event :: "app_pc \<Rightarrow> bool" where
  "logs_event pc \<longleftrightarrow> (\<exists>ref c. pc = Loaded ref (Some c))"

fun event_word :: "access \<Rightarrow> u64" where
  "event_word (pc, addr, val) = encode_src_loc pc addr val"

inductive logged_run :: "bool \<Rightarrow> system \<Rightarrow> history \<Rightarrow> bool" for tlocal where
  start: "logged_run tlocal init_system (\<lambda>_. [])"
| log: "logged_run tlocal s h \<Longrightarrow> sys_pc s t = Loaded ref (Some c) \<Longrightarrow> app_step tlocal t s (Inr s') \<Longrightarrow>
     eb_buf (the (heap (sys_proc s') (ref_buf ref))) (ref_events ref) = Some (event_word e) \<Longrightarrow>
     logged_run tlocal s' (h(ref_buf ref := h (ref_buf ref) @ [e]))"
| hand_out: "logged_run tlocal s h \<Longrightarrow> asks_for_buffer (sys_pc s t) \<Longrightarrow> app_step tlocal t s (Inr s') \<Longrightarrow>
     log_buffer (sys_proc s') t = Some a \<Longrightarrow> logged_run tlocal s' (h(a := []))"
| other: "logged_run tlocal s h \<Longrightarrow> \<not> logs_event (sys_pc s t) \<Longrightarrow> \<not> asks_for_buffer (sys_pc s t) \<Longrightarrow>
     app_step tlocal t s (Inr s') \<Longrightarrow> logged_run tlocal s' h"
| worker: "logged_run tlocal s h \<Longrightarrow> k < length (workers (sys_proc s)) \<Longrightarrow>
     worker_step k (sys_proc s) = Inr p \<Longrightarrow> logged_run tlocal (s\<lparr>sys_proc := p\<rparr>) h"

text \<open>A history is no restriction: the states with a history are the reachable ones.\<close>

lemma logged_run_reachable: "logged_run tlocal s h \<Longrightarrow> reachable tlocal s"
proof (induction rule: logged_run.induct)
  case start
  show ?case by (rule reachable.start)
next
  case (worker s h k p)
  with sys_step.worker [of k s tlocal] show ?case by (auto intro: reachable.step)
qed (auto intro: reachable.step sys_step.app)

lemma stored_word:
  assumes "app_step tlocal t s (Inr s')" and "sys_pc s t = Loaded ref cur"
  shows "\<exists>e. eb_buf (the (heap (sys_proc s') (ref_buf ref))) (ref_events ref) = Some (event_word e)"
  using assms
proof (cases rule: app_step_rules)
  case (store ref' curBuf pc addr val)
  from store(1) obtain p where "write_slot (ref_buf ref') (ref_events ref') (event_word (pc, addr, val))
      (sys_proc s) = Inr p" and s': "sys_proc s' = p"
    by (auto simp: eq_commute [of "Inr s'"] and_then_Inr_iff Let_def split: if_splits)
  then obtain b where "p = store_buf (ref_buf ref')
      (b\<lparr>eb_buf := (eb_buf b)(ref_events ref' \<mapsto> event_word (pc, addr, val))\<rparr>) (sys_proc s)"
    by (elim write_slot_InrE) blast
  with s' store(2) assms(2) show ?thesis by (auto simp del: event_word.simps)
qed (use assms(2) in simp_all)

lemma reachable_logged: "reachable tlocal s \<Longrightarrow> \<exists>h. logged_run tlocal s h"
proof (induction rule: reachable.induct)
  case start
  show ?case by (blast intro: logged_run.start)
next
  case (step s s')
  then obtain h where h: "logged_run tlocal s h" by blast
  from step(2) show ?case
  proof (cases rule: sys_step_cases)
    case (app t)
    consider (log) ref c where "sys_pc s t = Loaded ref (Some c)" | (ask) "asks_for_buffer (sys_pc s t)"
      | (other) "\<not> logs_event (sys_pc s t)" "\<not> asks_for_buffer (sys_pc s t)"
      by (auto simp: logs_event_def)
    then show ?thesis
    proof cases
      case log
      with stored_word [OF app] h app show ?thesis by (blast intro: logged_run.log)
    next
      case ask
      with app have "log_buffer (sys_proc s') t \<noteq> None"
        by (cases rule: app_step_cases) (auto simp: asks_for_buffer_def allocBuffer_effects(4))
      with ask h app show ?thesis by (blast intro: logged_run.hand_out)
    next
      case other
      with h app show ?thesis by (blast intro: logged_run.other)
    qed
  next
    case (worker k p)
    with h show ?thesis by (blast intro: logged_run.worker)
  qed
qed


section \<open>The invariant\<close>

text \<open>The first \<open>n\<close> slots of a buffer hold exactly the accesses \<open>es\<close>.\<close>

definition holds_events :: "EventBuffer \<Rightarrow> int \<Rightarrow> access list \<Rightarrow> bool" where
  "holds_events b n es \<longleftrightarrow> n = int (length es)
     \<and> (\<forall>i < length es. eb_buf b (int i) = Some (event_word (es ! i)))"

lemma holds_events_empty [simp]: "holds_events b 0 es \<longleftrightarrow> es = []"
  by (auto simp: holds_events_def)

lemma holds_events_cong: "eb_buf b' = eb_buf b \<Longrightarrow> holds_events b' n es = holds_events b n es"
  by (simp add: holds_events_def)

lemma holds_events_store:
  assumes "holds_events b n es" and "eb_buf b' = (eb_buf b)(n \<mapsto> w)"
  shows "holds_events b' n es" and "w = event_word e \<Longrightarrow> holds_events b' (n + 1) (es @ [e])"
  using assms by (auto simp: holds_events_def nth_append less_Suc_eq)

text \<open>
  A buffer that a thread refers to holds the events up to the reference's counter, any other buffer
  up to its own; a buffer that its thread has not switched to yet is empty.
\<close>

definition referenced :: "system \<Rightarrow> nat \<Rightarrow> bool" where
  "referenced s a \<longleftrightarrow> (\<exists>t ref. current_ref (sys_pc s t) = Some ref \<and> ref_buf ref = a)"

definition history_ok :: "system \<Rightarrow> history \<Rightarrow> bool" where
  "history_ok s h \<longleftrightarrow>
     (\<forall>t ref b. current_ref (sys_pc s t) = Some ref \<longrightarrow> heap (sys_proc s) (ref_buf ref) = Some b \<longrightarrow>
        holds_events b (ref_events ref) (h (ref_buf ref)))
     \<and> (\<forall>a b. heap (sys_proc s) a = Some b \<longrightarrow> \<not> referenced s a \<longrightarrow> holds_events b (eb_events b) (h a))
     \<and> (\<forall>t ref a. sys_pc s t = GotNext ref a \<longrightarrow> h a = [])"

lemma history_okD:
  assumes "history_ok s h"
  shows "current_ref (sys_pc s t) = Some ref \<Longrightarrow> heap (sys_proc s) (ref_buf ref) = Some b \<Longrightarrow>
      holds_events b (ref_events ref) (h (ref_buf ref))"
    and "heap (sys_proc s) a = Some b \<Longrightarrow> \<not> referenced s a \<Longrightarrow> holds_events b (eb_events b) (h a)"
    and "sys_pc s t = GotNext ref a \<Longrightarrow> h a = []"
  using assms unfolding history_ok_def by blast+

text \<open>
  One rule for all steps of a thread: it changes the slots and the history only of buffers that no
  other thread holds.
\<close>

lemma history_goto:
  assumes sys: "sys_ok tlocal s" and ok: "exclusive_ok s" and hist: "history_ok s h"
    and same: "\<And>a. a \<notin> A \<Longrightarrow> h' a = h a \<and> heap p' a = heap (sys_proc s) a"
    and free: "\<And>a u. a \<in> A \<Longrightarrow> u \<noteq> t \<Longrightarrow> a \<notin> held_by (sys_proc s) u (sys_pc s u)"
    and mine: "\<And>ref b. current_ref pc' = Some ref \<Longrightarrow> heap p' (ref_buf ref) = Some b \<Longrightarrow>
      holds_events b (ref_events ref) (h' (ref_buf ref))"
    and rest: "\<And>a b. a \<in> A \<or> (\<exists>ref. current_ref (sys_pc s t) = Some ref \<and> ref_buf ref = a) \<Longrightarrow>
      (\<And>ref. current_ref pc' = Some ref \<Longrightarrow> ref_buf ref \<noteq> a) \<Longrightarrow> heap p' a = Some b \<Longrightarrow>
      holds_events b (eb_events b) (h' a)"
    and next_ref: "\<And>ref a. pc' = GotNext ref a \<Longrightarrow> h' a = []"
  shows "history_ok (goto t pc' p' s) h'"
proof -
  let ?s' = "goto t pc' p' s"
  have other: "ref_buf ref \<notin> A" if "u \<noteq> t" "current_ref (sys_pc s u) = Some ref" for u ref
    using that current_ref_held(2) [OF sys that(2)] free by blast
  have next_held: "a \<notin> A" if "u \<noteq> t" "sys_pc s u = GotNext ref a" for u ref a
  proof -
    have "a \<in> held_by (sys_proc s) u (sys_pc s u)"
      using thread_ok_pc [OF sys_okD(4) [OF sys, of u]] that(2) by (simp add: held_by_def)
    with free that(1) show ?thesis by blast
  qed
  have "holds_events b (ref_events ref) (h' (ref_buf ref))"
    if "current_ref (sys_pc ?s' u) = Some ref" "heap p' (ref_buf ref) = Some b" for u ref b
    using that mine other [of u ref] same [of "ref_buf ref"] history_okD(1) [OF hist, of u ref b]
    by (cases "u = t") simp_all
  moreover have "holds_events b (eb_events b) (h' a)"
    if b: "heap p' a = Some b" and un: "\<not> referenced ?s' a" for a b
  proof (cases "a \<in> A \<or> (\<exists>ref. current_ref (sys_pc s t) = Some ref \<and> ref_buf ref = a)")
    case True
    moreover have "ref_buf ref \<noteq> a" if "current_ref pc' = Some ref" for ref
    proof
      assume "ref_buf ref = a"
      with that have "referenced ?s' a"
        unfolding referenced_def by (intro exI [of _ t] exI [of _ ref]) simp
      with un show False ..
    qed
    ultimately show ?thesis using b by (rule rest)
  next
    case False
    then have "\<not> referenced s a"
      using un by (auto simp: referenced_def split: if_splits)
    with False b same [of a] history_okD(2) [OF hist, of a b] show ?thesis by simp
  qed
  moreover have "h' a = []" if "sys_pc ?s' u = GotNext ref a" for u ref a
    using that next_ref next_held [of u ref a] same [of a] history_okD(3) [OF hist, of u ref a]
    by (cases "u = t") simp_all
  ultimately show ?thesis unfolding history_ok_def by simp
qed


text \<open>The buffer a thread refers to is its own.\<close>

lemma ref_exclusive:
  assumes "sys_ok tlocal s" and "exclusive_ok s" and "current_ref (sys_pc s t) = Some ref"
  shows "ref_buf ref = ref_logBuf ref" and "u \<noteq> t \<Longrightarrow> ref_logBuf ref \<notin> held_by (sys_proc s) u (sys_pc s u)"
  using current_ref_held [OF assms(1,3)] exclusive_okD(2) [OF assms(2), of "ref_logBuf ref" t u] by auto

lemma history_hand_out:
  assumes sys: "sys_ok tlocal s" and ok: "exclusive_ok s" and hist: "history_ok s h"
    and call: "allocBuffer m t (sys_proc s) = Inr (a, p)"
    and pc: "current_ref pc' = current_ref (sys_pc s t)" "\<And>ref x. pc' = GotNext ref x \<Longrightarrow> x = a"
    and running: "sys_pc s t \<noteq> Exited"
  shows "history_ok (goto t pc' p s) (h(a := []))"
proof -
  note eff = allocBuffer_effects [OF call]
  have free: "a \<notin> held_by (sys_proc s) u (sys_pc s u)" for u
    by (rule alloc_not_held [OF sys ok call])
  from eff(3) obtain b where b: "heap p = (heap (sys_proc s))(a \<mapsto> b)" "eb_events b = 0"
    by (auto simp: fresh_buffer_def)
  have ref: "ref_buf ref \<noteq> a" if "current_ref (sys_pc s t) = Some ref" for ref
    using current_ref_held(2) [OF sys that] free by metis
  show ?thesis
  proof (rule history_goto [OF sys ok hist, where A = "{a}"])
    show "c \<notin> {a} \<Longrightarrow> (h(a := [])) c = h c \<and> heap p c = heap (sys_proc s) c" for c
      using b by simp
    show "c \<in> {a} \<Longrightarrow> u \<noteq> t \<Longrightarrow> c \<notin> held_by (sys_proc s) u (sys_pc s u)" for c u
      using free by simp
    show "holds_events bc (ref_events ref) ((h(a := [])) (ref_buf ref))"
      if "current_ref pc' = Some ref" "heap p (ref_buf ref) = Some bc" for ref bc
      using that pc(1) ref [of ref] b history_okD(1) [OF hist, of t ref bc] by simp
    show "holds_events bc (eb_events bc) ((h(a := [])) c)"
      if "c \<in> {a} \<or> (\<exists>ref. current_ref (sys_pc s t) = Some ref \<and> ref_buf ref = c)"
        "\<And>ref. current_ref pc' = Some ref \<Longrightarrow> ref_buf ref \<noteq> c" "heap p c = Some bc" for c bc
      using that b pc(1) by auto
  qed (use pc(2) in auto)
qed

lemma current_ref_after_store:
  "current_ref (after_store ref cur) = Some
     (if cur = None then ref else ref\<lparr>ref_events := ref_events ref + 1\<rparr>)"
  by (simp add: after_store_def)

lemma after_store_next: "after_store ref cur \<noteq> GotNext ref1 a"
  by (simp add: after_store_def)

text \<open>A store puts its event behind those counted so far; only a counted one joins the history.\<close>

lemma history_store:
  assumes sys: "sys_ok tlocal s" and ok: "exclusive_ok s" and hist: "history_ok s h"
    and pc: "sys_pc s t = Loaded ref cur" and b: "heap (sys_proc s) (ref_buf ref) = Some b"
    and h': "h' = (if cur = None then h else h(ref_buf ref := h (ref_buf ref) @ [e]))"
    and w: "cur = None \<or> w = event_word e"
  shows "history_ok (goto t (after_store ref cur) (store_buf (ref_buf ref)
     (b\<lparr>eb_buf := (eb_buf b)(ref_events ref \<mapsto> w)\<rparr>) (sys_proc s)) s) h'"
proof (rule history_goto [OF sys ok hist, where A = "{ref_buf ref}"])
  have cur: "current_ref (sys_pc s t) = Some ref" by (simp add: pc)
  note own = ref_exclusive [OF sys ok cur]
  show "u \<noteq> t \<Longrightarrow> a \<in> {ref_buf ref} \<Longrightarrow> a \<notin> held_by (sys_proc s) u (sys_pc s u)" for a u
    using own by simp
  show "holds_events b1 (ref_events ref1) (h' (ref_buf ref1))"
    if "current_ref (after_store ref cur) = Some ref1"
      "heap (store_buf (ref_buf ref) (b\<lparr>eb_buf := (eb_buf b)(ref_events ref \<mapsto> w)\<rparr>) (sys_proc s))
         (ref_buf ref1) = Some b1" for ref1 b1
  proof -
    note before = history_okD(1) [OF hist cur b]
    from that have ref1: "ref1 = (if cur = None then ref else ref\<lparr>ref_events := ref_events ref + 1\<rparr>)"
      and b1: "b1 = b\<lparr>eb_buf := (eb_buf b)(ref_events ref \<mapsto> w)\<rparr>"
      by (auto simp: current_ref_after_store split: if_splits)
    show ?thesis
    proof (cases "cur = None")
      case True
      then show ?thesis using holds_events_store(1) [OF before] by (simp add: ref1 b1 h')
    next
      case False
      with w show ?thesis
        using holds_events_store(2) [OF before, where e = e and w = "event_word e"]
        by (auto simp: ref1 b1 h')
    qed
  qed
  show "holds_events b1 (eb_events b1) (h' a)"
    if "a \<in> {ref_buf ref} \<or> (\<exists>ref. current_ref (sys_pc s t) = Some ref \<and> ref_buf ref = a)"
      "\<And>ref1. current_ref (after_store ref cur) = Some ref1 \<Longrightarrow> ref_buf ref1 \<noteq> a" for a b1
    using that cur by (auto simp: current_ref_after_store split: if_splits)
qed (auto simp: h' after_store_next)

text \<open>Steps that write no buffer.\<close>

lemma history_silent:
  assumes sys: "sys_ok tlocal s" and ok: "exclusive_ok s" and hist: "history_ok s h"
    and "heap p = heap (sys_proc s)" and "\<And>ref x. pc' \<noteq> GotNext ref x"
    and old: "\<And>ref. current_ref (sys_pc s t) = Some ref \<Longrightarrow>
      \<exists>ref1. current_ref pc' = Some ref1 \<and> ref_buf ref1 = ref_buf ref \<and> ref_events ref1 = ref_events ref"
    and new: "current_ref (sys_pc s t) = None \<Longrightarrow> current_ref pc' = None"
  shows "history_ok (goto t pc' p s) h"
proof (rule history_goto [OF sys ok hist, where A = "{}"])
  show "holds_events b (ref_events ref1) (h (ref_buf ref1))"
    if "current_ref pc' = Some ref1" "heap p (ref_buf ref1) = Some b" for ref1 b
  proof (cases "current_ref (sys_pc s t)")
    case None
    with new that(1) show ?thesis by simp
  next
    case (Some ref)
    with old [OF Some] history_okD(1) [OF hist Some] that assms(4) show ?thesis by auto
  qed
qed (use assms in auto)

lemma held_unreferenced:
  assumes "sys_ok tlocal s" and "exclusive_ok s" and "a \<in> held_by (sys_proc s) t (sys_pc s t)"
    and "current_ref (sys_pc s t) = None"
  shows "\<not> referenced s a"
proof
  assume "referenced s a"
  then obtain u ref where u: "current_ref (sys_pc s u) = Some ref" "ref_buf ref = a"
    by (auto simp: referenced_def)
  with current_ref_held(2) [OF assms(1) u(1)] exclusive_okD(2) [OF assms(2) _ assms(3)] have "u = t"
    by simp
  with u assms(4) show False by simp
qed

text \<open>A reference writes its number of events back to the buffer and is dropped or turned to another.\<close>

lemma history_written_back:
  assumes sys: "sys_ok tlocal s" and ok: "exclusive_ok s" and hist: "history_ok s h"
    and pc: "current_ref (sys_pc s t) = Some ref" and b: "heap (sys_proc s) (ref_logBuf ref) = Some b"
    and b': "eb_events b' = ref_events ref" "eb_buf b' = eb_buf b"
    and pc': "pc' = Idle \<or> (\<exists>ref1. pc' = Logging ref1 \<and> ref_events ref1 = 0 \<and> h (ref_buf ref1) = [])"
  shows "history_ok (goto t pc' (store_buf (ref_logBuf ref) b' (sys_proc s)) s) h"
proof (rule history_goto [OF sys ok hist, where A = "{ref_logBuf ref}"])
  note own = ref_exclusive [OF sys ok pc]
  show "c \<in> {ref_logBuf ref} \<Longrightarrow> u \<noteq> t \<Longrightarrow> c \<notin> held_by (sys_proc s) u (sys_pc s u)" for c u
    using own(2) by simp
  show "holds_events b1 (eb_events b1) (h c)"
    if "c \<in> {ref_logBuf ref} \<or> (\<exists>ref. current_ref (sys_pc s t) = Some ref \<and> ref_buf ref = c)"
      "heap (store_buf (ref_logBuf ref) b' (sys_proc s)) c = Some b1" for c b1
    using that own(1) pc history_okD(1) [OF hist pc, of b] b b' by (auto simp: holds_events_def)
  show "holds_events b1 (ref_events ref1) (h (ref_buf ref1))" if "current_ref pc' = Some ref1" for ref1 b1
    using pc' that by auto
qed (use pc' in auto)

lemma history_exit:
  assumes sys: "sys_ok tlocal s" and ok: "exclusive_ok s" and hist: "history_ok s h"
    and idle: "sys_pc s t = Idle" and dtor: "destroy_context tlocal t (sys_proc s) = Inr p"
  shows "history_ok (goto t Exited p s) h"
  using dtor_effects(4) [OF dtor]
proof (elim disjE exE conjE)
  assume "heap p = heap (sys_proc s)"
  with idle show ?thesis by (intro history_silent [OF sys ok hist]) simp_all
next
  fix a b
  assume a: "ctx_buf (sys_proc s) t = Some a" and b: "heap (sys_proc s) a = Some b"
    "heap p = (heap (sys_proc s))(a \<mapsto> b\<lparr>eb_closed := True\<rparr>)"
  have held: "a \<in> held_by (sys_proc s) t (sys_pc s t)" using a idle by (simp add: held_by_def)
  have un: "\<not> referenced s a" using held_unreferenced [OF sys ok held] idle by simp
  show ?thesis
  proof (rule history_goto [OF sys ok hist, where A = "{a}"])
    show "c \<in> {a} \<Longrightarrow> u \<noteq> t \<Longrightarrow> c \<notin> held_by (sys_proc s) u (sys_pc s u)" for c u
      using exclusive_okD(2) [OF ok held, of u] by auto
    show "holds_events b1 (eb_events b1) (h c)"
      if "c \<in> {a} \<or> (\<exists>ref. current_ref (sys_pc s t) = Some ref \<and> ref_buf ref = c)"
        "heap p c = Some b1" for c b1
      using that idle b history_okD(2) [OF hist b(1) un] by (auto simp: holds_events_def)
  qed (use b in auto)
qed

lemma history_other:
  assumes sys: "sys_ok tlocal s" and ok: "exclusive_ok s" and hist: "history_ok s h"
    and pc: "\<not> logs_event (sys_pc s t)" "\<not> asks_for_buffer (sys_pc s t)"
    and "app_step tlocal t s (Inr s')"
  shows "history_ok s' h"
  using assms(6)
proof (cases rule: app_step_cases)
  case (begin_run cur)
  show ?thesis unfolding begin_run(3) using begin_run(1) by (intro history_silent [OF sys ok hist]) simp_all
next
  case (take_ref a b)
  have held: "a \<in> held_by (sys_proc s) t (sys_pc s t)"
    using take_ref thread_ok_pc [OF sys_okD(4) [OF sys, of t]] by (simp add: held_by_def)
  have "\<not> referenced s a" using held_unreferenced [OF sys ok held] take_ref(1) by simp
  then show ?thesis unfolding take_ref(3)
    using history_okD(2) [OF hist take_ref(2)] take_ref(1,2)
    by (intro history_goto [OF sys ok hist, where A = "{}"]) auto
next
  case (store ref curBuf w b)
  with pc have "curBuf = None" by (auto simp: logs_event_def)
  with history_store [OF sys ok hist store(1,2), of h e w] store(5) show ?thesis by simp
next
  case (full ref b won p)
  then have "heap p = heap (sys_proc s)"
    by (cases won) (auto elim: tryIncEpoch_cases dest: tryIncEpoch_effects(1))
  with full(1) show ?thesis unfolding full(4) by (intro history_silent [OF sys ok hist]) simp_all
next
  case (switch ref a b)
  show ?thesis
    unfolding switch(4) using history_okD(3) [OF hist switch(1)] switch(1,2)
    by (intro history_written_back [OF sys ok hist]) simp_all
next
  case (end_run ref b)
  show ?thesis
    unfolding end_run(3) using end_run(1,2)
    by (intro history_written_back [OF sys ok hist]) simp_all
next
  case (exit_thread p)
  then show ?thesis by (auto intro: history_exit [OF sys ok hist])
qed (use pc in \<open>auto simp: asks_for_buffer_def intro!: history_silent [OF sys ok hist]\<close>)

section \<open>The events a worker reads\<close>

lemma history_worker: "history_ok s h \<Longrightarrow> heap p = heap (sys_proc s) \<Longrightarrow> history_ok (s\<lparr>sys_proc := p\<rparr>) h"
  by (simp add: history_ok_def referenced_def)

lemma logged_run_history: "logged_run tlocal s h \<Longrightarrow> no_skip (sys_proc s) \<Longrightarrow> history_ok s h"
proof (induction rule: logged_run.induct)
  case start
  show ?case
    by (simp add: history_ok_def referenced_def init_system_def init_process_def)
next
  case (log s h t ref c s' e)
  then have step: "sys_step tlocal s (Inr s')" by (blast intro: sys_step.app)
  note prev = no_skip_step [OF step log.prems]
  note r = logged_run_reachable [OF log(1)]
  note ok = reachable_ok [OF r] reachable_exclusive [OF r prev]
  from log(3) show ?case
  proof (cases rule: app_step_cases)
    case (store ref' cur w b)
    with log(2,4) have w: "ref' = ref" "cur = Some c" "w = event_word e" by auto
    from history_store [OF ok log.IH [OF prev] store(1,2) refl, of w e] store(5) w show ?thesis
      by (simp add: fun_upd_def)
  qed (use log(2) in simp_all)
next
  case (hand_out s h t s' a)
  then have step: "sys_step tlocal s (Inr s')" by (blast intro: sys_step.app)
  note prev = no_skip_step [OF step hand_out.prems]
  note r = logged_run_reachable [OF hand_out(1)]
  note ok = reachable_ok [OF r] reachable_exclusive [OF r prev]
  from hand_out(3) show ?case
  proof (cases rule: app_step_cases)
    case (first_buffer a1 p)
    with hand_out(4) allocBuffer_effects(4) [OF first_buffer(2)] have "a1 = a" by simp
    with first_buffer history_hand_out [OF ok hand_out.IH [OF prev] first_buffer(2), of "GotBuf (Some a)"]
    show ?thesis
      by (simp add: fun_upd_def)
  next
    case (new_buffer ref a1 p)
    with hand_out(4) allocBuffer_effects(4) [OF new_buffer(2)] have "a1 = a" by simp
    with new_buffer history_hand_out [OF ok hand_out.IH [OF prev] new_buffer(2), of "GotNext ref a"]
    show ?thesis
      by (simp add: fun_upd_def)
  qed (use hand_out(2) in \<open>auto simp: asks_for_buffer_def\<close>)
next
  case (other s h t s')
  then have step: "sys_step tlocal s (Inr s')" by (blast intro: sys_step.app)
  note prev = no_skip_step [OF step other.prems]
  note r = logged_run_reachable [OF other(1)]
  show ?case
    by (rule history_other [OF reachable_ok [OF r] reachable_exclusive [OF r prev] other.IH [OF prev]
        other(2,3,4)])
next
  case (worker s h k p)
  with sys_step.worker [OF worker(2), of tlocal] have "sys_step tlocal s (Inr (s\<lparr>sys_proc := p\<rparr>))" by simp
  from no_skip_step [OF this worker.prems] worker.IH have "history_ok s h" by simp
  then show ?case using worker_step_effects(1) [OF worker(3)] by (rule history_worker)
qed

lemma closed_history:
  assumes "logged_run tlocal s h" and "no_skip (sys_proc s)"
    and "heap (sys_proc s) a = Some b" and "eb_closed b"
  shows "holds_events b (eb_events b) (h a)"
proof -
  note r = logged_run_reachable [OF assms(1)]
  have "is_closed (sys_proc s) a" using assms(3,4) by (simp add: is_closed_def)
  then have "\<not> referenced s a"
    using closed_unreferenced(1) [OF reachable_ok [OF r] reachable_exclusive [OF r assms(2)]]
    by (auto simp: referenced_def)
  with logged_run_history [OF assms(1,2)] assms(3) show ?thesis by (auto dest: history_okD(2))
qed

text \<open>
  C1: a closed buffer holds exactly the accesses that were logged to it since it was handed out, each
  once and in order: its counter is their number, and slot \<open>i\<close> holds the encoding of access \<open>i\<close>.
\<close>

theorem logged_events_read:
  assumes "logged_run tlocal s h" and "no_skip (sys_proc s)"
    and "heap (sys_proc s) a = Some b" and "eb_closed b"
  shows "eb_events b = int (length (h a))
    \<and> (\<forall>i < length (h a). eb_buf b (int i) = Some (event_word (h a ! i)))"
  using closed_history [OF assms] by (simp add: holds_events_def)

theorem logged_events_read_witness:
  "\<exists>s h b. logged_run True s h \<and> heap (sys_proc s) 0 = Some b \<and> eb_closed b
     \<and> length (h 0) = 10000001 \<and> eb_buf b 10000000 = Some (event_word (last (h 0)))"
proof -
  obtain s c b where s: "reachable True s" "heap (sys_proc s) 0 = Some b" "eb_closed b"
    "eb_events b = MAX_EVENTS + 1"
    "workers (sys_proc s) = [\<lparr>w_manager = buf_manager_of True 0, w_buffers = [0], w_phase = Waiting 0\<rparr>]"
    using second_epoch [of True] by metis
  obtain h where h: "logged_run True s h" using reachable_logged [OF s(1)] by blast
  have "no_skip (sys_proc s)" using skip_needs_workers [OF s(1)] s(5) by simp
  note read = logged_events_read [OF h this s(2,3)]
  then have len: "length (h 0) = 10000001" using s(4) by (simp add: size_defs)
  then have "last (h 0) = h 0 ! 10000000" by (subst last_conv_nth) auto
  moreover have "eb_buf b (int 10000000) = Some (event_word (h 0 ! 10000000))"
    using conjunct2 [OF read, rule_format, of 10000000] len by linarith
  ultimately show ?thesis using h s len by (intro exI [of _ s] exI [of _ h] exI [of _ b]) simp
qed

lemma sum_events_history:
  assumes "\<And>a b. a \<in> set as \<Longrightarrow> heap p a = Some b \<Longrightarrow> eb_events b = int (length (h a))"
  shows "sum_events n as p = Inr m \<Longrightarrow> m = n + int (sum_list (map (\<lambda>a. length (h a)) as))"
  using assms
proof (induction as arbitrary: n)
  case Nil
  then show ?case by simp
next
  case (Cons a as)
  from Cons.prems(1) obtain b where b: "heap p a = Some b"
    "sum_events (n + eb_events b) as p = Inr m"
    by (auto simp: and_then_Inr_iff load_buf_Inr_iff int_add_Inr_iff)
  from Cons.IH [OF b(2)] Cons.prems(2) b(1) show ?case by auto
qed

text \<open>
  C5: as long as no epoch was skipped, the number a worker prints is the number of accesses that were
  stored in its buffers and counted there since they were handed out, each once. The access with which a
  thread finds out that its buffer was reclaimed is in no history (\<open>reclaimed_event_dropped\<close>) and in no count.
\<close>

theorem worker_prints_logged_events:
  assumes "logged_run tlocal s h" and "no_skip (sys_proc s)" and "k < length (workers (sys_proc s))"
    and "w = workers (sys_proc s) ! k" and "w_phase w = Waiting (length (w_buffers w))"
    and "worker_step k (sys_proc s) = Inr p"
  shows "printed p = printed (sys_proc s)
    @ [WorkerProcessed (int (sum_list (map (\<lambda>a. length (h a)) (w_buffers w))))]"
proof -
  note r = logged_run_reachable [OF assms(1)]
  have "worker_waited (sys_proc s) w"
    using exclusive_okD(3) [OF reachable_exclusive [OF r assms(2)]] assms(3,4)
    by (simp add: closed_ok_def)
  then have "eb_events b = int (length (h a))"
    if "a \<in> set (w_buffers w)" "heap (sys_proc s) a = Some b" for a b
    using that assms(5) closed_history [OF assms(1,2), of a b]
    by (auto simp: worker_waited_def is_closed_def holds_events_def in_set_conv_nth)
  note sum = sum_events_history [of "w_buffers w" "sys_proc s" h, OF this]
  from assms(3-6) obtain n where n: "sum_events 0 (w_buffers w) (sys_proc s) = Inr n"
    "p = set_worker k Releasing (sys_proc s\<lparr>printed := printed (sys_proc s) @ [WorkerProcessed n]\<rparr>)"
    by (auto simp: worker_step_def Let_def and_then_Inr_iff)
  with sum [OF _ _ n(1)] show ?thesis by simp
qed

theorem worker_prints_logged_events_witness:
  "\<exists>s h p. logged_run True s h \<and> worker_step 0 (sys_proc s) = Inr p
     \<and> printed p = printed (sys_proc s) @ [WorkerProcessed (int (length (h 0)))]"
proof -
  obtain s b where s: "reachable True s" "heap (sys_proc s) 0 = Some b" "eb_closed b"
    "eb_events b = MAX_EVENTS + 1"
    "workers (sys_proc s) = [\<lparr>w_manager = buf_manager_of True 0, w_buffers = [0], w_phase = Waiting 0\<rparr>]"
    using second_epoch [of True] by metis
  obtain h where h: "logged_run True s h" using reachable_logged [OF s(1)] by blast
  let ?q = "set_worker 0 (Waiting 1) (sys_proc s)"
  have "worker_step 0 (sys_proc s) = Inr ?q" using s by (simp add: worker_step_def)
  with logged_run.worker [OF h] s(5) have h1: "logged_run True (s\<lparr>sys_proc := ?q\<rparr>) h" by simp
  have clean: "no_skip (sys_proc (s\<lparr>sys_proc := ?q\<rparr>))"
    using skip_needs_workers [OF s(1)] s(5) by (simp add: no_skip_def)
  have "worker_step 0 ?q = Inr (set_worker 0 Releasing (?q\<lparr>printed := printed ?q @
      [WorkerProcessed (MAX_EVENTS + 1)]\<rparr>))"
    using s by (simp add: worker_step_def int_add_def size_defs)
  with worker_prints_logged_events [OF h1 clean, of 0 "workers ?q ! 0"] h1 s(5) show ?thesis
    by (intro exI [of _ "s\<lparr>sys_proc := ?q\<rparr>"] exI [of _ h]) simp
qed

end
