(* ===== verification/LifeCycle.thy ===== *)
theory LifeCycle
  imports Executions
begin

text \<open>
  What a buffer goes through, as an abstract machine for one buffer: handed out empty, filled, closed,
  collected by a worker, returned to the pool. The runtime with all its threads and workers refines
  one such machine per buffer.
\<close>

section \<open>Places\<close>

datatype place =
    Absent
  | Pooled nat
  | Current nat
  | Working nat

fun at_place :: "process \<Rightarrow> nat \<Rightarrow> place \<Rightarrow> bool" where
  "at_place p a Absent = (heap p a = None)"
| "at_place p a (Pooled m) = (a \<in> set (freeBufs (buf_manager p m)))"
| "at_place p a (Current m) = (a \<in> set (allocatedBufs (buf_manager p m)))"
| "at_place p a (Working k) = (k < length (workers p) \<and> w_phase (workers p ! k) \<noteq> Finished
     \<and> a \<in> set (w_buffers (workers p ! k)))"

fun manager_at :: "process \<Rightarrow> place \<Rightarrow> nat" where
  "manager_at p Absent = 0"
| "manager_at p (Pooled m) = m"
| "manager_at p (Current m) = m"
| "manager_at p (Working k) = w_manager (workers p ! k)"

lemma at_place_in_pool: "at_place p a pl \<Longrightarrow> pl \<noteq> Absent \<Longrightarrow> a \<in># pool (manager_at p pl) p"
  by (cases pl) (auto simp: in_pool_iff intro!: bexI [of _ "workers p ! k" for k])

lemma in_workers_count:
  assumes "k < length ws" and "a \<in># worker_holds m (ws ! k)"
  shows "1 \<le> count (\<Sum>w\<leftarrow>ws. worker_holds m w) a"
proof -
  have "a \<in># (\<Sum>w\<leftarrow>ws. worker_holds m w)"
    using assms by (auto simp: in_sum_list_iff intro!: bexI [of _ "ws ! k"])
  then show ?thesis by (simp only: One_nat_def Suc_le_eq count_greater_zero_iff)
qed

lemma two_workers_count:
  assumes "i < j" and "j < length ws" and "a \<in># worker_holds m (ws ! i)" and "a \<in># worker_holds m (ws ! j)"
  shows "2 \<le> count (\<Sum>w\<leftarrow>ws. worker_holds m w) a"
proof -
  have split: "count (\<Sum>w\<leftarrow>ws. worker_holds m w) a = count (\<Sum>w\<leftarrow>take j ws. worker_holds m w) a
      + count (\<Sum>w\<leftarrow>drop j ws. worker_holds m w) a"
    by (metis append_take_drop_id count_union map_append sum_list_append)
  have "1 \<le> count (\<Sum>w\<leftarrow>take j ws. worker_holds m w) a"
    using assms by (intro in_workers_count [of i]) simp_all
  moreover have "1 \<le> count (\<Sum>w\<leftarrow>drop j ws. worker_holds m w) a"
    using assms by (intro in_workers_count [of 0]) simp_all
  ultimately show ?thesis unfolding split by linarith
qed

text \<open>No buffer is in two places.\<close>

lemma at_place_unique:
  assumes ok: "pools_ok p" and "at_place p a pl" and "at_place p a pl'"
  shows "pl' = pl"
proof (cases "heap p a = None")
  case True
  then have "a \<notin># pool m p" for m using pools_okD(5) [OF ok] by blast
  with assms(2,3) at_place_in_pool show ?thesis by metis
next
  case False
  then have there: "pl \<noteq> Absent" "pl' \<noteq> Absent" using assms(2,3) by auto
  have same: "manager_at p pl' = manager_at p pl"
    using at_place_in_pool [OF assms(2) there(1)] at_place_in_pool [OF assms(3) there(2)]
    by (intro pools_okD(3) [OF ok])
  have once: "count (pool m p) a \<le> 1" for m by (rule pools_okD(4) [OF ok])
  have alloc_worker: False if "a \<in> set (allocatedBufs (buf_manager p (w_manager (workers p ! k))))"
      "at_place p a (Working k)" for k
  proof -
    let ?m = "w_manager (workers p ! k)"
    have "1 \<le> count (\<Sum>w\<leftarrow>workers p. worker_holds ?m w) a"
      using that(2) by (intro in_workers_count [of k]) (simp_all add: worker_holds_def)
    with count_ge_1 [OF that(1)] once [of ?m] show False unfolding count_pool by linarith
  qed
  have two: False if "j < k" "at_place p a (Working j)" "at_place p a (Working k)"
      "w_manager (workers p ! j) = w_manager (workers p ! k)" for j k
  proof -
    let ?m = "w_manager (workers p ! k)"
    have "2 \<le> count (\<Sum>w\<leftarrow>workers p. worker_holds ?m w) a"
      using that by (intro two_workers_count [of j k]) (auto simp: worker_holds_def)
    with once [of ?m] show False unfolding count_pool by linarith
  qed
  have free_worker: False if "a \<in> set (freeBufs (buf_manager p m))" "at_place p a (Working k)" for m k
    using that free_not_worker [OF ok that(1), of "workers p ! k"] by simp
  note clash = free_worker alloc_worker free_not_alloc [OF ok]
  show ?thesis
  proof (cases pl; cases pl')
    fix j k
    assume "pl = Working j" "pl' = Working k"
    with assms(2,3) same two [of j k] two [of k j] show ?thesis
      by (cases j k rule: linorder_cases) (auto simp del: at_place.simps(4))
  qed (use assms(2,3) there same in \<open>auto simp del: at_place.simps(4) dest: clash\<close>)
qed

lemma at_place_cong:
  assumes "\<And>m. freeBufs (buf_manager p' m) = freeBufs (buf_manager p m)"
    and "\<And>m. allocatedBufs (buf_manager p' m) = allocatedBufs (buf_manager p m)"
    and "workers p' = workers p" and "heap p' a = None \<longleftrightarrow> heap p a = None"
  shows "at_place p' a pl = at_place p a pl"
  using assms by (cases pl) simp_all

section \<open>The machine\<close>

text \<open>
  A state is a place and the buffer there. Only an open buffer changes; only a closed one is returned
  or handed out again, and then it is reset.
\<close>

inductive life :: "place \<times> EventBuffer option \<Rightarrow> place \<times> EventBuffer option \<Rightarrow> bool" where
  stay: "life x x"
| create: "fresh_buffer tid e b \<Longrightarrow> life (Absent, None) (Current m, Some b)"
| reuse: "eb_closed b \<Longrightarrow> fresh_buffer tid e b' \<Longrightarrow> life (Pooled m, Some b) (Current m, Some b')"
| fill: "\<not> eb_closed b \<Longrightarrow> eb_epoch b' = eb_epoch b \<Longrightarrow> pl = Current m \<or> pl = Working k \<Longrightarrow>
    life (pl, Some b) (pl, Some b')"
| collect: "life (Current m, Some b) (Working k, Some b)"
| give_back: "eb_closed b \<Longrightarrow> life (Working k, Some b) (Pooled m, Some b)"

inductive_simps life_from: "life (pl, x) y"

text \<open>An open buffer is not in a pool.\<close>

lemma open_place:
  assumes "closed_ok p" and "at_place p a pl" and "is_open p a"
  shows "(\<exists>m. pl = Current m) \<or> (\<exists>k. pl = Working k)"
  using assms
  by (cases pl) (auto simp: closed_ok_def is_open_def dest!: bspec is_closed_not_open)

text \<open>A step that leaves all buffers where they are, and changes only open ones.\<close>

lemma life_same_place:
  assumes pools: "pools_ok p'" and clo: "closed_ok p" and same: "at_place p' a pl = at_place p a pl"
    and "at_place p a pl" and "at_place p' a pl'"
    and "heap p' a = heap p a \<or> (\<exists>b b'. heap p a = Some b \<and> \<not> eb_closed b \<and> heap p' a = Some b'
      \<and> eb_epoch b' = eb_epoch b)"
  shows "life (pl, heap p a) (pl', heap p' a)"
proof -
  have pl': "pl' = pl" using assms(4,5) same by (intro at_place_unique [OF pools]) simp_all
  from assms(6) show ?thesis
  proof (elim disjE exE conjE)
    assume "heap p' a = heap p a"
    then show ?thesis by (simp add: pl' life.stay)
  next
    fix b b'
    assume b: "heap p a = Some b" "\<not> eb_closed b" "heap p' a = Some b'" "eb_epoch b' = eb_epoch b"
    with open_place [OF clo assms(4)] show ?thesis
      by (auto simp: pl' is_open_def intro: life.fill)
  qed
qed

lemma life_allocBuffer:
  assumes pools: "pools_ok p" and clo: "closed_ok p" and call: "allocBuffer m t p = Inr (c, p')"
    and at: "at_place p a pl" "at_place p' a pl'"
  shows "life (pl, heap p a) (pl', heap p' a)"
proof -
  note eff = allocBuffer_effects [OF call]
  note pools' = pools_ok_allocBuffer [OF pools call]
  from eff(3) obtain b tid e where heap: "heap p' = (heap p)(c \<mapsto> b)" and b: "fresh_buffer tid e b" by blast
  show ?thesis
  proof (cases "a = c")
    case True
    have pl': "pl' = Current m"
      using at(2) True eff(6) by (intro at_place_unique [OF pools']) simp_all
    from eff(10) show ?thesis
    proof (elim disjE conjE)
      assume "c = next_addr p"
      then have "at_place p a Absent" using pools_okD(1) [OF pools, of c] True by simp
      with at(1) have "pl = Absent" by (intro at_place_unique [OF pools])
      with at(1) True pl' heap b show ?thesis by (auto intro: life.create)
    next
      assume "freeBufs (buf_manager p m) \<noteq> []" "c = last (freeBufs (buf_manager p m))"
      then have free: "at_place p a (Pooled m)" using True by simp
      with at(1) have pl: "pl = Pooled m" by (intro at_place_unique [OF pools])
      from free clo obtain b0 where "heap p a = Some b0" "eb_closed b0"
        unfolding closed_ok_def is_closed_def by fastforce
      with pl pl' heap b True show ?thesis by (auto intro: life.reuse)
    qed
  next
    case False
    have "a \<in> set (butlast (freeBufs (buf_manager p m)))" if "a \<in> set (freeBufs (buf_manager p m))"
      using that eff(10) False by (cases "freeBufs (buf_manager p m)" rule: rev_cases) auto
    with at(1) False eff(6,8) heap have "at_place p' a pl" by (cases pl) auto
    with at(2) have "pl' = pl" by (intro at_place_unique [OF pools'])
    with False heap show ?thesis by (simp add: life.stay)
  qed
qed

lemma life_tryIncEpoch:
  assumes pools: "pools_ok p" and call: "tryIncEpoch m ref p = Inr (won, p')" and clean: "no_skip p'"
    and at: "at_place p a pl" "at_place p' a pl'"
  shows "life (pl, heap p a) (pl', heap p' a)"
proof (cases won)
  case False
  with call have "p' = p" by (auto elim: tryIncEpoch_cases)
  with at have "pl' = pl" by (intro at_place_unique [OF pools]) simp_all
  then show ?thesis by (simp add: \<open>p' = p\<close> life.stay)
next
  case True
  with call have won: "tryIncEpoch m ref p = Inr (True, p')" by simp
  have "activeWorkers (buf_manager p m) < MAX_WORKERS"
  proof (rule ccontr)
    assume "\<not> activeWorkers (buf_manager p m) < MAX_WORKERS"
    from tryIncEpoch_effects(7) [OF won this] clean show False by (auto simp: no_skip_def)
  qed
  note eff = tryIncEpoch_effects(1) [OF won] tryIncEpoch_effects(6) [OF won this]
  note pools' = pools_ok_tryIncEpoch [OF pools call]
  show ?thesis
  proof (cases "pl = Current m")
    case True
    with at(1) eff have "at_place p' a (Working (length (workers p)))" by simp
    with at(2) have "pl' = Working (length (workers p))" by (intro at_place_unique [OF pools'])
    moreover obtain b where "heap p a = Some b"
      using at_place_in_pool [OF at(1)] True pools_okD(5) [OF pools] by fastforce
    ultimately show ?thesis using True by (simp add: eff(1) life.collect)
  next
    case False
    with at(1) eff have "at_place p' a pl" by (cases pl) (auto simp: nth_append)
    with at(2) have "pl' = pl" by (intro at_place_unique [OF pools'])
    then show ?thesis by (simp add: eff(1) life.stay)
  qed
qed

lemma at_place_set_worker:
  assumes "k < length (workers p)" and "w_phase (workers p ! k) \<noteq> Finished" and "ph \<noteq> Finished"
  shows "at_place (set_worker k ph p) a pl = at_place p a pl"
  using assms by (cases pl) (auto simp: set_worker_def nth_list_update)

lemma life_worker_step:
  assumes pools: "pools_ok p" and clo: "closed_ok p" and k: "k < length (workers p)"
    and step: "worker_step k p = Inr p'" and at: "at_place p a pl" "at_place p' a pl'"
  shows "life (pl, heap p a) (pl', heap p' a)"
proof -
  note heap = worker_step_effects(1) [OF step]
  note pools' = pools_ok_worker_step [OF pools k step]
  from step have "at_place p' a pl \<or> pl = Working k \<and> w_phase (workers p ! k) = Releasing
      \<and> (\<exists>m. at_place p' a (Pooled m))"
  proof (cases rule: worker_step_cases)
    case (count i n)
    have "at_place (p\<lparr>printed := ps\<rparr>) a pl = at_place p a pl" for ps by (cases pl) simp_all
    with count k at(1) show ?thesis by (simp add: at_place_set_worker)
  next
    case (give_back p1)
    note rel = release_effects(2) [OF give_back(2)]
    show ?thesis
    proof (cases "pl = Working k")
      case True
      with at(1) rel give_back show ?thesis
        by (auto intro!: exI [of _ "w_manager (workers p ! k)"])
    next
      case False
      with at(1) rel give_back k worker_step_effects(6) [OF step] heap show ?thesis
        by (cases pl) (auto simp: set_worker_def)
    qed
  qed (use at(1) k in \<open>simp_all add: at_place_set_worker\<close>)
  then show ?thesis
  proof (elim disjE conjE exE)
    assume "at_place p' a pl"
    with at(2) have "pl' = pl" by (intro at_place_unique [OF pools'])
    then show ?thesis by (simp add: heap life.stay)
  next
    fix m
    assume w: "pl = Working k" "w_phase (workers p ! k) = Releasing" "at_place p' a (Pooled m)"
    with at(2) have pl': "pl' = Pooled m" by (intro at_place_unique [OF pools'])
    have "worker_waited p (workers p ! k)" using clo k by (simp add: closed_ok_def)
    with w at(1) obtain b where "heap p a = Some b" "eb_closed b"
      by (auto simp: worker_waited_def is_closed_def)
    with w(1) pl' show ?thesis by (simp add: heap life.give_back)
  qed
qed

text \<open>A thread writes only to a buffer that it holds, and that is open.\<close>

lemma life_store:
  assumes sys: "sys_ok tlocal s" and ok: "exclusive_ok s"
    and "c \<in> held_by (sys_proc s) t (sys_pc s t)" and "heap (sys_proc s) c = Some b"
    and "eb_epoch b' = eb_epoch b"
    and at: "at_place (sys_proc s) a pl" "at_place (store_buf c b' (sys_proc s)) a pl'"
  shows "life (pl, heap (sys_proc s) a) (pl', heap (store_buf c b' (sys_proc s)) a)"
proof (rule life_same_place [OF _ _ _ at])
  show "pools_ok (store_buf c b' (sys_proc s))"
    by (rule pools_ok_cong [OF sys_okD(1) [OF sys]]) (auto simp: assms(4))
  show "closed_ok (sys_proc s)" by (rule exclusive_okD(3) [OF ok])
  show "at_place (store_buf c b' (sys_proc s)) a pl = at_place (sys_proc s) a pl"
    by (rule at_place_cong) (auto simp: assms(4))
  have "is_open (sys_proc s) c" using exclusive_okD(1) [OF ok, of t] assms(3) by (simp add: thread_own_def)
  with assms(4,5) show "heap (store_buf c b' (sys_proc s)) a = heap (sys_proc s) a
    \<or> (\<exists>b b''. heap (sys_proc s) a = Some b \<and> \<not> eb_closed b
        \<and> heap (store_buf c b' (sys_proc s)) a = Some b'' \<and> eb_epoch b'' = eb_epoch b)"
    by (auto simp: is_open_def)
qed

lemma life_app_step:
  assumes sys: "sys_ok tlocal s" and ok: "exclusive_ok s" and clean: "no_skip (sys_proc s')"
    and "app_step tlocal t s (Inr s')"
    and at: "at_place (sys_proc s) a pl" "at_place (sys_proc s') a pl'"
  shows "life (pl, heap (sys_proc s) a) (pl', heap (sys_proc s') a)"
proof -
  note pools = sys_okD(1) [OF sys] and clo = exclusive_okD(3) [OF ok]
  have held: "ref_buf ref \<in> held_by (sys_proc s) t (sys_pc s t)"
    "ref_logBuf ref \<in> held_by (sys_proc s) t (sys_pc s t)"
    if "current_ref (sys_pc s t) = Some ref" for ref
    using current_ref_held [OF sys that] by simp_all
  have same: "life (pl, heap (sys_proc s) a) (pl', heap (sys_proc s) a)" if "sys_proc s' = sys_proc s"
    using at_place_unique [OF pools at(1)] at(2) that by (simp add: life.stay)
  from assms(4) show ?thesis
  proof (cases rule: app_step_cases)
    case (first_buffer c p)
    with life_allocBuffer [OF pools clo first_buffer(2) at(1)] at(2) show ?thesis by simp
  next
    case (store ref curBuf w b)
    with life_store [OF sys ok held(1) store(2) _ at(1)] at(2) show ?thesis by simp
  next
    case (full ref b won p)
    with life_tryIncEpoch [OF pools full(3) _ at(1)] clean at(2) show ?thesis by simp
  next
    case (new_buffer ref c p)
    with life_allocBuffer [OF pools clo new_buffer(2) at(1)] at(2) show ?thesis by simp
  next
    case (switch ref c b)
    with life_store [OF sys ok held(2) switch(2) _ at(1)] at(2) show ?thesis by simp
  next
    case (end_run ref b)
    with life_store [OF sys ok held(2) end_run(2) _ at(1)] at(2) show ?thesis by simp
  next
    case (exit_thread p)
    note eff = dtor_effects [OF exit_thread(2)]
    have opened: "is_open (sys_proc s) c" if "ctx_buf (sys_proc s) t = Some c" for c
      using exclusive_okD(1) [OF ok, of t] that exit_thread(1) by (simp add: thread_own_def held_by_def)
    show ?thesis
    proof (rule life_same_place [OF _ clo _ at])
      show "pools_ok (sys_proc s')" using sys_ok_app_step [OF sys assms(4)] by (rule sys_okD(1))
      show "at_place (sys_proc s') a pl = at_place (sys_proc s) a pl"
        using eff exit_thread(3) by (intro at_place_cong) (auto split: if_splits)
      show "heap (sys_proc s') a = heap (sys_proc s) a
        \<or> (\<exists>b b'. heap (sys_proc s) a = Some b \<and> \<not> eb_closed b
            \<and> heap (sys_proc s') a = Some b' \<and> eb_epoch b' = eb_epoch b)"
        using eff(4) opened exit_thread(3) by (auto simp: is_open_def)
    qed
  next
    case destroy_manager
    have "at_place (sys_proc s') a pl = at_place (sys_proc s) a pl"
      using destroy_manager(5) by (intro at_place_cong) simp_all
    with at destroy_manager(5) at_place_unique [OF sys_okD(1) [OF sys_ok_app_step [OF sys assms(4)]]]
    have "pl' = pl" by blast
    with destroy_manager(5) show ?thesis by (simp add: life.stay)
  qed (use same in simp_all)
qed

lemma life_sys_step:
  assumes "reachable tlocal s" and "sys_step tlocal s (Inr s')" and "no_skip (sys_proc s')"
    and "at_place (sys_proc s) a pl" and "at_place (sys_proc s') a pl'"
  shows "life (pl, heap (sys_proc s) a) (pl', heap (sys_proc s') a)"
proof -
  note sys = reachable_ok [OF assms(1)]
  note ok = reachable_exclusive [OF assms(1) no_skip_step [OF assms(2,3)]]
  from assms(2) show ?thesis
  proof (cases rule: sys_step_cases)
    case (app t)
    then show ?thesis by (rule life_app_step [OF sys ok assms(3) _ assms(4,5)])
  next
    case (worker k p)
    with life_worker_step [OF sys_okD(1) [OF sys] exclusive_okD(3) [OF ok] worker(1,2) assms(4)]
      assms(5) show ?thesis by simp
  qed
qed

text \<open>
  C3: while no epoch was skipped, every step of every thread and worker, seen at one buffer, is a step
  of the buffer's life cycle: a buffer is handed out empty, only changes while it is open, keeps its
  events from when it is closed until its worker has counted and returned it, and only then is reused.
\<close>

theorem buffers_follow_life_cycle:
  assumes "reachable tlocal s" and "sys_step tlocal s (Inr s')" and "no_skip (sys_proc s')"
    and "at_place (sys_proc s) a pl" and "at_place (sys_proc s') a pl'"
  shows "life (pl, heap (sys_proc s) a) (pl', heap (sys_proc s') a)"
  by (rule life_sys_step [OF assms])

text \<open>The worker of the first epoch returns its buffer.\<close>

theorem buffers_follow_life_cycle_witness:
  "\<exists>s s' b. sys_step True s (Inr s') \<and> at_place (sys_proc s) 0 (Working 0)
     \<and> at_place (sys_proc s') 0 (Pooled 0) \<and> life (Working 0, Some b) (Pooled 0, Some b)
     \<and> eb_events b = MAX_EVENTS + 1"
proof -
  obtain s q b where s: "reachable True s" "worker_step 0 (sys_proc s) = Inr q"
    "workers (sys_proc s) = [\<lparr>w_manager = 0, w_buffers = [0], w_phase = Releasing\<rparr>]"
    "freeBufs (buf_manager q 0) = [0]" "heap (sys_proc s) 0 = Some b" "eb_events b = MAX_EVENTS + 1"
    "length (workers q) = 1"
    by (rule first_worker_releases) blast
  let ?s' = "s\<lparr>sys_proc := q\<rparr>"
  have step: "sys_step True s (Inr ?s')" using sys_step.worker [of 0 s True] s(2,3) by simp
  with skip_needs_workers [of True ?s'] s(1,7) have clean: "no_skip q" by (auto intro: reachable.step)
  from buffers_follow_life_cycle [OF s(1) step, of 0 "Working 0" "Pooled 0"] clean s step
    worker_step_effects(1) [OF s(2)] show ?thesis
    by (intro exI [of _ s] exI [of _ ?s'] exI [of _ b]) simp
qed

end
