(* ===== verification/Progress.thy ===== *)
theory Progress
  imports LifeCycle
begin

text \<open>
  What the runtime does if the scheduler is fair: infinite executions in which no step fails, and the
  workers that finish in them.
\<close>

section \<open>Fair executions\<close>

datatype agent = Thread nat | Worker nat

text \<open>
  A thread that gets the processor makes one of its steps or does something else in the meantime; a
  worker that exists makes its next step.
\<close>

fun agent_step :: "bool \<Rightarrow> agent \<Rightarrow> system \<Rightarrow> system \<Rightarrow> bool" where
  "agent_step tlocal (Thread t) s s' = (s' = s \<or> app_step tlocal t s (Inr s'))"
| "agent_step tlocal (Worker k) s s' =
     (if k < length (workers (sys_proc s))
      then \<exists>p. worker_step k (sys_proc s) = Inr p \<and> s' = s\<lparr>sys_proc := p\<rparr>
      else s' = s)"

definition execution :: "bool \<Rightarrow> (nat \<Rightarrow> agent) \<Rightarrow> (nat \<Rightarrow> system) \<Rightarrow> bool" where
  "execution tlocal ag \<sigma> \<longleftrightarrow>
     reachable tlocal (\<sigma> 0) \<and> (\<forall>i. agent_step tlocal (ag i) (\<sigma> i) (\<sigma> (Suc i)))"

definition fair_worker :: "(nat \<Rightarrow> agent) \<Rightarrow> nat \<Rightarrow> bool" where
  "fair_worker ag k \<longleftrightarrow> (\<forall>i. \<exists>j \<ge> i. ag j = Worker k)"

lemma agent_step_cases:
  assumes "agent_step tlocal x s s'"
  obtains "s' = s" | "sys_step tlocal s (Inr s')"
proof (cases x)
  case (Thread t)
  with assms that show ?thesis by (auto intro: sys_step.app)
next
  case (Worker k)
  show ?thesis
  proof (cases "k < length (workers (sys_proc s))")
    case True
    with assms Worker obtain p where "worker_step k (sys_proc s) = Inr p" "s' = s\<lparr>sys_proc := p\<rparr>" by auto
    with sys_step.worker [OF True, of tlocal] that(2) show ?thesis by simp
  next
    case False
    with assms Worker that(1) show ?thesis by simp
  qed
qed

lemma sys_step_agent:
  assumes "sys_step tlocal s (Inr s')"
  shows "\<exists>x. agent_step tlocal x s s'"
  using assms
proof (cases rule: sys_step_cases)
  case (app t)
  then show ?thesis by (intro exI [of _ "Thread t"]) simp
next
  case (worker k p)
  then show ?thesis by (intro exI [of _ "Worker k"]) simp
qed

lemma execution_reachable: "execution tlocal ag \<sigma> \<Longrightarrow> reachable tlocal (\<sigma> i)"
proof (induction i)
  case 0
  then show ?case by (simp add: execution_def)
next
  case (Suc i)
  then have "agent_step tlocal (ag i) (\<sigma> i) (\<sigma> (Suc i))" by (simp add: execution_def)
  then show ?case using Suc by (cases rule: agent_step_cases) (auto intro: reachable.step)
qed

section \<open>How far a worker is\<close>

definition worker_rank :: "worker \<Rightarrow> nat" where
  "worker_rank w =
     (case w_phase w of
        Waiting i \<Rightarrow> min i (length (w_buffers w))
      | Releasing \<Rightarrow> Suc (length (w_buffers w))
      | Finished \<Rightarrow> Suc (Suc (length (w_buffers w))))"

lemma finished_iff: "w_phase w = Finished \<longleftrightarrow> Suc (Suc (length (w_buffers w))) \<le> worker_rank w"
  by (auto simp: worker_rank_def split: worker_phase.splits)

lemma worker_step_rank:
  assumes "worker_step k p = Inr p'" and "k < length (workers p)"
  shows "w_buffers (workers p' ! k) = w_buffers (workers p ! k)"
    and "worker_rank (workers p ! k) \<le> worker_rank (workers p' ! k)"
    and "j \<noteq> k \<Longrightarrow> workers p' ! j = workers p ! j"
    and "w_manager (workers p' ! k) = w_manager (workers p ! k)"
  using assms
  by (cases rule: worker_step_cases; auto simp: worker_rank_def set_worker_def dest: release_effects(2))+

text \<open>Nobody takes a worker back.\<close>

lemma worker_forward:
  assumes "agent_step tlocal x s s'" and k: "k < length (workers (sys_proc s))"
  shows "k < length (workers (sys_proc s'))"
    and "w_buffers (workers (sys_proc s') ! k) = w_buffers (workers (sys_proc s) ! k)"
    and "worker_rank (workers (sys_proc s) ! k) \<le> worker_rank (workers (sys_proc s') ! k)"
proof -
  have "k < length (workers (sys_proc s'))
    \<and> w_buffers (workers (sys_proc s') ! k) = w_buffers (workers (sys_proc s) ! k)
    \<and> worker_rank (workers (sys_proc s) ! k) \<le> worker_rank (workers (sys_proc s') ! k)"
    using assms(1)
  proof (cases rule: agent_step_cases)
    case 1
    with k show ?thesis by simp
  next
    case 2
    then show ?thesis
    proof (cases rule: sys_step_cases)
      case (app t)
      with app_step_workers [OF app] k show ?thesis by (auto simp: nth_append)
    next
      case (worker j p)
      with worker_step_rank [OF worker(2,1)] worker_step_length [OF worker(2)] k show ?thesis
        by (cases "j = k") auto
    qed
  qed
  then show "k < length (workers (sys_proc s'))"
    "w_buffers (workers (sys_proc s') ! k) = w_buffers (workers (sys_proc s) ! k)"
    "worker_rank (workers (sys_proc s) ! k) \<le> worker_rank (workers (sys_proc s') ! k)" by simp_all
qed

text \<open>With its next buffer closed a worker gets further.\<close>

lemma worker_rank_advances:
  assumes "agent_step tlocal (Worker k) s s'" and k: "k < length (workers (sys_proc s))"
    and "w = workers (sys_proc s) ! k" and "w_phase w \<noteq> Finished"
    and "worker_rank w < length (w_buffers w) \<Longrightarrow> is_closed (sys_proc s) (w_buffers w ! worker_rank w)"
  shows "worker_rank w < worker_rank (workers (sys_proc s') ! k)"
proof -
  from assms(1) k obtain p where p: "worker_step k (sys_proc s) = Inr p" "s' = s\<lparr>sys_proc := p\<rparr>" by auto
  have "worker_rank w < worker_rank (workers p ! k)"
  proof (cases "w_phase w")
    case (Waiting i)
    with p k assms(3,5) show ?thesis
      by (cases "i < length (w_buffers w)")
        (auto simp: worker_step_def worker_rank_def is_closed_def and_then_Inr_iff set_worker_def Let_def)
  next
    case Releasing
    with p k assms(3) show ?thesis
      by (auto simp: worker_step_def worker_rank_def and_then_Inr_iff set_worker_def Let_def
          dest: release_effects(2))
  next
    case Finished
    with assms(4) show ?thesis by simp
  qed
  with p(2) show ?thesis by simp
qed

text \<open>A closed buffer stays closed while a worker has it.\<close>

lemma sys_step_forward:
  assumes "sys_step tlocal s (Inr s')" and "k < length (workers (sys_proc s))"
  shows "k < length (workers (sys_proc s'))"
    and "w_buffers (workers (sys_proc s') ! k) = w_buffers (workers (sys_proc s) ! k)"
    and "worker_rank (workers (sys_proc s) ! k) \<le> worker_rank (workers (sys_proc s') ! k)"
  using sys_step_agent [OF assms(1)] worker_forward [OF _ assms(2)] by blast+

lemma closed_while_working:
  assumes "reachable tlocal s" and step: "sys_step tlocal s (Inr s')" and "no_skip (sys_proc s')"
    and k: "k < length (workers (sys_proc s))" and a: "a \<in> set (w_buffers (workers (sys_proc s) ! k))"
    and busy: "w_phase (workers (sys_proc s') ! k) \<noteq> Finished" and "is_closed (sys_proc s) a"
  shows "is_closed (sys_proc s') a"
proof -
  note fwd = sys_step_forward [OF step k]
  have "w_phase (workers (sys_proc s) ! k) \<noteq> Finished" using busy fwd(2,3) unfolding finished_iff by simp
  with k a have "at_place (sys_proc s) a (Working k)" by simp
  moreover have "at_place (sys_proc s') a (Working k)" using fwd(1,2) a busy by simp
  ultimately have "life (Working k, heap (sys_proc s) a) (Working k, heap (sys_proc s') a)"
    by (rule life_sys_step [OF assms(1) step assms(3)])
  with assms(7) show ?thesis by (auto simp: is_closed_def life_from)
qed

section \<open>Workers finish\<close>

definition never_skips :: "(nat \<Rightarrow> system) \<Rightarrow> bool" where
  "never_skips \<sigma> \<longleftrightarrow> (\<forall>i. no_skip (sys_proc (\<sigma> i)))"

abbreviation worker_of :: "nat \<Rightarrow> system \<Rightarrow> worker" where
  "worker_of k s \<equiv> workers (sys_proc s) ! k"

lemma execution_step: "execution tlocal ag \<sigma> \<Longrightarrow> agent_step tlocal (ag i) (\<sigma> i) (\<sigma> (Suc i))"
  by (simp add: execution_def)

lemma execution_forward:
  assumes "execution tlocal ag \<sigma>" and "k < length (workers (sys_proc (\<sigma> i)))"
  shows "i \<le> j \<Longrightarrow> k < length (workers (sys_proc (\<sigma> j)))
    \<and> w_buffers (worker_of k (\<sigma> j)) = w_buffers (worker_of k (\<sigma> i))
    \<and> worker_rank (worker_of k (\<sigma> i)) \<le> worker_rank (worker_of k (\<sigma> j))"
proof (induction rule: dec_induct)
  case base
  show ?case using assms(2) by simp
next
  case (step j)
  with worker_forward [OF execution_step [OF assms(1), of j], of k] show ?case by auto
qed

lemma execution_stays_closed:
  assumes exec: "execution tlocal ag \<sigma>" and "never_skips \<sigma>" and k: "k < length (workers (sys_proc (\<sigma> i)))"
    and a: "a \<in> set (w_buffers (worker_of k (\<sigma> i)))" and "is_closed (sys_proc (\<sigma> i)) a"
  shows "i \<le> j \<Longrightarrow> w_phase (worker_of k (\<sigma> j)) \<noteq> Finished \<Longrightarrow> is_closed (sys_proc (\<sigma> j)) a"
proof (induction rule: dec_induct)
  case base
  show ?case by (rule assms(5))
next
  case (step j)
  note here = execution_forward [OF exec k step(1)]
  note fwd = worker_forward [OF execution_step [OF exec, of j], of k]
  have "w_phase (worker_of k (\<sigma> j)) \<noteq> Finished"
    using step.prems fwd here unfolding finished_iff by simp
  with step.IH have "is_closed (sys_proc (\<sigma> j)) a" by simp
  with execution_reachable [OF exec] execution_step [OF exec, of j] assms(2) here a step.prems
  show ?case
    by (cases rule: agent_step_cases [OF execution_step [OF exec, of j]])
      (auto simp: never_skips_def intro: closed_while_working [of tlocal "\<sigma> j" "\<sigma> (Suc j)" k])
qed

lemma worker_progress:
  assumes exec: "execution tlocal ag \<sigma>" and clean: "never_skips \<sigma>" and fair: "fair_worker ag k"
    and k: "k < length (workers (sys_proc (\<sigma> i)))"
    and closes: "\<And>a. a \<in> set (w_buffers (worker_of k (\<sigma> i))) \<Longrightarrow>
      \<exists>j \<ge> i. is_closed (sys_proc (\<sigma> j)) a \<or> w_phase (worker_of k (\<sigma> j)) = Finished"
  shows "n \<le> Suc (Suc (length (w_buffers (worker_of k (\<sigma> i))))) \<Longrightarrow>
    \<exists>j \<ge> i. n \<le> worker_rank (worker_of k (\<sigma> j))"
proof (induction n)
  case 0
  show ?case by auto
next
  case (Suc n)
  let ?as = "w_buffers (worker_of k (\<sigma> i))"
  from Suc obtain j1 where j1: "i \<le> j1" "n \<le> worker_rank (worker_of k (\<sigma> j1))" by auto
  obtain j2 where j2: "i \<le> j2" "n < length ?as \<longrightarrow> is_closed (sys_proc (\<sigma> j2)) (?as ! n)
      \<or> w_phase (worker_of k (\<sigma> j2)) = Finished"
    using closes [of "?as ! n"] by (cases "n < length ?as") auto
  from fair obtain j where j: "max j1 j2 \<le> j" "ag j = Worker k" unfolding fair_worker_def by blast
  have at_j: "k < length (workers (sys_proc (\<sigma> j)))" "w_buffers (worker_of k (\<sigma> j)) = ?as"
    using execution_forward [OF exec k, of j] j(1) j1(1) by auto
  note at_j2 = execution_forward [OF exec k j2(1)]
  have rank: "n \<le> worker_rank (worker_of k (\<sigma> j))"
    using execution_forward [OF exec _, of k j1 j] execution_forward [OF exec k j1(1)] j1(2) j(1) by simp
  have "Suc n \<le> worker_rank (worker_of k (\<sigma> (Suc j)))"
  proof (cases "worker_rank (worker_of k (\<sigma> j)) = n")
    case False
    with rank worker_forward(3) [OF execution_step [OF exec, of j] at_j(1)] show ?thesis by simp
  next
    case True
    with Suc.prems at_j(2) have busy: "w_phase (worker_of k (\<sigma> j)) \<noteq> Finished"
      unfolding finished_iff by simp
    have closed: "is_closed (sys_proc (\<sigma> j)) (?as ! n)" if "n < length ?as"
    proof (rule execution_stays_closed [OF exec clean, of k j2])
      have "w_phase (worker_of k (\<sigma> j2)) \<noteq> Finished"
        using busy execution_forward [OF exec, of k j2 j] at_j2 at_j(2) j(1) unfolding finished_iff by simp
      with j2(2) that show "is_closed (sys_proc (\<sigma> j2)) (?as ! n)" by simp
    qed (use that at_j2 j(1) busy in simp_all)
    have "agent_step tlocal (Worker k) (\<sigma> j) (\<sigma> (Suc j))"
      using execution_step [OF exec, of j] j(2) by simp
    from worker_rank_advances [OF this at_j(1) refl busy] closed True at_j(2) show ?thesis by simp
  qed
  with j(1) j1(1) show ?case by (intro exI [of _ "Suc j"]) simp
qed

lemma worker_finishes:
  assumes "execution tlocal ag \<sigma>" and "never_skips \<sigma>" and "fair_worker ag k"
    and "k < length (workers (sys_proc (\<sigma> i)))"
    and "\<And>a. a \<in> set (w_buffers (worker_of k (\<sigma> i))) \<Longrightarrow>
      \<exists>j \<ge> i. is_closed (sys_proc (\<sigma> j)) a \<or> w_phase (worker_of k (\<sigma> j)) = Finished"
  shows "\<exists>j \<ge> i. w_phase (worker_of k (\<sigma> j)) = Finished"
  using worker_progress [OF assms order_refl] execution_forward [OF assms(1,4)]
  unfolding finished_iff by metis

section \<open>With a manager per thread\<close>

text \<open>
  Then the only buffer of an epoch is that of the thread that ends it, and the thread closes it before
  it leaves the slow path: \<open>leaving\<close>.
\<close>

fun leaving :: "app_pc \<Rightarrow> nat option" where
  "leaving (NeedBuf ref) = Some (ref_logBuf ref)"
| "leaving (GotNext ref a) = Some (ref_logBuf ref)"
| "leaving _ = None"

definition local_bufs :: "system \<Rightarrow> nat \<Rightarrow> bool" where
  "local_bufs s t \<longleftrightarrow> (sys_pc s t \<noteq> Exited \<longrightarrow>
     allocatedBufs (buf_manager (sys_proc s) t)
       = (case log_buffer (sys_proc s) t of None \<Rightarrow> [] | Some a \<Rightarrow> [a]))"

definition soon_closed :: "system \<Rightarrow> worker \<Rightarrow> bool" where
  "soon_closed s w \<longleftrightarrow> (w_phase w \<noteq> Finished \<longrightarrow> (\<forall>a \<in> set (w_buffers w).
     is_closed (sys_proc s) a \<or> leaving (sys_pc s (w_manager w)) = Some a))"

definition local_ok :: "system \<Rightarrow> bool" where
  "local_ok s \<longleftrightarrow> (\<forall>t. local_bufs s t) \<and> (\<forall>w \<in> set (workers (sys_proc s)). soon_closed s w)"

lemma manager_of_thread [simp]: "buf_manager_of True t = t"
  by (simp add: buf_manager_of_def)

text \<open>A thread changes its own manager and its own pointer only.\<close>

lemma local_tryIncEpoch:
  assumes sys: "sys_ok True s" and call: "tryIncEpoch t ref (sys_proc s) = Inr (won, p)"
    and "no_skip p" and "sys_pc s t \<noteq> Exited" and "local_bufs s t"
  shows "u \<noteq> t \<Longrightarrow> buf_manager p u = buf_manager (sys_proc s) u \<and> log_buffer p u = log_buffer (sys_proc s) u"
    and "allocatedBufs (buf_manager p t) = (case log_buffer p t of None \<Rightarrow> [] | Some a \<Rightarrow> [a])"
    and "workers p = workers (sys_proc s) \<or>
      (\<exists>as. workers p = workers (sys_proc s) @ [\<lparr>w_manager = t, w_buffers = as, w_phase = Waiting 0\<rparr>]
        \<and> set as \<subseteq> set_option (ctx_buf (sys_proc s) t))"
proof -
  have own: "u = t" if "u \<in> tlsBufAddrs (buf_manager (sys_proc s) t)" for u
    using that sys_okD(3) [OF sys] by (auto simp: registered_ok_def)
  have pointer: "ctx_buf (sys_proc s) t = Some a \<and> t \<in> tlsBufAddrs (buf_manager (sys_proc s) t)"
    if "log_buffer (sys_proc s) t = Some a" for a
    using that sys_okD(4) [OF sys, of t] assms(4) by (auto simp: thread_ok_def)
  have "(u \<noteq> t \<longrightarrow> buf_manager p u = buf_manager (sys_proc s) u \<and> log_buffer p u = log_buffer (sys_proc s) u)
    \<and> allocatedBufs (buf_manager p t) = (case log_buffer p t of None \<Rightarrow> [] | Some a \<Rightarrow> [a])
    \<and> (workers p = workers (sys_proc s) \<or>
      (\<exists>as. workers p = workers (sys_proc s) @ [\<lparr>w_manager = t, w_buffers = as, w_phase = Waiting 0\<rparr>]
        \<and> set as \<subseteq> set_option (ctx_buf (sys_proc s) t)))"
  proof (cases won)
    case False
    with call have "p = sys_proc s" by (auto elim: tryIncEpoch_cases)
    with assms(4,5) show ?thesis by (simp add: local_bufs_def)
  next
    case True
    with call have won: "tryIncEpoch t ref (sys_proc s) = Inr (True, p)" by simp
    have "activeWorkers (buf_manager (sys_proc s) t) < MAX_WORKERS"
    proof (rule ccontr)
      assume "\<not> ?thesis"
      from tryIncEpoch_effects(7) [OF won this] assms(3) show False by (auto simp: no_skip_def)
    qed
    note eff = tryIncEpoch_effects(5) [OF won] tryIncEpoch_effects(6) [OF won this]
    have "log_buffer p t = None"
      using eff(1) pointer by (cases "log_buffer (sys_proc s) t") auto
    moreover have "set (allocatedBufs (buf_manager (sys_proc s) t)) \<subseteq> set_option (ctx_buf (sys_proc s) t)"
      using assms(4,5) pointer by (auto simp: local_bufs_def split: option.splits)
    ultimately show ?thesis using eff own by auto
  qed
  then show "u \<noteq> t \<Longrightarrow> buf_manager p u = buf_manager (sys_proc s) u \<and> log_buffer p u = log_buffer (sys_proc s) u"
    "allocatedBufs (buf_manager p t) = (case log_buffer p t of None \<Rightarrow> [] | Some a \<Rightarrow> [a])"
    "workers p = workers (sys_proc s) \<or>
      (\<exists>as. workers p = workers (sys_proc s) @ [\<lparr>w_manager = t, w_buffers = as, w_phase = Waiting 0\<rparr>]
        \<and> set as \<subseteq> set_option (ctx_buf (sys_proc s) t))" by blast+
qed

lemma local_bufs_app_step:
  assumes sys: "sys_ok True s" and loc: "local_ok s" and step: "app_step True t s (Inr s')"
    and clean: "no_skip (sys_proc s')"
  shows "local_bufs s' u"
proof -
  have here: "local_bufs s v" for v using loc by (simp add: local_ok_def)
  from step show ?thesis
  proof (cases rule: app_step_cases)
    case (first_buffer a p)
    with here [of u] here [of t] allocBuffer_effects(2,4,6) [OF first_buffer(2)] show ?thesis
      by (cases "u = t") (auto simp: local_bufs_def)
  next
    case (new_buffer ref a p)
    with here [of u] here [of t] allocBuffer_effects(2,4,6) [OF new_buffer(2)] show ?thesis
      by (cases "u = t") (auto simp: local_bufs_def)
  next
    case (full ref b won p)
    with local_tryIncEpoch(1,2) [OF sys _ _ _ here] here [of u] clean show ?thesis
      by (cases "u = t") (auto simp: local_bufs_def)
  next
    case (exit_thread p)
    with dtor_effects(2,5) [OF exit_thread(2)] here [of u] show ?thesis
      by (cases "u = t") (simp_all add: local_bufs_def)
  qed (use here [of u] in \<open>auto simp: local_bufs_def after_store_def split: if_splits\<close>)
qed

lemma leaving_app_step:
  assumes sys: "sys_ok True s" and step: "app_step True t s (Inr s')" and "leaving (sys_pc s t) = Some a"
  shows "is_closed (sys_proc s') a \<or> leaving (sys_pc s' t) = Some a"
  using step
proof (cases rule: app_step_cases)
  case (switch ref c b)
  with assms(3) show ?thesis by (auto simp: is_closed_def)
qed (use assms(3) in auto)

lemma soon_closed_step:
  assumes reach: "reachable True s" and step: "sys_step True s (Inr s')" and clean: "no_skip (sys_proc s')"
    and loc: "local_ok s" and k: "k < length (workers (sys_proc s))"
    and mgr: "w_manager (worker_of k s') = w_manager (worker_of k s)"
  shows "soon_closed s' (worker_of k s')"
  unfolding soon_closed_def
proof (intro impI ballI)
  fix a
  assume busy: "w_phase (worker_of k s') \<noteq> Finished" and a: "a \<in> set (w_buffers (worker_of k s'))"
  note sys = reachable_ok [OF reach] and fwd = sys_step_forward [OF step k]
  have "w_phase (worker_of k s) \<noteq> Finished" using busy fwd(2,3) unfolding finished_iff by simp
  with loc k a fwd(2) consider "is_closed (sys_proc s) a"
    | "leaving (sys_pc s (w_manager (worker_of k s))) = Some a"
    by (auto simp: local_ok_def soon_closed_def dest!: bspec [of _ _ "worker_of k s"])
  then show "is_closed (sys_proc s') a \<or> leaving (sys_pc s' (w_manager (worker_of k s'))) = Some a"
  proof cases
    case 1
    with closed_while_working [OF reach step clean k _ busy] a fwd(2) show ?thesis by simp
  next
    case 2
    from step show ?thesis
    proof (cases rule: sys_step_cases)
      case (app t)
      show ?thesis
      proof (cases "t = w_manager (worker_of k s)")
        case True
        with leaving_app_step [OF sys app] 2 mgr show ?thesis by simp
      next
        case False
        with app_step_others [OF app] 2 mgr show ?thesis by simp
      qed
    next
      case (worker j p)
      with 2 mgr show ?thesis by simp
    qed
  qed
qed

lemma local_ok_step:
  assumes reach: "reachable True s" and step: "sys_step True s (Inr s')" and clean: "no_skip (sys_proc s')"
    and loc: "local_ok s"
  shows "local_ok s'"
  using step
proof (cases rule: sys_step_cases)
  case (app t)
  note sys = reachable_ok [OF reach]
  have old: "soon_closed s' (worker_of k s')" if "k < length (workers (sys_proc s))" for k
    using app_step_workers [OF app] that
    by (intro soon_closed_step [OF reach step clean loc that]) (auto simp: nth_append)
  have new: "workers (sys_proc s') = workers (sys_proc s) \<or>
    (\<exists>as. workers (sys_proc s')
        = workers (sys_proc s) @ [\<lparr>w_manager = t, w_buffers = as, w_phase = Waiting 0\<rparr>]
      \<and> (\<forall>a \<in> set as. leaving (sys_pc s' t) = Some a))"
    using app
  proof (cases rule: app_step_cases)
    case (full ref b won p)
    have "ctx_buf (sys_proc s) t = Some (ref_logBuf ref)"
      using thread_ok_pc [OF sys_okD(4) [OF sys, of t]] full(1) by (simp add: at_ref_def)
    moreover from full clean loc have "workers p = workers (sys_proc s) \<or>
      (\<exists>as. workers p = workers (sys_proc s) @ [\<lparr>w_manager = t, w_buffers = as, w_phase = Waiting 0\<rparr>]
        \<and> set as \<subseteq> set_option (ctx_buf (sys_proc s) t))"
      by (intro local_tryIncEpoch(3) [OF sys, of t _ won]) (auto simp: local_ok_def)
    ultimately show ?thesis using full(4) by (auto simp: subset_iff)
  qed (auto simp: allocBuffer_effects(8) dtor_effects(3))
  have "soon_closed s' w" if w: "w \<in> set (workers (sys_proc s'))" for w
    using new
  proof (elim disjE exE conjE)
    assume "workers (sys_proc s') = workers (sys_proc s)"
    with w old show ?thesis by (auto simp: in_set_conv_nth)
  next
    fix as
    assume ws: "workers (sys_proc s')
        = workers (sys_proc s) @ [\<lparr>w_manager = t, w_buffers = as, w_phase = Waiting 0\<rparr>]"
      and "\<forall>a \<in> set as. leaving (sys_pc s' t) = Some a"
    then show ?thesis
      using w old by (auto simp: soon_closed_def in_set_conv_nth nth_append)
  qed
  with local_bufs_app_step [OF sys loc app clean] show ?thesis by (simp add: local_ok_def)
next
  case (worker j p)
  note eff = worker_step_effects [OF worker(2)]
  have "w_manager (worker_of k s') = w_manager (worker_of k s)" for k
    using worker_step_rank(3) [OF worker(2,1), of k] worker_step_rank(4) [OF worker(2,1)] worker(3) by (cases "k = j") simp_all
  with soon_closed_step [OF reach step clean loc] worker_step_length [OF worker(2)] worker(3)
  have "\<forall>w \<in> set (workers (sys_proc s')). soon_closed s' w" by (auto simp: in_set_conv_nth)
  with loc eff worker(3) show ?thesis by (simp add: local_ok_def local_bufs_def)
qed

lemma reachable_local_ok: "reachable True s \<Longrightarrow> no_skip (sys_proc s) \<Longrightarrow> local_ok s"
proof (induction rule: reachable.induct)
  case start
  show ?case
    by (simp add: local_ok_def local_bufs_def init_system_def init_process_def new_BufferManager_def)
next
  case (step s s')
  from step.IH no_skip_step [OF step(2) step.prems] have "local_ok s" by blast
  then show ?case by (rule local_ok_step [OF step(1,2,4)])
qed

text \<open>A property that holds until a fair step establishes another one gives way to it.\<close>

lemma response:
  assumes "P i" and "\<And>j. i \<le> j \<Longrightarrow> P j \<Longrightarrow> P (Suc j) \<or> Q (Suc j)"
    and "\<And>j. i \<le> j \<Longrightarrow> P j \<Longrightarrow> act j \<Longrightarrow> Q (Suc j)" and "\<exists>j \<ge> i. act j"
  shows "\<exists>j \<ge> i. Q (j :: nat)"
proof (rule ccontr)
  assume none: "\<not> ?thesis"
  have "P j" if "i \<le> j" for j
    using that
  proof (induction rule: dec_induct)
    case base
    show ?case by (rule assms(1))
  next
    case (step j)
    with assms(2) [of j] none show ?case by (meson le_Suc_eq)
  qed
  moreover from assms(4) obtain j where "i \<le> j" "act j" by blast
  ultimately have "Q (Suc j)" using assms(3) by blast
  with \<open>i \<le> j\<close> none show False by (meson le_Suc_eq)
qed

text \<open>No thread stops inside the slow path.\<close>

definition fair_threads :: "bool \<Rightarrow> (nat \<Rightarrow> agent) \<Rightarrow> (nat \<Rightarrow> system) \<Rightarrow> bool" where
  "fair_threads tlocal ag \<sigma> \<longleftrightarrow> (\<forall>t i. leaving (sys_pc (\<sigma> i) t) \<noteq> None \<longrightarrow>
     (\<exists>j \<ge> i. ag j = Thread t \<and> app_step tlocal t (\<sigma> j) (Inr (\<sigma> (Suc j)))))"

lemma execution_pc:
  assumes "execution tlocal ag \<sigma>"
  shows "sys_pc (\<sigma> (Suc j)) t = sys_pc (\<sigma> j) t \<or> ag j = Thread t \<and> app_step tlocal t (\<sigma> j) (Inr (\<sigma> (Suc j)))"
  using execution_step [OF assms, of j] app_step_others [of tlocal _ "\<sigma> j" "\<sigma> (Suc j)" t]
  by (cases "ag j") (auto split: if_splits)

lemma new_buffer_next:
  "app_step tlocal t s (Inr s') \<Longrightarrow> sys_pc s t = NeedBuf ref \<Longrightarrow> \<exists>c. sys_pc s' t = GotNext ref c"
  by (erule app_step_cases) simp_all

lemma switch_closes:
  "app_step tlocal t s (Inr s') \<Longrightarrow> sys_pc s t = GotNext ref c \<Longrightarrow> is_closed (sys_proc s') (ref_logBuf ref)"
  by (erule app_step_cases) (simp_all add: is_closed_def)

lemma thread_response:
  assumes exec: "execution tlocal ag \<sigma>" and fair: "fair_threads tlocal ag \<sigma>"
    and pc: "sys_pc (\<sigma> i) t = pc" "leaving pc \<noteq> None"
    and reply: "\<And>s s'. app_step tlocal t s (Inr s') \<Longrightarrow> sys_pc s t = pc \<Longrightarrow> Q s'"
  shows "\<exists>j \<ge> i. Q (\<sigma> j)"
proof (rule response)
  show "sys_pc (\<sigma> i) t = pc" by (rule pc(1))
  show "\<exists>j \<ge> i. ag j = Thread t \<and> app_step tlocal t (\<sigma> j) (Inr (\<sigma> (Suc j)))"
    using fair pc unfolding fair_threads_def by blast
  show "sys_pc (\<sigma> (Suc j)) t = pc \<or> Q (\<sigma> (Suc j))" if "sys_pc (\<sigma> j) t = pc" for j
    using execution_pc [OF exec, of j t] reply that by auto
qed (use reply in blast)

lemma leaving_closes:
  assumes exec: "execution tlocal ag \<sigma>" and fair: "fair_threads tlocal ag \<sigma>"
    and "leaving (sys_pc (\<sigma> i) t) = Some a"
  shows "\<exists>j \<ge> i. is_closed (sys_proc (\<sigma> j)) a"
proof -
  have got: "\<exists>k \<ge> j. is_closed (sys_proc (\<sigma> k)) (ref_logBuf ref)" if "sys_pc (\<sigma> j) t = GotNext ref c" for j ref c
    by (rule thread_response [OF exec fair that, where Q = "\<lambda>s. is_closed (sys_proc s) (ref_logBuf ref)"])
      (auto intro: switch_closes)
  from assms(3) consider ref where "sys_pc (\<sigma> i) t = NeedBuf ref" "a = ref_logBuf ref"
    | ref c where "sys_pc (\<sigma> i) t = GotNext ref c" "a = ref_logBuf ref"
    by (cases "sys_pc (\<sigma> i) t") auto
  then show ?thesis
  proof cases
    case 1
    have "\<exists>k \<ge> i. \<exists>c. sys_pc (\<sigma> k) t = GotNext ref c"
      by (rule thread_response [OF exec fair 1(1), where Q = "\<lambda>s. \<exists>c. sys_pc s t = GotNext ref c"])
        (auto intro: new_buffer_next)
    with got 1(2) show ?thesis by (meson order_trans)
  qed (use got in blast)
qed

text \<open>
  C8: with a manager per thread, as the code declares it, every worker finishes: in every infinite
  execution in which the worker gets the processor again and again, no thread stops inside the slow
  path, no step fails and no epoch is skipped, the worker counts its buffers and returns them.
\<close>

theorem local_workers_finish:
  assumes "execution True ag \<sigma>" and "never_skips \<sigma>" and "fair_worker ag k" and "fair_threads True ag \<sigma>"
    and "k < length (workers (sys_proc (\<sigma> i)))"
  shows "\<exists>j \<ge> i. w_phase (workers (sys_proc (\<sigma> j)) ! k) = Finished"
proof (rule worker_finishes [OF assms(1-3,5)])
  fix a
  assume a: "a \<in> set (w_buffers (worker_of k (\<sigma> i)))"
  have "local_ok (\<sigma> i)"
    using execution_reachable [OF assms(1)] assms(2) by (auto simp: never_skips_def intro: reachable_local_ok)
  with assms(5) have "soon_closed (\<sigma> i) (worker_of k (\<sigma> i))" by (simp add: local_ok_def)
  with a leaving_closes [OF assms(1,4), of i _ a]
  show "\<exists>j \<ge> i. is_closed (sys_proc (\<sigma> j)) a \<or> w_phase (worker_of k (\<sigma> j)) = Finished"
    by (auto simp: soon_closed_def)
qed

text \<open>One worker alone, from the end of the first epoch.\<close>

lemma worker_steps_prefix:
  assumes "worker_steps k n p = Inr q"
  shows "m \<le> n \<Longrightarrow> \<exists>r. worker_steps k m p = Inr r"
proof (induction m rule: inc_induct)
  case base
  with assms show ?case by blast
next
  case (step m)
  then show ?case by (auto simp: for_loop_snoc and_then_Inr_iff simp del: for_loop.simps(2))
qed

lemma worker_steps_idle:
  assumes "worker_steps k n p = Inr q" and "w_phase (workers q ! k) = Finished"
  shows "worker_steps k (n + m) p = Inr q"
  using assms
  by (induction m) (simp_all add: for_loop_snoc worker_step_def del: for_loop.simps(2))

lemma solo_execution:
  assumes reach: "reachable tlocal s" and k: "k < length (workers (sys_proc s))"
    and run: "worker_steps k n (sys_proc s) = Inr q" "w_phase (workers q ! k) = Finished"
  obtains \<sigma> where "execution tlocal (\<lambda>_. Worker k) \<sigma>" "\<sigma> 0 = s"
    "\<And>i. length (workers (sys_proc (\<sigma> i))) = length (workers (sys_proc s))"
    "\<And>i. sys_pc (\<sigma> i) = sys_pc s"
proof -
  have "\<exists>p. worker_steps k i (sys_proc s) = Inr p" for i
    using worker_steps_prefix [OF run(1), of i] worker_steps_idle [OF run, of "i - n"] by (cases "i \<le> n") auto
  then obtain P where P: "\<And>i. worker_steps k i (sys_proc s) = Inr (P i)" by metis
  define \<sigma> where "\<sigma> i = s\<lparr>sys_proc := P i\<rparr>" for i
  have P0: "P 0 = sys_proc s" using P [of 0] by simp
  have len: "length (workers (P i)) = length (workers (sys_proc s))" for i
    using worker_steps_reachable [OF reach k P] by simp
  have step: "worker_step k (P i) = Inr (P (Suc i))" for i
    using P [of "Suc i"] P [of i] by (simp add: for_loop_snoc del: for_loop.simps(2))
  show ?thesis
  proof (rule that)
    show start: "\<sigma> 0 = s" by (simp add: \<sigma>_def P0)
    show "execution tlocal (\<lambda>_. Worker k) \<sigma>"
      unfolding execution_def start using reach k len step by (simp add: \<sigma>_def)
  qed (simp_all add: \<sigma>_def len)
qed

theorem local_workers_finish_witness:
  "\<exists>\<sigma> j. execution True (\<lambda>_. Worker 0) \<sigma> \<and> w_phase (workers (sys_proc (\<sigma> 0)) ! 0) = Waiting 0
     \<and> w_phase (workers (sys_proc (\<sigma> j)) ! 0) = Finished"
proof -
  obtain s c b where s: "reachable True s" "on_fresh_buffer s 0 c"
    "heap (sys_proc s) 0 = Some b" "eb_closed b" "eb_events b = MAX_EVENTS + 1"
    "activeWorkers (buf_manager (sys_proc s) 0) = 1"
    "workers (sys_proc s) = [\<lparr>w_manager = 0, w_buffers = [0], w_phase = Waiting 0\<rparr>]"
    "\<forall>u. u \<noteq> 0 \<longrightarrow> sys_pc s u = Idle"
    by (rule second_epoch [of True]) simp
  have "mgr_alive (sys_proc s) 0"
    using sys_okD(4) [OF reachable_ok [OF s(1)], of 0] s(2)
    by (auto simp: on_fresh_buffer_def thread_ok_def)
  with worker_run_ends [of 0 "sys_proc s" 0 "[0]" "MAX_EVENTS + 1"] s obtain q where
    "worker_steps 0 (length [0::nat] + 2) (sys_proc s) = Inr q" "w_phase (workers q ! 0) = Finished"
    by (auto simp: is_closed_def int_add_def size_defs MAX_WORKERS_def simp del: for_loop.simps)
  from solo_execution [OF s(1) _ this] s(7) obtain \<sigma> where run: "execution True (\<lambda>_. Worker 0) \<sigma>"
    "\<sigma> 0 = s" "\<And>i. length (workers (sys_proc (\<sigma> i))) = 1" "\<And>i. sys_pc (\<sigma> i) = sys_pc s"
    by auto
  have "never_skips \<sigma>"
    unfolding never_skips_def
  proof
    fix i
    show "no_skip (sys_proc (\<sigma> i))"
      using skip_needs_workers [OF execution_reachable [OF run(1)], of i] run(3) [of i] by simp
  qed
  moreover have "fair_threads True (\<lambda>_. Worker 0) \<sigma>"
    unfolding fair_threads_def run(4)
  proof (intro allI impI)
    fix t i
    assume "leaving (sys_pc s t) \<noteq> None"
    with s(2,8) show "\<exists>j \<ge> i. Worker 0 = Thread t \<and> app_step True t (\<sigma> j) (Inr (\<sigma> (Suc j)))"
      by (cases "t = 0") (simp_all add: on_fresh_buffer_def)
  qed
  moreover have "fair_worker (\<lambda>_. Worker 0) 0" by (auto simp: fair_worker_def)
  ultimately obtain j where "w_phase (workers (sys_proc (\<sigma> j)) ! 0) = Finished"
    using local_workers_finish [OF run(1), of 0 0] run(3) [of 0] by auto
  with run s(7) show ?thesis by auto
qed

end
