(* ===== verification/HappensBefore.thy ===== *)
theory HappensBefore
  imports Prelude
begin

text \<open>
  Data races in the sense of C++: two accesses to one plain location, not both reads, that no
  happens-before order relates. What a party knows to have happened before its next action can be
  tracked from action to action; where an access is made by a party that knows all earlier ones to its
  location, it is in no race with them.
\<close>

section \<open>Actions\<close>

text \<open>
  Parties act: application threads and workers. They synchronise through the managers' monitors and
  the buffers' atomic flags \<open>closed\<close>.
\<close>

datatype party = AppThread nat | WorkerThread nat

datatype sync = Monitor nat | Closed nat

text \<open>
  Plain memory. \<open>Members m\<close>: the members of a manager other than the monitor. \<open>Content a\<close>: a buffer's
  \<open>events\<close>, \<open>nextRdtscTime\<close> and \<open>buf\<close>. \<open>Assignment a\<close>: its \<open>threadId\<close> and \<open>epoch\<close>.
\<close>

datatype loc = Members nat | Content nat | Assignment nat

text \<open>
  \<open>Access\<close>: a read, a write, or the destructor of an object, which ends the lifetime of its members.
  \<open>Acquire\<close>: a lock, or an atomic load that returns what the last store stored. \<open>Release\<close>: an unlock, or
  an atomic store. \<open>Start\<close>: the creation of a thread.
\<close>

datatype access_kind = Reads | Writes | Destroys

datatype action = Access access_kind loc | Acquire sync | Release sync | Start party

type_synonym trace = "(party \<times> action) list"

section \<open>Happens before\<close>

inductive hb :: "trace \<Rightarrow> nat \<Rightarrow> nat \<Rightarrow> bool" for tr where
  program_order: "i < j \<Longrightarrow> j < length tr \<Longrightarrow> fst (tr ! i) = fst (tr ! j) \<Longrightarrow> hb tr i j"
| synchronizes: "i < j \<Longrightarrow> j < length tr \<Longrightarrow> snd (tr ! i) = Release x \<Longrightarrow> snd (tr ! j) = Acquire x \<Longrightarrow>
    (\<And>k. i < k \<Longrightarrow> k < j \<Longrightarrow> snd (tr ! k) \<noteq> Release x) \<Longrightarrow> hb tr i j"
| starts: "i < j \<Longrightarrow> j < length tr \<Longrightarrow> snd (tr ! i) = Start (fst (tr ! j)) \<Longrightarrow> hb tr i j"
| trans: "hb tr i j \<Longrightarrow> hb tr j k \<Longrightarrow> hb tr i k"

lemma hb_less: "hb tr i j \<Longrightarrow> i < j"
  by (induction rule: hb.induct) auto

text \<open>The accesses \<open>i\<close> and \<open>j\<close> race.\<close>

fun conflict :: "action \<Rightarrow> action \<Rightarrow> bool" where
  "conflict (Access a l) (Access b l') \<longleftrightarrow> l = l' \<and> \<not> (a = Reads \<and> b = Reads)"
| "conflict _ _ \<longleftrightarrow> False"

definition race :: "trace \<Rightarrow> nat \<Rightarrow> nat \<Rightarrow> bool" where
  "race tr i j \<longleftrightarrow> i < j \<and> j < length tr \<and> conflict (snd (tr ! i)) (snd (tr ! j)) \<and> \<not> hb tr i j"

definition race_free :: "trace \<Rightarrow> bool" where
  "race_free tr \<longleftrightarrow> (\<forall>i j. \<not> race tr i j)"

lemma raceE:
  assumes "race tr i j"
  obtains x a y b l where "i < j" "j < length tr" "tr ! i = (x, Access a l)" "tr ! j = (y, Access b l)"
    "x \<noteq> y" "\<not> (a = Reads \<and> b = Reads)" "\<not> hb tr i j"
proof -
  from assms obtain a b l where *: "i < j" "j < length tr" "snd (tr ! i) = Access a l" "snd (tr ! j) = Access b l"
    "\<not> (a = Reads \<and> b = Reads)" "\<not> hb tr i j"
    by (cases "(snd (tr ! i), snd (tr ! j))" rule: conflict.cases) (auto simp: race_def)
  then have "fst (tr ! i) \<noteq> fst (tr ! j)" using hb.program_order by blast
  with * that show ?thesis by (cases "tr ! i"; cases "tr ! j") auto
qed

section \<open>Knowledge\<close>

text \<open>
  The locations of which a party, or whoever acquires a synchronisation object next, knows that all
  accesses so far happened before its next action.
\<close>

record knowledge =
  known_by :: "party \<Rightarrow> loc set"
  left_at :: "sync \<Rightarrow> loc set"

definition no_access :: knowledge where
  "no_access = \<lparr>known_by = (\<lambda>_. UNIV), left_at = (\<lambda>_. UNIV)\<rparr>"

fun learn :: "party \<times> action \<Rightarrow> knowledge \<Rightarrow> knowledge" where
  "learn (x, Access a l) K = K\<lparr>known_by := (\<lambda>y. if y = x then known_by K y else known_by K y - {l}),
     left_at := (\<lambda>y. left_at K y - {l})\<rparr>"
| "learn (x, Acquire y) K = K\<lparr>known_by := (known_by K)(x := known_by K x \<union> left_at K y)\<rparr>"
| "learn (x, Release y) K = K\<lparr>left_at := (left_at K)(y := known_by K x)\<rparr>"
| "learn (x, Start y) K = K\<lparr>known_by := (known_by K)(y := known_by K y \<union> known_by K x)\<rparr>"

text \<open>No knowledge is asked of destructors.\<close>

fun informed :: "party \<times> action \<Rightarrow> knowledge \<Rightarrow> bool" where
  "informed (x, Access a l) K \<longleftrightarrow> a = Destroys \<or> l \<in> known_by K x"
| "informed _ K \<longleftrightarrow> True"

definition knowledge_of :: "trace \<Rightarrow> knowledge" where
  "knowledge_of tr = fold learn tr no_access"

definition orderly :: "trace \<Rightarrow> bool" where
  "orderly tr \<longleftrightarrow> (\<forall>i < length tr. informed (tr ! i) (knowledge_of (take i tr)))"

lemma knowledge_of_snoc: "knowledge_of (tr @ [e]) = learn e (knowledge_of tr)"
  by (simp add: knowledge_of_def)

lemma orderly_Nil [simp]: "orderly []"
  by (simp add: orderly_def)

lemma orderly_snoc: "orderly (tr @ [e]) \<longleftrightarrow> orderly tr \<and> informed e (knowledge_of tr)"
  by (auto simp: orderly_def nth_append less_Suc_eq)

text \<open>What knowledge means.\<close>

definition before_party :: "trace \<Rightarrow> nat \<Rightarrow> nat \<Rightarrow> party \<Rightarrow> bool" where
  "before_party tr n i x \<longleftrightarrow>
     (\<exists>j < n. (i = j \<or> hb tr i j) \<and> (fst (tr ! j) = x \<or> snd (tr ! j) = Start x))"

definition before_sync :: "trace \<Rightarrow> nat \<Rightarrow> nat \<Rightarrow> sync \<Rightarrow> bool" where
  "before_sync tr n i y \<longleftrightarrow>
     (\<exists>j < n. (i = j \<or> hb tr i j) \<and> snd (tr ! j) = Release y
        \<and> (\<forall>k. j < k \<longrightarrow> k < n \<longrightarrow> snd (tr ! k) \<noteq> Release y))"

lemma before_party_Suc: "before_party tr n i x \<Longrightarrow> before_party tr (Suc n) i x"
  by (auto simp: before_party_def less_Suc_eq)

lemma before_sync_Suc: "before_sync tr n i y \<Longrightarrow> snd (tr ! n) \<noteq> Release y \<Longrightarrow> before_sync tr (Suc n) i y"
  unfolding before_sync_def by (metis less_Suc_eq)

lemma before_party_hb:
  assumes "before_party tr n i x" and "n < length tr" and "fst (tr ! n) = x"
  shows "hb tr i n"
proof -
  from assms(1) obtain j where j: "j < n" "i = j \<or> hb tr i j" "fst (tr ! j) = x \<or> snd (tr ! j) = Start x"
    by (auto simp: before_party_def)
  then have "hb tr j n" using assms(2,3) by (auto intro: hb.program_order hb.starts)
  with j(2) show ?thesis by (auto intro: hb.trans)
qed

lemma before_sync_hb:
  assumes "before_sync tr n i y" and "n < length tr" and "snd (tr ! n) = Acquire y"
  shows "hb tr i n"
proof -
  from assms(1) obtain j where j: "j < n" "i = j \<or> hb tr i j" "snd (tr ! j) = Release y"
    "\<And>k. j < k \<Longrightarrow> k < n \<Longrightarrow> snd (tr ! k) \<noteq> Release y" by (auto simp: before_sync_def)
  then have "hb tr j n" using assms(2,3) by (auto intro: hb.synchronizes)
  with j(2) show ?thesis by (auto intro: hb.trans)
qed

text \<open>The last action of a party, or one that some action of it follows, is known to the party.\<close>

lemma reaches_party: "i = n \<or> hb tr i n \<Longrightarrow> fst (tr ! n) = x \<or> snd (tr ! n) = Start x \<Longrightarrow>
    before_party tr (Suc n) i x"
  by (auto simp: before_party_def)

lemma reaches_sync: "i = n \<or> hb tr i n \<Longrightarrow> snd (tr ! n) = Release y \<Longrightarrow> before_sync tr (Suc n) i y"
  by (auto simp: before_sync_def)

lemma knowledge_sound:
  assumes "n \<le> length tr" and "i < n" and "snd (tr ! i) = Access b l"
  shows "(l \<in> known_by (knowledge_of (take n tr)) x \<longrightarrow> before_party tr n i x)
    \<and> (l \<in> left_at (knowledge_of (take n tr)) y \<longrightarrow> before_sync tr n i y)"
  using assms
proof (induction n arbitrary: x y)
  case 0
  then show ?case by simp
next
  case (Suc n)
  obtain z act where e: "tr ! n = (z, act)" by (cases "tr ! n")
  have take: "knowledge_of (take (Suc n) tr) = learn (z, act) (knowledge_of (take n tr))"
    using Suc.prems(1) by (simp add: take_Suc_conv_app_nth knowledge_of_snoc e)
  have IH: "l \<in> known_by (knowledge_of (take n tr)) u \<Longrightarrow> before_party tr n i u"
    "l \<in> left_at (knowledge_of (take n tr)) v \<Longrightarrow> before_sync tr n i v" if "i < n" for u v
    using Suc.IH [of u v] Suc.prems that by simp_all
  have n: "n < length tr" using Suc.prems(1) by simp
  have here: "i = n \<or> hb tr i n" if "i < n \<Longrightarrow> l \<in> known_by (knowledge_of (take n tr)) z"
    using that IH(1) before_party_hb [OF _ n, of i z] Suc.prems(2) e by (cases "i < n") auto
  show ?case
  proof (cases act)
    case (Access a l')
    show ?thesis
    proof (cases "i < n")
      case True
      with IH Access e show ?thesis
        by (auto simp: take intro: before_party_Suc before_sync_Suc split: if_splits)
    next
      case False
      then have "i = n" using Suc.prems(2) by simp
      with Suc.prems(3) Access e show ?thesis by (auto simp: take intro: reaches_party)
    qed
  next
    case (Acquire v)
    then have "i < n" using Suc.prems(2,3) e by (cases "i = n") auto
    moreover have "before_party tr (Suc n) i z" if "l \<in> left_at (knowledge_of (take n tr)) v"
      using that \<open>i < n\<close> IH(2) before_sync_hb [OF _ n, of i v] Acquire e by (auto intro: reaches_party)
    ultimately show ?thesis
      using IH Acquire e by (auto simp: take intro: before_party_Suc before_sync_Suc split: if_splits)
  next
    case (Release v)
    then have "i < n" using Suc.prems(2,3) e by (cases "i = n") auto
    with IH Release e here show ?thesis
      by (auto simp: take intro: before_party_Suc before_sync_Suc reaches_sync split: if_splits)
  next
    case (Start u)
    then have "i < n" using Suc.prems(2,3) e by (cases "i = n") auto
    with IH Start e here show ?thesis
      by (auto simp: take intro: before_party_Suc before_sync_Suc reaches_party split: if_splits)
  qed
qed

theorem orderly_races:
  assumes "orderly tr" and "race tr i j"
  shows "\<exists>l. snd (tr ! j) = Access Destroys l"
  using assms(2)
proof (rule raceE)
  fix x a y b l
  assume j: "i < j" "j < length tr" "tr ! i = (x, Access a l)" "tr ! j = (y, Access b l)" "\<not> hb tr i j"
  have "l \<notin> known_by (knowledge_of (take j tr)) y"
  proof
    assume "l \<in> known_by (knowledge_of (take j tr)) y"
    with knowledge_sound [of j tr i a l y] j have "before_party tr j i y" by simp
    then have "hb tr i j" by (rule before_party_hb) (use j in auto)
    with j(5) show False ..
  qed
  with assms(1) j(2,4) show ?thesis by (auto simp: orderly_def)
qed

text \<open>
  An access of a party that nobody has started, and that has not acted during \<open>es\<close>, follows nothing
  of \<open>es\<close>.
\<close>

lemma hb_next_access:
  assumes "hb (tr @ es @ [(x, Access a l)]) i j" and "j = length (tr @ es)"
    and starts: "Start x \<notin> snd ` set (tr @ es)" and others: "x \<notin> fst ` set es"
  shows "i < length tr"
  using assms(1,2)
proof (induction rule: hb.induct)
  case (program_order i j)
  then have i: "i < length (tr @ es)" and last: "(tr @ es @ [(x, Access a l)]) ! j = (x, Access a l)"
    by (auto simp: nth_append)
  have "fst ((tr @ es) ! i) = x" using program_order(3) last i by (auto simp: nth_append split: if_splits)
  with i others show ?case by (force simp: nth_append split: if_splits)
next
  case (synchronizes i j y)
  then show ?case by (simp add: nth_append)
next
  case (starts i j)
  then have "(tr @ es) ! i \<in> set (tr @ es)" "snd ((tr @ es) ! i) = Start x"
    by (auto simp: nth_append split: if_splits)
  with assms(3) show ?case by force
next
  case (trans i j k)
  then have "j < length tr" by simp
  with hb_less [OF trans(1)] show ?case by simp
qed

text \<open>So it races with what the others did there during \<open>es\<close>.\<close>

lemma race_next_access:
  assumes "Start x \<notin> snd ` set (tr @ es)" and "x \<notin> fst ` set es" and "n < length es"
    and "snd (es ! n) = Access b l" and "\<not> (a = Reads \<and> b = Reads)"
  shows "race (tr @ es @ [(x, Access a l)]) (length tr + n) (length (tr @ es))"
  using assms(3-5) hb_next_access [OF _ refl assms(1,2), of a l "length tr + n"]
  by (auto simp: race_def nth_append)

section \<open>Sequences of actions of one party\<close>

fun orderly_by :: "party \<Rightarrow> action list \<Rightarrow> knowledge \<Rightarrow> bool" where
  "orderly_by x [] K \<longleftrightarrow> True"
| "orderly_by x (act # acts) K \<longleftrightarrow> informed (x, act) K \<and> orderly_by x acts (learn (x, act) K)"

definition learn_by :: "party \<Rightarrow> action list \<Rightarrow> knowledge \<Rightarrow> knowledge" where
  "learn_by x acts K = fold learn (map (Pair x) acts) K"

lemma learn_by_simps [simp]:
  "learn_by x [] K = K" "learn_by x (act # acts) K = learn_by x acts (learn (x, act) K)"
  by (simp_all add: learn_by_def)

lemma learn_by_append: "learn_by x (as @ bs) K = learn_by x bs (learn_by x as K)"
  by (simp add: learn_by_def)

lemma orderly_append:
  "orderly (tr @ map (Pair x) acts) \<longleftrightarrow> orderly tr \<and> orderly_by x acts (knowledge_of tr)"
proof (induction acts arbitrary: tr)
  case Nil
  then show ?case by simp
next
  case (Cons act acts)
  from Cons.IH [of "tr @ [(x, act)]"] show ?case by (auto simp: orderly_snoc knowledge_of_snoc)
qed

lemma knowledge_of_append: "knowledge_of (tr @ map (Pair x) acts) = learn_by x acts (knowledge_of tr)"
  by (simp add: knowledge_of_def learn_by_def)

text \<open>A party forgets nothing, and the others forget only the locations it accesses.\<close>

lemma learn_by_own: "known_by K x \<subseteq> known_by (learn_by x acts K) x"
proof (induction acts arbitrary: K)
  case Nil
  then show ?case by simp
next
  case (Cons act acts)
  have "known_by K x \<subseteq> known_by (learn (x, act) K) x" by (cases act) auto
  also have "\<dots> \<subseteq> known_by (learn_by x acts (learn (x, act) K)) x" by (rule Cons.IH)
  finally show ?case by simp
qed

lemma learn_by_party:
  "l \<in> known_by K y \<Longrightarrow> y = x \<or> (\<forall>a. Access a l \<notin> set acts) \<Longrightarrow> l \<in> known_by (learn_by x acts K) y"
proof (induction acts arbitrary: K)
  case Nil
  then show ?case by simp
next
  case (Cons act acts)
  then have "l \<in> known_by (learn (x, act) K) y" by (cases act) auto
  with Cons.IH Cons.prems(2) show ?case by auto
qed

lemma learn_by_sync:
  "l \<in> left_at K y \<Longrightarrow> \<forall>a. Access a l \<notin> set acts \<Longrightarrow> Release y \<notin> set acts \<Longrightarrow> l \<in> left_at (learn_by x acts K) y"
proof (induction acts arbitrary: K)
  case Nil
  then show ?case by simp
next
  case (Cons act acts)
  then have "l \<in> left_at (learn (x, act) K) y" by (cases act) auto
  with Cons.IH Cons.prems(2,3) show ?case by auto
qed

text \<open>What is acquired is known from then on, and what is known is left at what is released.\<close>

lemma learn_by_acquire: "left_at K y \<subseteq> known_by (learn_by x (Acquire y # acts) K) x"
  using learn_by_own [of "learn (x, Acquire y) K" x acts] by auto

lemma learn_by_release: "left_at (learn_by x (acts @ [Release y]) K) y = known_by (learn_by x (acts @ [Release y]) K) x"
  by (simp add: learn_by_append)

end
