(* ===== verification/DataRaces.thy ===== *)
theory DataRaces
  imports LifeCycle Progress HappensBefore
begin

text \<open>
  The plain memory that the steps of \<open>Concurrent\<close> access and how they synchronise, and the theorem
  that as long as no epoch is skipped their executions have no data race but for one: the monitor
  protects the managers and the assignment of buffers, and the contents of a buffer pass from thread to
  worker by its flag \<open>closed\<close> and from worker to thread by the pool, but the destructor of a thread-local
  manager locks nothing.
\<close>

section \<open>What steps access\<close>

text \<open>
  \<open>allocBuffer\<close>, with \<open>reset\<close> or the constructor of the buffer; \<open>tryIncEpoch\<close>, which changes the members
  if it wins, with the threads it starts; \<open>threadExit\<close>, with the buffer it closes; the destructor of a
  thread-local manager, after \<open>threadExit\<close> has unlocked the monitor; and \<open>release\<close>. Loads and stores of
  \<open>__log_buffer\<close> are atomic with relaxed order: they neither race nor synchronise, and are no actions.
\<close>

definition alloc_actions :: "nat \<Rightarrow> nat \<Rightarrow> action list" where
  "alloc_actions m a = [Acquire (Monitor m), Access Reads (Members m), Access Writes (Content a),
     Access Writes (Assignment a), Release (Closed a), Access Writes (Assignment a),
     Access Writes (Members m), Release (Monitor m)]"

definition epoch_actions :: "nat \<Rightarrow> nat \<Rightarrow> bool \<Rightarrow> party list \<Rightarrow> action list" where
  "epoch_actions m a won started =
     [Acquire (Monitor m), Access Reads (Members m), Access Reads (Assignment a)]
     @ map Start started @ (if won then [Access Writes (Members m)] else []) @ [Release (Monitor m)]"

definition exit_actions :: "bool \<Rightarrow> nat \<Rightarrow> process \<Rightarrow> action list" where
  "exit_actions tlocal t p =
     (if thr_context p t = None then []
      else
        let m = buf_manager_of tlocal t in
        Acquire (Monitor m)
        # (case ctx_buf p t of None \<Rightarrow> [] | Some a \<Rightarrow> [Release (Closed a)])
        @ [Access Writes (Members m), Release (Monitor m)])"

definition release_actions :: "nat \<Rightarrow> action list" where
  "release_actions m = [Acquire (Monitor m), Access Writes (Members m), Release (Monitor m)]"

text \<open>Whether a step has ended the epoch, and the workers that it started.\<close>

definition epoch_won :: "nat \<Rightarrow> process \<Rightarrow> process \<Rightarrow> bool" where
  "epoch_won m p p' \<longleftrightarrow> bm_epoch (buf_manager p' m) \<noteq> bm_epoch (buf_manager p m)"

definition new_workers :: "process \<Rightarrow> process \<Rightarrow> party list" where
  "new_workers p p' = map WorkerThread [length (workers p)..<length (workers p')]"

definition app_actions :: "bool \<Rightarrow> nat \<Rightarrow> system \<Rightarrow> system \<Rightarrow> action list" where
  "app_actions tlocal t s s' =
     (let m = buf_manager_of tlocal t; p = sys_proc s; p' = sys_proc s' in
      case sys_pc s t of
        Idle \<Rightarrow> if sys_pc s' t = Exited then exit_actions tlocal t p else []
      | GotBuf None \<Rightarrow> alloc_actions m (the (log_buffer p' t))
      | GotBuf (Some a) \<Rightarrow> [Access Reads (Content a)]
      | Logging ref \<Rightarrow> if sys_pc s' t = Idle then [Access Writes (Content (ref_logBuf ref))] else []
      | Loaded ref cur \<Rightarrow> [Access Writes (Content (ref_buf ref))]
      | Slow ref None \<Rightarrow> []
      | Slow ref (Some b) \<Rightarrow>
          if buffer_size BUFFER_MANAGER \<le> ref_events ref
            then epoch_actions m (ref_logBuf ref) (epoch_won m p p') (new_workers p p') else []
      | NeedBuf ref \<Rightarrow> alloc_actions m (the (log_buffer p' t))
      | GotNext ref a \<Rightarrow> [Access Writes (Content (ref_logBuf ref)), Release (Closed (ref_logBuf ref))]
      | Exited \<Rightarrow> [Access Destroys (Members m)])"

definition worker_actions :: "nat \<Rightarrow> process \<Rightarrow> action list" where
  "worker_actions k p =
     (let w = workers p ! k in
      case w_phase w of
        Waiting i \<Rightarrow>
          if i < length (w_buffers w) then
            (if is_closed p (w_buffers w ! i) then [Acquire (Closed (w_buffers w ! i))] else [])
          else map (\<lambda>a. Access Reads (Content a)) (w_buffers w)
      | Releasing \<Rightarrow> release_actions (w_manager w)
      | Finished \<Rightarrow> [])"

inductive traced_run :: "bool \<Rightarrow> system \<Rightarrow> trace \<Rightarrow> bool" for tlocal where
  start: "traced_run tlocal init_system []"
| app: "traced_run tlocal s tr \<Longrightarrow> app_step tlocal t s (Inr s') \<Longrightarrow>
     traced_run tlocal s' (tr @ map (Pair (AppThread t)) (app_actions tlocal t s s'))"
| worker: "traced_run tlocal s tr \<Longrightarrow> k < length (workers (sys_proc s)) \<Longrightarrow>
     worker_step k (sys_proc s) = Inr p \<Longrightarrow>
     traced_run tlocal (s\<lparr>sys_proc := p\<rparr>)
       (tr @ map (Pair (WorkerThread k)) (worker_actions k (sys_proc s)))"

lemma traced_run_reachable: "traced_run tlocal s tr \<Longrightarrow> reachable tlocal s"
proof (induction rule: traced_run.induct)
  case start
  show ?case by (rule reachable.start)
next
  case (app s tr t s')
  then show ?case by (auto intro: reachable.step sys_step.app)
next
  case (worker s tr k p)
  with sys_step.worker [of k s tlocal] show ?case by (auto intro: reachable.step)
qed

lemma reachable_traced: "reachable tlocal s \<Longrightarrow> \<exists>tr. traced_run tlocal s tr"
proof (induction rule: reachable.induct)
  case start
  show ?case by (blast intro: traced_run.start)
next
  case (step s s')
  then obtain tr where "traced_run tlocal s tr" by blast
  with step(2) show ?case by (cases rule: sys_step_cases) (blast intro: traced_run.app traced_run.worker)+
qed

section \<open>Who knows what\<close>

fun reads_settled :: "process \<Rightarrow> knowledge \<Rightarrow> party \<Rightarrow> nat list \<Rightarrow> worker_phase \<Rightarrow> bool" where
  "reads_settled p K x as (Waiting i) \<longleftrightarrow> (\<forall>j < length as.
     if j < i then Content (as ! j) \<in> known_by K x
     else is_closed p (as ! j) \<longrightarrow> Content (as ! j) \<in> left_at K (Closed (as ! j)))"
| "reads_settled p K x as Releasing \<longleftrightarrow> (\<forall>a \<in> set as. Content a \<in> known_by K x)"
| "reads_settled p K x as Finished \<longleftrightarrow> True"

definition pools_known :: "process \<Rightarrow> knowledge \<Rightarrow> bool" where
  "pools_known p K \<longleftrightarrow>
     (\<forall>m. mgr_alive p m \<longrightarrow> Members m \<in> left_at K (Monitor m))
     \<and> (\<forall>m a. a \<in># pool m p \<longrightarrow> Assignment a \<in> left_at K (Monitor m))
     \<and> (\<forall>m. \<forall>a \<in> set (freeBufs (buf_manager p m)). Content a \<in> left_at K (Monitor m))
     \<and> (\<forall>m. \<forall>a \<in> set (allocatedBufs (buf_manager p m)).
          is_closed p a \<longrightarrow> Content a \<in> left_at K (Closed a))
     \<and> (\<forall>k < length (workers p). reads_settled p K (WorkerThread k) (w_buffers (workers p ! k))
          (w_phase (workers p ! k)))"

definition absent_known :: "process \<Rightarrow> knowledge \<Rightarrow> bool" where
  "absent_known p K \<longleftrightarrow> (\<forall>a. heap p a = None \<longrightarrow>
     (\<forall>x. Content a \<in> known_by K x \<and> Assignment a \<in> known_by K x)
     \<and> (\<forall>y. Content a \<in> left_at K y \<and> Assignment a \<in> left_at K y))"

definition held_known :: "bool \<Rightarrow> system \<Rightarrow> knowledge \<Rightarrow> bool" where
  "held_known tlocal s K \<longleftrightarrow> (\<forall>t. \<forall>a \<in> held_by (sys_proc s) t (sys_pc s t).
     Content a \<in> known_by K (AppThread t) \<and> a \<in># pool (buf_manager_of tlocal t) (sys_proc s))"

definition informed_ok :: "bool \<Rightarrow> system \<Rightarrow> knowledge \<Rightarrow> bool" where
  "informed_ok tlocal s K \<longleftrightarrow>
     pools_known (sys_proc s) K \<and> absent_known (sys_proc s) K \<and> held_known tlocal s K"

lemma pools_knownD:
  assumes "pools_known p K"
  shows "mgr_alive p m \<Longrightarrow> Members m \<in> left_at K (Monitor m)"
    and "a \<in># pool m p \<Longrightarrow> Assignment a \<in> left_at K (Monitor m)"
    and "a \<in> set (freeBufs (buf_manager p m)) \<Longrightarrow> Content a \<in> left_at K (Monitor m)"
    and "a \<in> set (allocatedBufs (buf_manager p m)) \<Longrightarrow> is_closed p a \<Longrightarrow> Content a \<in> left_at K (Closed a)"
    and "k < length (workers p) \<Longrightarrow> reads_settled p K (WorkerThread k) (w_buffers (workers p ! k))
          (w_phase (workers p ! k))"
  using assms unfolding pools_known_def by blast+

lemma informed_ok_init: "informed_ok tlocal init_system no_access"
  by (simp add: informed_ok_def pools_known_def absent_known_def held_known_def no_access_def
      init_system_def init_process_def new_BufferManager_def pool_def held_by_def ctx_buf_def)

text \<open>A party that learns more about what is still of interest.\<close>

lemma reads_settled_mono:
  assumes "reads_settled p K x as ph"
    and "\<And>a. a \<in> set as \<Longrightarrow> ph \<noteq> Finished \<Longrightarrow> is_closed p' a \<Longrightarrow> is_closed p a"
    and "\<And>a. a \<in> set as \<Longrightarrow> ph \<noteq> Finished \<Longrightarrow> Content a \<in> known_by K x \<Longrightarrow> Content a \<in> known_by K' x"
    and "\<And>a. a \<in> set as \<Longrightarrow> ph \<noteq> Finished \<Longrightarrow> Content a \<in> left_at K (Closed a) \<Longrightarrow>
      Content a \<in> left_at K' (Closed a)"
  shows "reads_settled p' K' x as ph"
  using assms by (cases ph) auto

text \<open>What is known of addresses without a buffer, and of the buffers that threads hold, after a step.\<close>

lemma absent_known_step:
  assumes "informed_ok tlocal s K" and "\<And>x. heap p' x = None \<Longrightarrow> heap (sys_proc s) x = None"
    and "\<And>l x y. heap p' x = None \<Longrightarrow> l = Content x \<or> l = Assignment x \<Longrightarrow> l \<in> known_by K y \<Longrightarrow> l \<in> known_by K' y"
    and "\<And>l x y. heap p' x = None \<Longrightarrow> l = Content x \<or> l = Assignment x \<Longrightarrow> \<forall>z. l \<in> known_by K z \<Longrightarrow>
      \<forall>z. l \<in> left_at K z \<Longrightarrow> l \<in> left_at K' y"
  shows "absent_known p' K'"
  unfolding absent_known_def
proof (intro allI impI)
  fix x assume x: "heap p' x = None"
  have "\<forall>z. l \<in> known_by K z" "\<forall>z. l \<in> left_at K z" if "l = Content x \<or> l = Assignment x" for l
    using assms(1) assms(2) [OF x] that by (auto simp: informed_ok_def absent_known_def)
  then have "l \<in> known_by K' y" "l \<in> left_at K' z" if "l = Content x \<or> l = Assignment x" for l y z
    using assms(3,4) [OF x that] that by blast+
  then show "(\<forall>x'. Content x \<in> known_by K' x' \<and> Assignment x \<in> known_by K' x')
      \<and> (\<forall>y. Content x \<in> left_at K' y \<and> Assignment x \<in> left_at K' y)" by simp
qed

lemma held_known_goto:
  assumes "informed_ok tlocal s K" and "\<And>u. u \<noteq> t \<Longrightarrow> thr_context p' u = thr_context (sys_proc s) u"
    and "\<And>x. x \<in> held_by p' t pc' \<Longrightarrow> x \<in> held_by (sys_proc s) t (sys_pc s t)
      \<or> Content x \<in> known_by K' (AppThread t) \<and> x \<in># pool (buf_manager_of tlocal t) p'"
    and "\<And>u x. x \<in> held_by (sys_proc s) u (sys_pc s u) \<Longrightarrow> Content x \<in> known_by K (AppThread u) \<Longrightarrow>
      Content x \<in> known_by K' (AppThread u)"
    and "\<And>m x. x \<in># pool m (sys_proc s) \<Longrightarrow> x \<in># pool m p'"
  shows "held_known tlocal (goto t pc' p' s) K'"
  unfolding held_known_def
proof (intro allI ballI)
  fix u x assume x: "x \<in> held_by (sys_proc (goto t pc' p' s)) u (sys_pc (goto t pc' p' s) u)"
  have "x \<in> held_by (sys_proc s) u (sys_pc s u)
      \<or> Content x \<in> known_by K' (AppThread u) \<and> x \<in># pool (buf_manager_of tlocal u) p'"
    using x assms(2,3) held_by_frame [of p' u "sys_proc s"] by (cases "u = t") auto
  then show "Content x \<in> known_by K' (AppThread u)
      \<and> x \<in># pool (buf_manager_of tlocal u) (sys_proc (goto t pc' p' s))"
    using assms(1,4,5) by (auto simp: informed_ok_def held_known_def)
qed

section \<open>Steps that touch one buffer or none\<close>

text \<open>
  A thread that accesses a buffer it holds, and closes it if it lets go of it; the managers stay as
  they are.
\<close>

definition content_actions :: "access_kind \<Rightarrow> nat \<Rightarrow> bool \<Rightarrow> action list" where
  "content_actions k a closes = Access k (Content a) # (if closes then [Release (Closed a)] else [])"

text \<open>A worker waits for a buffer that is still open; whoever closes it leaves its content there.\<close>

lemma reads_settled_other:
  assumes "reads_settled p K x (w_buffers w) (w_phase w)" and "worker_waited p w" and "\<not> is_closed p a"
    and "\<And>b. b \<noteq> a \<Longrightarrow> is_closed p' b = is_closed p b"
    and "\<And>b. b \<noteq> a \<Longrightarrow> Content b \<in> known_by K x \<Longrightarrow> Content b \<in> known_by K' x"
    and "\<And>b. b \<noteq> a \<Longrightarrow> Content b \<in> left_at K (Closed b) \<Longrightarrow> Content b \<in> left_at K' (Closed b)"
    and "is_closed p' a \<Longrightarrow> Content a \<in> left_at K' (Closed a)"
  shows "reads_settled p' K' x (w_buffers w) (w_phase w)"
proof (cases "w_phase w")
  case (Waiting i)
  have "if j < i then Content (w_buffers w ! j) \<in> known_by K' x
      else is_closed p' (w_buffers w ! j) \<longrightarrow> Content (w_buffers w ! j) \<in> left_at K' (Closed (w_buffers w ! j))"
    if j: "j < length (w_buffers w)" for j
    using assms Waiting j by (cases "w_buffers w ! j = a") (auto simp: worker_waited_def)
  then show ?thesis by (simp add: Waiting)
next
  case Releasing
  with assms(2,3) have "a \<notin> set (w_buffers w)" by (auto simp: worker_waited_def)
  then have "b \<noteq> a" if "b \<in> set (w_buffers w)" for b using that by blast
  with assms(1,5) Releasing show ?thesis by simp
qed simp

lemma informed_content:
  assumes sys: "sys_ok tlocal s" and ok: "exclusive_ok s" and inf: "informed_ok tlocal s K"
    and held: "a \<in> held_by (sys_proc s) t (sys_pc s t)"
    and heap: "\<And>x. x \<noteq> a \<Longrightarrow> heap p' x = heap (sys_proc s) x" "is_closed p' a \<Longrightarrow> closes" "heap p' a \<noteq> None"
    and same: "buf_manager p' = buf_manager (sys_proc s)" "workers p' = workers (sys_proc s)"
      "mgr_alive p' = mgr_alive (sys_proc s)" "thr_context p' = thr_context (sys_proc s)"
    and sub: "held_by (sys_proc s) t pc' \<subseteq> held_by (sys_proc s) t (sys_pc s t)"
  shows "orderly_by (AppThread t) (content_actions ak a closes) K"
    and "informed_ok tlocal (goto t pc' p' s) (learn_by (AppThread t) (content_actions ak a closes) K)"
proof -
  let ?p = "sys_proc s" and ?K = "learn_by (AppThread t) (content_actions ak a closes) K"
  note pools = inf [unfolded informed_ok_def, THEN conjunct1]
  note know = pools_knownD [OF pools]
  have mine: "Content a \<in> known_by K (AppThread t)"
    using inf held by (auto simp: informed_ok_def held_known_def)
  then show "orderly_by (AppThread t) (content_actions ak a closes) K" by (simp add: content_actions_def)
  have open_a: "is_open ?p a" using exclusive_okD(1) [OF ok, of t] held by (simp add: thread_own_def)
  then have not_closed: "\<not> is_closed ?p a" by (auto dest: is_closed_not_open)
  have K: "l \<noteq> Content a \<Longrightarrow> l \<in> known_by K x \<Longrightarrow> l \<in> known_by ?K x"
    "l \<noteq> Content a \<Longrightarrow> l \<in> left_at K y \<Longrightarrow> y \<noteq> Closed a \<Longrightarrow> l \<in> left_at ?K y"
    "Content a \<in> known_by ?K (AppThread t)" "closes \<Longrightarrow> Content a \<in> left_at ?K (Closed a)" for l x y
    using mine by (auto simp: content_actions_def)
  have closed: "is_closed p' x \<longleftrightarrow> is_closed ?p x" if "x \<noteq> a" for x
    using heap(1) [OF that] by (simp add: is_closed_def)
  have pool: "pool m p' = pool m ?p" for m by (rule pool_cong) (simp_all add: same)
  have "reads_settled p' ?K (WorkerThread k) (w_buffers (workers ?p ! k)) (w_phase (workers ?p ! k))"
    if k: "k < length (workers ?p)" for k
  proof (rule reads_settled_other [OF know(5) [OF k] _ not_closed closed])
    show "worker_waited ?p (workers ?p ! k)" using exclusive_okD(3) [OF ok] k by (simp add: closed_ok_def)
  qed (use K heap(2) in auto)
  moreover have "Content x \<in> left_at ?K (Monitor m)" if "x \<in> set (freeBufs (buf_manager ?p m))" for x m
    using know(3) [OF that] exclusive_okD(3) [OF ok] that not_closed by (intro K(2)) (auto simp: closed_ok_def)
  moreover have "Content x \<in> left_at ?K (Closed x)"
    if "x \<in> set (allocatedBufs (buf_manager ?p m))" "is_closed p' x" for x m
    using that know(4) [OF that(1)] closed [of x] heap(2) K(2,4) by (cases "x = a") auto
  ultimately have "pools_known p' ?K"
    unfolding pools_known_def same pool using know(1,2) by (auto intro: K(2))
  moreover have "absent_known p' ?K"
  proof (rule absent_known_step [OF inf])
    show "heap p' x = None \<Longrightarrow> heap ?p x = None" for x using heap(1) [of x] heap(3) by (cases "x = a") auto
  qed (use heap(3) in \<open>auto simp: content_actions_def\<close>)
  moreover have "held_known tlocal (goto t pc' p' s) ?K"
  proof (rule held_known_goto [OF inf])
    show "x \<in> held_by ?p u (sys_pc s u) \<Longrightarrow> Content x \<in> known_by K (AppThread u) \<Longrightarrow>
        Content x \<in> known_by ?K (AppThread u)" for u x
      using exclusive_okD(2) [OF ok held, of u] K(1,3) by (cases "x = a") auto
  qed (use sub held_by_frame [of p' t ?p] in \<open>auto simp: same pool\<close>)
  ultimately show "informed_ok tlocal (goto t pc' p' s) ?K" by (simp add: informed_ok_def)
qed

lemma informed_move:
  assumes "informed_ok tlocal s K"
    and "held_by (sys_proc s) t pc' \<subseteq> held_by (sys_proc s) t (sys_pc s t)"
  shows "informed_ok tlocal (goto t pc' (sys_proc s) s) K"
  using assms by (fastforce simp: informed_ok_def held_known_def)

section \<open>Steps under the monitor\<close>

text \<open>What the lock hands over.\<close>

lemma monitor_knowledge:
  assumes "informed_ok tlocal s K"
  shows "mgr_alive (sys_proc s) m \<Longrightarrow> Members m \<in> left_at K (Monitor m)"
    and "heap (sys_proc s) a = None \<or> a \<in># pool m (sys_proc s) \<Longrightarrow> Assignment a \<in> left_at K (Monitor m)"
    and "heap (sys_proc s) a = None \<or> a \<in> set (freeBufs (buf_manager (sys_proc s) m)) \<Longrightarrow>
      Content a \<in> left_at K (Monitor m)"
  using assms pools_knownD [of "sys_proc s" K] by (auto simp: informed_ok_def absent_known_def)

lemma informed_alloc:
  assumes sys: "sys_ok tlocal s" and ok: "exclusive_ok s" and inf: "informed_ok tlocal s K"
    and call: "allocBuffer (buf_manager_of tlocal t) t (sys_proc s) = Inr (a, p')"
    and pc: "held_by p' t pc' \<subseteq> insert a (held_by (sys_proc s) t (sys_pc s t))"
  shows "orderly_by (AppThread t) (alloc_actions (buf_manager_of tlocal t) a) K"
    and "informed_ok tlocal (goto t pc' p' s)
      (learn_by (AppThread t) (alloc_actions (buf_manager_of tlocal t) a) K)"
proof -
  let ?p = "sys_proc s" and ?m = "buf_manager_of tlocal t"
  let ?K = "learn_by (AppThread t) (alloc_actions ?m a) K"
  note eff = allocBuffer_effects [OF call]
  note pools = sys_okD(1) [OF sys] and pools' = pools_ok_allocBuffer [OF sys_okD(1) [OF sys] call]
  note know = pools_knownD [OF inf [unfolded informed_ok_def, THEN conjunct1]]
  note unowned = allocBuffer_unowned [OF pools call]
  from eff(3) obtain b where heap: "heap p' = (heap ?p)(a \<mapsto> b)" and b: "\<not> eb_closed b"
    by (auto simp: fresh_buffer_def)
  have from_pool: "heap ?p a = None \<or> a \<in># pool ?m ?p" using unowned(3) by (auto simp: in_pool_iff)
  have mine: "Members ?m \<in> left_at K (Monitor ?m)" "Assignment a \<in> left_at K (Monitor ?m)"
    "Content a \<in> left_at K (Monitor ?m)"
    using monitor_knowledge [OF inf, where m = ?m] eff(1) unowned(3) from_pool by auto
  then show "orderly_by (AppThread t) (alloc_actions ?m a) K" by (auto simp: alloc_actions_def)
  have K: "l \<notin> {Members ?m, Content a, Assignment a} \<Longrightarrow> l \<in> known_by K x \<Longrightarrow> l \<in> known_by ?K x"
    "l \<notin> {Members ?m, Content a, Assignment a} \<Longrightarrow> l \<in> left_at K y \<Longrightarrow> y \<noteq> Closed a \<Longrightarrow> y \<noteq> Monitor ?m \<Longrightarrow>
      l \<in> left_at ?K y"
    "left_at K (Monitor ?m) \<subseteq> left_at ?K (Monitor ?m)" "Content a \<in> known_by ?K (AppThread t)"
    "l \<in> known_by K (AppThread t) \<Longrightarrow> l \<in> known_by ?K (AppThread t)"
    "l \<notin> {Members ?m, Assignment a} \<Longrightarrow> l \<in> left_at K (Monitor ?m) \<Longrightarrow> l \<in> known_by K (AppThread t) \<Longrightarrow>
      l \<in> left_at ?K (Closed a)" for l x y
    using mine by (auto simp: alloc_actions_def)
  have stay: "l \<in> left_at K (Monitor m) \<Longrightarrow> (m \<noteq> ?m \<Longrightarrow> l \<notin> {Members ?m, Content a, Assignment a}) \<Longrightarrow>
      l \<in> left_at ?K (Monitor m)" for l m using K(2) [of l "Monitor m"] K(3) by (cases "m = ?m") auto
  have a_pool: "a \<in># pool ?m p'" by (simp add: in_pool_iff eff(6))
  have pool: "x \<in># pool m p' \<longleftrightarrow> x \<in># pool m ?p \<or> m = ?m \<and> x = a" for x m
    using pool_allocBuffer [OF call, of m] eff(10) a_pool by (auto split: if_splits)
  have not_free: "a \<notin> set (freeBufs (buf_manager p' m))" for m
    using at_place_unique [OF pools', of a "Current ?m" "Pooled m"] by (auto simp: eff(6))
  have free: "x \<in> set (freeBufs (buf_manager ?p m))" if "x \<in> set (freeBufs (buf_manager p' m))" for x m
    using that by (auto simp: eff(6) dest: in_set_butlastD split: if_splits)
  have closed: "is_closed ?p x" "x \<noteq> a" if "is_closed p' x" for x
    using that b by (auto simp: is_closed_def heap split: if_splits)
  have "Members m \<in> left_at ?K (Monitor m)" if "mgr_alive p' m" for m
    using know(1) [of m] that by (auto simp: eff(7) intro!: stay)
  moreover have "Assignment x \<in> left_at ?K (Monitor m)" if "x \<in># pool m p'" for m x
  proof (cases "m = ?m")
    case True
    with that pool know(2) [of x m] mine(2) K(3) show ?thesis by auto
  next
    case False
    with that pools_okD(3) [OF pools' a_pool, of m] have "x \<noteq> a" by auto
    with that False pool know(2) [of x m] show ?thesis by (auto intro!: stay)
  qed
  moreover have "Content x \<in> left_at ?K (Monitor m)" if "x \<in> set (freeBufs (buf_manager p' m))" for m x
    using know(3) [OF free [OF that]] that not_free by (auto intro!: stay)
  moreover have "Content x \<in> left_at ?K (Closed x)"
    if "x \<in> set (allocatedBufs (buf_manager p' m))" "is_closed p' x" for m x
  proof -
    have "x \<in> set (allocatedBufs (buf_manager ?p m))"
      using that closed(2) by (auto simp: eff(6) split: if_splits)
    from know(4) [OF this closed(1) [OF that(2)]] closed(2) [OF that(2)] show ?thesis
      by (intro K(2)) auto
  qed
  moreover have "reads_settled p' ?K (WorkerThread k) (w_buffers (workers ?p ! k)) (w_phase (workers ?p ! k))"
    if k: "k < length (workers ?p)" for k
    using know(5) [OF k]
  proof (rule reads_settled_mono)
    fix x assume x: "x \<in> set (w_buffers (workers ?p ! k))" "w_phase (workers ?p ! k) \<noteq> Finished"
    have "x \<noteq> a" using unowned(2) [of "workers ?p ! k"] k x by auto
    then show "Content x \<in> known_by K (WorkerThread k) \<Longrightarrow> Content x \<in> known_by ?K (WorkerThread k)"
      "Content x \<in> left_at K (Closed x) \<Longrightarrow> Content x \<in> left_at ?K (Closed x)" by (auto intro: K(1,2))
  qed (rule closed(1))
  ultimately have "pools_known p' ?K" unfolding pools_known_def eff(8) by blast
  moreover have "absent_known p' ?K"
  proof (rule absent_known_step [OF inf])
    fix x l and y :: party and z :: sync
    assume "heap p' x = None"
    then have x: "heap ?p x = None" "x \<noteq> a" using heap by (auto split: if_splits)
    then show "heap ?p x = None" by simp
    assume l: "l = Content x \<or> l = Assignment x"
    with x(2) K(1) show "l \<in> known_by K y \<Longrightarrow> l \<in> known_by ?K y" by auto
    show "l \<in> left_at ?K z" if "\<forall>z. l \<in> known_by K z" "\<forall>z. l \<in> left_at K z"
      using l x(2) that K(2,3,6) by (cases "z = Closed a"; cases "z = Monitor ?m") auto
  qed
  moreover have "held_known tlocal (goto t pc' p' s) ?K"
  proof (rule held_known_goto [OF inf])
    show "x \<in> held_by ?p u (sys_pc s u) \<Longrightarrow> Content x \<in> known_by K (AppThread u) \<Longrightarrow>
        Content x \<in> known_by ?K (AppThread u)" for u x
      using alloc_not_held [OF sys ok call] by (cases "x = a") (auto intro: K(1))
  qed (use pc K(4) a_pool pool in \<open>auto simp: eff(5)\<close>)
  ultimately show "informed_ok tlocal (goto t pc' p' s) ?K" by (simp add: informed_ok_def)
qed

lemma epoch_knowledge:
  assumes "Members m \<in> left_at K (Monitor m)" and "Assignment a \<in> left_at K (Monitor m)"
    and "length started \<le> 1"
  shows "orderly_by x (epoch_actions m a won started) K"
    and "l \<notin> {Members m, Assignment a} \<Longrightarrow> l \<in> known_by K y \<Longrightarrow>
      l \<in> known_by (learn_by x (epoch_actions m a won started) K) y"
    and "z \<noteq> Monitor m \<Longrightarrow> l \<notin> {Members m, Assignment a} \<Longrightarrow> l \<in> left_at K z \<Longrightarrow>
      l \<in> left_at (learn_by x (epoch_actions m a won started) K) z"
    and "left_at K (Monitor m) \<subseteq> left_at (learn_by x (epoch_actions m a won started) K) (Monitor m)"
proof -
  have "started = [] \<or> (\<exists>w. started = [w])" using assms(3) by (cases started) auto
  with assms(1,2) show "orderly_by x (epoch_actions m a won started) K"
    "l \<notin> {Members m, Assignment a} \<Longrightarrow> l \<in> known_by K y \<Longrightarrow>
      l \<in> known_by (learn_by x (epoch_actions m a won started) K) y"
    "z \<noteq> Monitor m \<Longrightarrow> l \<notin> {Members m, Assignment a} \<Longrightarrow> l \<in> left_at K z \<Longrightarrow>
      l \<in> left_at (learn_by x (epoch_actions m a won started) K) z"
    "left_at K (Monitor m) \<subseteq> left_at (learn_by x (epoch_actions m a won started) K) (Monitor m)"
    by (auto simp: epoch_actions_def)
qed

lemma epoch_workers:
  assumes call: "tryIncEpoch m ref p = Inr (won, p')" and clean: "no_skip p'"
  shows "\<not> won \<and> p' = p
    \<or> won \<and> workers p' = workers p @ [\<lparr>w_manager = m, w_buffers = allocatedBufs (buf_manager p m),
        w_phase = Waiting 0\<rparr>]
      \<and> (\<forall>k. freeBufs (buf_manager p' k) = freeBufs (buf_manager p k))
      \<and> (\<forall>k. allocatedBufs (buf_manager p' k) = (if k = m then [] else allocatedBufs (buf_manager p k)))"
proof (cases won)
  case False
  with call show ?thesis by (auto elim: tryIncEpoch_cases)
next
  case True
  with call have won: "tryIncEpoch m ref p = Inr (True, p')" by simp
  have room: "activeWorkers (buf_manager p m) < MAX_WORKERS"
  proof (rule ccontr)
    assume "\<not> activeWorkers (buf_manager p m) < MAX_WORKERS"
    from tryIncEpoch_effects(7) [OF won this] clean show False by (auto simp: no_skip_def)
  qed
  from True tryIncEpoch_effects(6) [OF won room] show ?thesis by simp
qed

lemma informed_epoch:
  assumes sys: "sys_ok tlocal s" and ok: "exclusive_ok s" and inf: "informed_ok tlocal s K"
    and call: "tryIncEpoch (buf_manager_of tlocal t) ref (sys_proc s) = Inr (won, p')"
    and clean: "no_skip p'" and held: "ref_logBuf ref \<in> held_by (sys_proc s) t (sys_pc s t)"
    and pc: "held_by (sys_proc s) t pc' \<subseteq> held_by (sys_proc s) t (sys_pc s t)"
  shows "orderly_by (AppThread t)
      (epoch_actions (buf_manager_of tlocal t) (ref_logBuf ref) won' (new_workers (sys_proc s) p')) K"
    and "informed_ok tlocal (goto t pc' p' s) (learn_by (AppThread t)
      (epoch_actions (buf_manager_of tlocal t) (ref_logBuf ref) won' (new_workers (sys_proc s) p')) K)"
proof -
  let ?p = "sys_proc s" and ?m = "buf_manager_of tlocal t" and ?a = "ref_logBuf ref"
  let ?acts = "epoch_actions ?m ?a won' (new_workers ?p p')"
  let ?K = "learn_by (AppThread t) ?acts K"
  note same = tryIncEpoch_no_skip [OF call clean] and ws = epoch_workers [OF call clean]
  have alive: "mgr_alive ?p ?m" "mgr_alive p' = mgr_alive ?p"
    using call by (auto elim: tryIncEpoch_cases) (cases won; auto elim: tryIncEpoch_cases dest: tryIncEpoch_effects(4))
  have a_pool: "?a \<in># pool ?m ?p" using inf held by (auto simp: informed_ok_def held_known_def)
  then have mine: "Members ?m \<in> left_at K (Monitor ?m)" "Assignment ?a \<in> left_at K (Monitor ?m)"
    using monitor_knowledge [OF inf, where m = ?m] alive(1) by auto
  have "length (new_workers ?p p') \<le> 1" using ws by (auto simp: new_workers_def)
  note K = epoch_knowledge [OF mine this, where x = "AppThread t" and won = won']
  show "orderly_by (AppThread t) ?acts K" by (rule K(1))
  note know = pools_knownD [OF inf [unfolded informed_ok_def, THEN conjunct1]]
  have stay: "l \<in> left_at K (Monitor m) \<Longrightarrow> (m \<noteq> ?m \<Longrightarrow> l \<notin> {Members ?m, Assignment ?a}) \<Longrightarrow>
      l \<in> left_at ?K (Monitor m)" for l m using K(3) [where z = "Monitor m" and l = l] K(4) by (cases "m = ?m") auto
  have closed: "is_closed p' x = is_closed ?p x" for x by (simp add: is_closed_def same(1))
  have pool: "pool m p' = pool m ?p" for m by (rule pool_tryIncEpoch [OF call])
  have "Members m \<in> left_at ?K (Monitor m)" if "mgr_alive p' m" for m
    using know(1) [of m] that alive(2) by (auto intro!: stay)
  moreover have "Assignment x \<in> left_at ?K (Monitor m)" if "x \<in># pool m p'" for m x
    using know(2) [of x m] that pools_okD(3) [OF sys_okD(1) [OF sys] a_pool, of m]
    by (auto simp: pool intro!: stay)
  moreover have "Content x \<in> left_at ?K (Monitor m)" if "x \<in> set (freeBufs (buf_manager p' m))" for m x
    using know(3) [of x m] that ws by (auto intro!: stay)
  moreover have "Content x \<in> left_at ?K (Closed x)"
    if "x \<in> set (allocatedBufs (buf_manager p' m))" "is_closed p' x" for m x
  proof -
    have "x \<in> set (allocatedBufs (buf_manager ?p m))"
      using that(1) ws by (cases "m = ?m") auto
    from know(4) [OF this] that(2) closed show ?thesis by (intro K(3)) auto
  qed
  moreover have "reads_settled p' ?K (WorkerThread k) (w_buffers (workers p' ! k)) (w_phase (workers p' ! k))"
    if k: "k < length (workers p')" for k
  proof (cases "k < length (workers ?p)")
    case True
    then have "workers p' ! k = workers ?p ! k" using ws by (auto simp: nth_append)
    with know(5) [OF True] show ?thesis
      by (auto simp: closed intro!: K(2,3) elim!: reads_settled_mono)
  next
    case False
    with k ws have "workers p' ! k = \<lparr>w_manager = ?m, w_buffers = allocatedBufs (buf_manager ?p ?m),
        w_phase = Waiting 0\<rparr>" by (auto simp: nth_append less_Suc_eq)
    with know(4) [of _ ?m] show ?thesis by (auto simp: closed intro!: K(3))
  qed
  ultimately have "pools_known p' ?K" unfolding pools_known_def by blast
  moreover have "absent_known p' ?K"
  proof (rule absent_known_step [OF inf])
    fix x l and y :: party and z :: sync
    assume "heap p' x = None" and l: "l = Content x \<or> l = Assignment x"
    then have "x \<noteq> ?a" using pools_okD(5) [OF sys_okD(1) [OF sys] a_pool] same(1) by auto
    with l K(2) show "l \<in> known_by K y \<Longrightarrow> l \<in> known_by ?K y" by auto
    show "l \<in> left_at ?K z" if "\<forall>z. l \<in> left_at K z"
      using l that K(3) [where z = z] K(4) \<open>x \<noteq> ?a\<close> by (cases "z = Monitor ?m") auto
  qed (simp add: same(1))
  moreover have "held_known tlocal (goto t pc' p' s) ?K"
    by (rule held_known_goto [OF inf])
      (use pc held_by_frame [of p' t ?p] same(2) in \<open>auto simp: pool intro!: K(2)\<close>)
  ultimately show "informed_ok tlocal (goto t pc' p' s) ?K" by (simp add: informed_ok_def)
qed

text \<open>The end of a thread.\<close>

lemma exit_knowledge:
  assumes "Members m \<in> left_at K (Monitor m)"
    and acts: "acts = Acquire (Monitor m)
        # (case c of None \<Rightarrow> [] | Some a \<Rightarrow> [Release (Closed a)])
        @ [Access Writes (Members m), Release (Monitor m)]"
  shows "orderly_by x acts K"
    and "l \<noteq> Members m \<Longrightarrow> l \<in> known_by K y \<Longrightarrow> l \<in> known_by (learn_by x acts K) y"
    and "z \<noteq> Monitor m \<Longrightarrow> (\<And>a. c = Some a \<Longrightarrow> z \<noteq> Closed a) \<Longrightarrow> l \<noteq> Members m \<Longrightarrow>
      l \<in> left_at K z \<Longrightarrow> l \<in> left_at (learn_by x acts K) z"
    and "l \<in> left_at K (Monitor m) \<Longrightarrow> l \<in> left_at (learn_by x acts K) (Monitor m)"
    and "c = Some a \<Longrightarrow> l \<noteq> Members m \<Longrightarrow> l \<in> known_by K x \<Longrightarrow>
      l \<in> left_at (learn_by x acts K) (Closed a)"
  using assms(1) by (auto simp: acts split: option.splits)

lemma informed_exit:
  assumes sys: "sys_ok tlocal s" and ok: "exclusive_ok s" and inf: "informed_ok tlocal s K"
    and idle: "sys_pc s t = Idle" and call: "destroy_context tlocal t (sys_proc s) = Inr p'"
  shows "orderly_by (AppThread t) (exit_actions tlocal t (sys_proc s)) K"
    and "informed_ok tlocal (goto t Exited p' s)
      (learn_by (AppThread t) (exit_actions tlocal t (sys_proc s)) K)"
proof -
  let ?p = "sys_proc s" and ?m = "buf_manager_of tlocal t"
  let ?acts = "exit_actions tlocal t ?p"
  let ?K = "learn_by (AppThread t) ?acts K"
  have "orderly_by (AppThread t) ?acts K \<and> informed_ok tlocal (goto t Exited p' s) ?K"
    using call
  proof (cases rule: destroy_context_cases)
    case none
    have "held_by ?p t Exited \<subseteq> held_by ?p t (sys_pc s t)" by (simp add: held_by_def)
    with none informed_move [OF inf, of t Exited] show ?thesis by (simp add: exit_actions_def)
  next
    case (some p1 c)
    note eff = threadExit_effects [OF some(2)] and dtor = dtor_effects [OF call]
    note know = pools_knownD [OF inf [unfolded informed_ok_def, THEN conjunct1]]
    have mine: "Members ?m \<in> left_at K (Monitor ?m)" by (rule know(1) [OF eff(1)])
    have acts: "?acts = Acquire (Monitor ?m)
        # (case ctx_buf ?p t of None \<Rightarrow> [] | Some a \<Rightarrow> [Release (Closed a)])
        @ [Access Writes (Members ?m), Release (Monitor ?m)]"
      by (simp add: exit_actions_def some(1) Let_def)
    note K = exit_knowledge [OF mine acts, where x = "AppThread t"]
    have ctx: "Content a \<in> known_by K (AppThread t)" "is_open ?p a" if "ctx_buf ?p t = Some a" for a
      using that inf idle exclusive_okD(1) [OF ok, of t]
      by (auto simp: informed_ok_def held_known_def held_by_def thread_own_def)
    have same_ctx: "ctx_logBuffer (fst (tls_context t ?p)) = ctx_buf ?p t"
      using some(1) by (simp add: ctx_buf_def)
    have closed: "is_closed p' x \<longleftrightarrow> is_closed ?p x \<or> ctx_buf ?p t = Some x" for x
      using eff(9,10) some(3) unfolding same_ctx by (cases "ctx_buf ?p t") (auto simp: is_closed_def)
    have known: "Content x \<in> left_at ?K (Closed x)"
      if "is_closed p' x" "is_closed ?p x \<Longrightarrow> Content x \<in> left_at K (Closed x)" for x
      using that closed [of x] ctx(1) [of x] K(3) [where z = "Closed x" and l = "Content x"]
        K(5) [where l = "Content x"] by (cases "ctx_buf ?p t = Some x") auto
    have alive: "mgr_alive p' m \<Longrightarrow> mgr_alive ?p m" for m
      using some(3) eff(5) by (auto split: if_splits)
    have pool: "pool m p' = pool m ?p" for m
      by (simp add: pool_def dtor(1-3))
    have stay: "l \<in> left_at K (Monitor m) \<Longrightarrow> (\<And>n. l \<noteq> Members n) \<Longrightarrow> l \<in> left_at ?K (Monitor m)" for l m
      using K(3) [where z = "Monitor m" and l = l] K(4) [where l = l] by (cases "m = ?m") auto
    have "Members m \<in> left_at ?K (Monitor m)" if "mgr_alive p' m" for m
      using know(1) [of m] alive [OF that] K(3) [where z = "Monitor m" and l = "Members m"]
        K(4) [where l = "Members m"] by (cases "m = ?m") auto
    moreover have "reads_settled p' ?K (WorkerThread k) (w_buffers (workers ?p ! k)) (w_phase (workers ?p ! k))"
      if k: "k < length (workers ?p)" for k
      using know(5) [OF k] by (cases "w_phase (workers ?p ! k)") (auto intro: K(2) known)
    ultimately have "pools_known p' ?K"
      unfolding pools_known_def dtor(1-3) pool using know(2-4) known by (auto intro!: stay)
    moreover have "absent_known p' ?K"
    proof (rule absent_known_step [OF inf])
      show "heap p' x = None \<Longrightarrow> heap ?p x = None" for x using dtor(4) by (auto split: if_splits)
      fix x l and y :: party and z :: sync
      assume l: "l = Content x \<or> l = Assignment x"
      then show "l \<in> known_by K y \<Longrightarrow> l \<in> known_by ?K y" by (auto intro: K(2))
      show "l \<in> left_at ?K z" if "\<forall>z. l \<in> known_by K z" "\<forall>z. l \<in> left_at K z"
      proof -
        consider "z = Monitor ?m" | a where "z = Closed a" "ctx_buf ?p t = Some a"
          | "z \<noteq> Monitor ?m" "\<And>a. ctx_buf ?p t = Some a \<Longrightarrow> z \<noteq> Closed a" by blast
        then show ?thesis using that l K(3,5) stay by cases auto
      qed
    qed
    moreover have "held_known tlocal (goto t Exited p' s) ?K"
    proof (rule held_known_goto [OF inf])
      show "u \<noteq> t \<Longrightarrow> thr_context p' u = thr_context ?p u" for u using some(3) eff(4) by simp
    qed (simp_all add: pool held_by_def [of _ _ Exited] K(2))
    ultimately show ?thesis using K(1) by (simp add: informed_ok_def)
  qed
  then show "orderly_by (AppThread t) ?acts K" "informed_ok tlocal (goto t Exited p' s) ?K" by blast+
qed

lemma informed_destroy:
  assumes inf: "informed_ok tlocal s K" and "sys_pc s t = Exited"
  shows "informed_ok tlocal (goto t Exited (BufferManager_dtor t (sys_proc s)) s)
    (learn (AppThread t, Access Destroys (Members t)) K)"
proof -
  let ?p = "BufferManager_dtor t (sys_proc s)" and ?K = "learn (AppThread t, Access Destroys (Members t)) K"
  note know = pools_knownD [OF inf [unfolded informed_ok_def, THEN conjunct1]]
  have pool: "pool m ?p = pool m (sys_proc s)" for m by (simp add: pool_def)
  have closed: "is_closed ?p a = is_closed (sys_proc s) a" for a by (simp add: is_closed_def)
  have "reads_settled ?p ?K (WorkerThread k) (w_buffers (workers ?p ! k)) (w_phase (workers ?p ! k))"
    if "k < length (workers ?p)" for k
    using know(5) [of k] that by (auto simp: closed elim!: reads_settled_mono)
  then have "pools_known ?p ?K"
    using know(1-4) unfolding pools_known_def pool closed by auto
  moreover have "absent_known ?p ?K" by (rule absent_known_step [OF inf]) auto
  moreover have "held_known tlocal (goto t Exited ?p s) ?K"
    by (rule held_known_goto [OF inf]) (auto simp: pool held_by_def)
  ultimately show ?thesis by (simp add: informed_ok_def)
qed

lemma informed_app_step:
  assumes sys: "sys_ok tlocal s" and ok: "exclusive_ok s" and inf: "informed_ok tlocal s K"
    and "app_step tlocal t s (Inr s')" and clean: "no_skip (sys_proc s')"
  shows "orderly_by (AppThread t) (app_actions tlocal t s s') K
    \<and> informed_ok tlocal s' (learn_by (AppThread t) (app_actions tlocal t s s') K)"
proof -
  have pc: "sys_pc s t \<noteq> Exited \<Longrightarrow> pc_ok (sys_proc s) t (sys_pc s t)"
    by (rule thread_ok_pc [OF sys_okD(4) [OF sys]])
  have own: "is_open (sys_proc s) a" if "a \<in> held_by (sys_proc s) t (sys_pc s t)" for a
    using that exclusive_okD(1) [OF ok, of t] by (simp add: thread_own_def)
  have not_closed: "\<not> is_closed (sys_proc s) a \<and> heap (sys_proc s) a \<noteq> None"
    if "a \<in> held_by (sys_proc s) t (sys_pc s t)" for a
    using own [OF that] by (auto dest: is_closed_not_open simp: is_open_def)
  note content = informed_content [OF sys ok inf, of _ t]
  from assms(4) show ?thesis
  proof (cases rule: app_step_cases)
    case (begin_run cur)
    then have "app_actions tlocal t s s' = []" by (simp add: app_actions_def Let_def)
    with begin_run informed_move [OF inf, of t "GotBuf cur"] show ?thesis by (simp add: held_by_def)
  next
    case (first_buffer a p)
    have "app_actions tlocal t s s' = alloc_actions (buf_manager_of tlocal t) a"
      using first_buffer allocBuffer_effects(4) [OF first_buffer(2)] by (simp add: app_actions_def Let_def)
    moreover have "held_by p t (GotBuf (Some a)) \<subseteq> insert a (held_by (sys_proc s) t (sys_pc s t))"
      using allocBuffer_effects(5) [OF first_buffer(2)] by (simp add: held_by_def ctx_buf_def)
    note informed_alloc [OF sys ok inf first_buffer(2) this]
    ultimately show ?thesis by (simp add: first_buffer(3))
  next
    case (take_ref a b)
    let ?pc = "Logging \<lparr>ref_logBuf = a, ref_buf = a, ref_events = eb_events b,
      ref_nextRdtscTime = eb_nextRdtscTime b\<rparr>"
    have held: "a \<in> held_by (sys_proc s) t (sys_pc s t)"
      using pc take_ref(1) by (simp add: held_by_def)
    have "app_actions tlocal t s s' = content_actions Reads a False"
      using take_ref(1) by (simp add: app_actions_def content_actions_def Let_def)
    moreover have "held_by (sys_proc s) t ?pc \<subseteq> held_by (sys_proc s) t (sys_pc s t)"
      using take_ref(1) by (simp add: held_by_def)
    ultimately show ?thesis
      using content [of a "sys_proc s" False ?pc, OF held] not_closed [OF held] by (simp add: take_ref(3))
  next
    case (load ref cur)
    then have "app_actions tlocal t s s' = []" by (simp add: app_actions_def Let_def)
    with load informed_move [OF inf, of t "Loaded ref cur"] show ?thesis by (simp add: held_by_def)
  next
    case (store ref curBuf w b)
    let ?a = "ref_buf ref" and ?p = "store_buf (ref_buf ref) (b\<lparr>eb_buf := (eb_buf b)(ref_events ref \<mapsto> w)\<rparr>) (sys_proc s)"
    have held: "?a \<in> held_by (sys_proc s) t (sys_pc s t)"
      using pc store(1) by (simp add: held_by_def at_ref_def)
    have "app_actions tlocal t s s' = content_actions Writes ?a False"
      using store(1) by (simp add: app_actions_def content_actions_def Let_def)
    moreover have "held_by (sys_proc s) t (after_store ref curBuf) \<subseteq> held_by (sys_proc s) t (sys_pc s t)"
      using store(1) by (auto simp: held_by_def after_store_def)
    moreover have "\<not> is_closed ?p ?a" using not_closed [OF held] store(2) by (simp add: is_closed_def)
    ultimately show ?thesis
      using content [of ?a ?p False "after_store ref curBuf", OF held] by (simp add: store(5))
  next
    case (reclaimed ref)
    then have "app_actions tlocal t s s' = []" by (simp add: app_actions_def Let_def)
    with reclaimed informed_move [OF inf, of t "NeedBuf ref"] show ?thesis by (simp add: held_by_def)
  next
    case (full ref b won p)
    let ?ref = "ref\<lparr>ref_nextRdtscTime := ref_nextRdtscTime ref + BATCH_SIZE\<rparr>"
    have held: "ref_logBuf ?ref \<in> held_by (sys_proc s) t (sys_pc s t)"
      using pc full(1) by (simp add: held_by_def at_ref_def)
    have "app_actions tlocal t s s' = epoch_actions (buf_manager_of tlocal t) (ref_logBuf ?ref)
        (epoch_won (buf_manager_of tlocal t) (sys_proc s) p) (new_workers (sys_proc s) p)"
      using full(1,2,4) by (simp add: app_actions_def Let_def size_defs)
    moreover have "held_by (sys_proc s) t (NeedBuf ?ref) \<subseteq> held_by (sys_proc s) t (sys_pc s t)"
      using full(1) by (simp add: held_by_def)
    moreover have "no_skip p" using clean full(4) by simp
    ultimately show ?thesis
      using informed_epoch [OF sys ok inf full(3) _ held] by (simp add: full(4))
  next
    case (room ref b)
    then have "app_actions tlocal t s s' = []" by (simp add: app_actions_def Let_def size_defs)
    with room informed_move [OF inf, of t] show ?thesis by (simp add: held_by_def)
  next
    case (new_buffer ref a p)
    have "app_actions tlocal t s s' = alloc_actions (buf_manager_of tlocal t) a"
      using new_buffer allocBuffer_effects(4) [OF new_buffer(2)] by (simp add: app_actions_def Let_def)
    moreover have "held_by p t (GotNext ref a) \<subseteq> insert a (held_by (sys_proc s) t (sys_pc s t))"
      using allocBuffer_effects(5) [OF new_buffer(2)] pc new_buffer(1)
      by (simp add: held_by_def ctx_buf_def at_ref_def)
    note informed_alloc [OF sys ok inf new_buffer(2) this]
    ultimately show ?thesis by (simp add: new_buffer(3))
  next
    case (switch ref a b)
    let ?a = "ref_logBuf ref"
    let ?p = "store_buf ?a (b\<lparr>eb_events := ref_events ref, eb_closed := True\<rparr>) (sys_proc s)"
    have held: "?a \<in> held_by (sys_proc s) t (sys_pc s t)" using switch(1) by (simp add: held_by_def)
    have "app_actions tlocal t s s' = content_actions Writes ?a True"
      using switch(1) by (simp add: app_actions_def content_actions_def Let_def)
    moreover have "held_by (sys_proc s) t (Logging (ref\<lparr>ref_logBuf := a, ref_buf := a, ref_events := 0,
        ref_nextRdtscTime := BATCH_SIZE\<rparr>)) \<subseteq> held_by (sys_proc s) t (sys_pc s t)"
      using switch(1) by (auto simp: held_by_def)
    ultimately show ?thesis
      using content [of ?a ?p True, OF held] by (simp add: switch(4))
  next
    case (end_run ref b)
    let ?a = "ref_logBuf ref"
    let ?p = "store_buf ?a (b\<lparr>eb_events := ref_events ref, eb_nextRdtscTime := ref_nextRdtscTime ref\<rparr>)
      (sys_proc s)"
    have held: "?a \<in> held_by (sys_proc s) t (sys_pc s t)"
      using pc end_run(1) by (simp add: held_by_def at_ref_def)
    have "app_actions tlocal t s s' = content_actions Writes ?a False"
      using end_run(1,3) by (simp add: app_actions_def content_actions_def Let_def)
    moreover have "\<not> is_closed ?p ?a" using not_closed [OF held] end_run(2) by (simp add: is_closed_def)
    ultimately show ?thesis
      using content [of ?a ?p False Idle, OF held] end_run(1) by (simp add: end_run(3) held_by_def)
  next
    case (exit_thread p)
    then have "app_actions tlocal t s s' = exit_actions tlocal t (sys_proc s)"
      by (simp add: app_actions_def Let_def)
    with informed_exit [OF sys ok inf exit_thread(1,2)] show ?thesis by (simp add: exit_thread(3))
  next
    case destroy_manager
    then have "app_actions tlocal t s s' = [Access Destroys (Members t)]"
      by (simp add: app_actions_def Let_def buf_manager_of_def)
    with informed_destroy [OF inf destroy_manager(2)] show ?thesis by (simp add: destroy_manager(5))
  qed
qed

section \<open>Workers\<close>

lemma reads_knowledge:
  assumes "\<forall>a \<in> set as. Content a \<in> known_by K x" and acts: "acts = map (\<lambda>a. Access Reads (Content a)) as"
  shows "orderly_by x acts K" and "l \<notin> Content ` set as \<Longrightarrow> l \<in> known_by K y \<Longrightarrow> l \<in> known_by (learn_by x acts K) y"
    and "l \<notin> Content ` set as \<Longrightarrow> l \<in> left_at K z \<Longrightarrow> l \<in> left_at (learn_by x acts K) z"
    and "known_by K x \<subseteq> known_by (learn_by x acts K) x"
proof -
  show "orderly_by x acts K" using assms(1) unfolding acts by (induction as arbitrary: K) auto
  show "known_by K x \<subseteq> known_by (learn_by x acts K) x" by (rule learn_by_own)
  have "\<forall>a. Access a l \<notin> set acts" if "l \<notin> Content ` set as" using that by (auto simp: acts)
  moreover have "Release z \<notin> set acts" by (auto simp: acts)
  ultimately show "l \<in> known_by K y \<Longrightarrow> l \<in> known_by (learn_by x acts K) y"
    "l \<in> left_at K z \<Longrightarrow> l \<in> left_at (learn_by x acts K) z" if "l \<notin> Content ` set as"
    using that by (auto intro: learn_by_party learn_by_sync)
qed

text \<open>
  What a worker does costs the others at most their knowledge of its own closed buffers and of the
  manager's members, which it leaves at the monitor.
\<close>

lemma informed_worker:
  assumes sys: "sys_ok tlocal s" and ok: "exclusive_ok s" and inf: "informed_ok tlocal s K"
    and k: "k < length (workers (sys_proc s))" and call: "worker_step k (sys_proc s) = Inr p'"
    and busy: "w_phase (workers (sys_proc s) ! k) \<noteq> Finished"
    and lost: "\<And>a. Content a \<in> L \<Longrightarrow> a \<in> set (w_buffers (workers (sys_proc s) ! k)) \<and> is_closed (sys_proc s) a"
      "\<And>a. Assignment a \<notin> L"
    and K: "\<And>l y. l \<notin> L \<Longrightarrow> l \<in> known_by K y \<Longrightarrow> l \<in> known_by K' y"
      "\<And>l z. l \<notin> L \<Longrightarrow> l \<in> left_at K z \<Longrightarrow> l \<in> left_at K' z"
      "\<And>m. Members m \<in> left_at K (Monitor m) \<Longrightarrow> Members m \<in> left_at K' (Monitor m)"
    and free: "\<And>a m. a \<in> set (freeBufs (buf_manager p' m)) \<Longrightarrow>
      a \<in> set (freeBufs (buf_manager (sys_proc s) m)) \<or> Content a \<in> left_at K' (Monitor m)"
    and own: "reads_settled (sys_proc s) K' (WorkerThread k) (w_buffers (workers (sys_proc s) ! k))
      (w_phase (workers p' ! k))"
  shows "informed_ok tlocal (s\<lparr>sys_proc := p'\<rparr>) K'"
proof -
  let ?p = "sys_proc s" and ?as = "w_buffers (workers (sys_proc s) ! k)"
  note eff = worker_step_effects [OF call] and pools = sys_okD(1) [OF sys]
  note know = pools_knownD [OF inf [unfolded informed_ok_def, THEN conjunct1]]
  have closed: "is_closed p' = is_closed ?p" by (simp add: is_closed_def fun_eq_iff eff(1))
  have pool: "pool m p' = pool m ?p" for m by (rule pool_worker_step [OF call k])
  have only: "pl = Working k" if "Content a \<in> L" "at_place ?p a pl" for a pl
    using that lost(1) [of a] k busy by (intro at_place_unique [OF pools, of a "Working k"]) auto
  have "Content a \<in> left_at K' (Monitor m)" if "a \<in> set (freeBufs (buf_manager p' m))" for a m
    using free [OF that] know(3) [of a m] only [of a "Pooled m"] K(2) by auto
  moreover have "Content a \<in> left_at K' (Closed a)"
    if "a \<in> set (allocatedBufs (buf_manager p' m))" "is_closed p' a" for a m
    using that know(4) [of a m] only [of a "Current m"] K(2) by (auto simp: eff(6) closed)
  moreover have "reads_settled p' K' (WorkerThread j) (w_buffers (workers p' ! j)) (w_phase (workers p' ! j))"
    if j: "j < length (workers p')" for j
  proof (cases "j = k")
    case True
    with own show ?thesis
      by (cases "w_phase (workers p' ! k)") (auto simp: closed worker_step_rank(1) [OF call k])
  next
    case False
    have j': "j < length (workers ?p)" using j worker_step_length [OF call] by simp
    have "Content a \<notin> L" if "a \<in> set (w_buffers (workers ?p ! j))" "w_phase (workers ?p ! j) \<noteq> Finished" for a
      using only [of a "Working j"] that j' False by auto
    then show ?thesis
      unfolding worker_step_rank(3) [OF call k False]
      by (intro reads_settled_mono [OF know(5) [OF j']] K) (auto simp: closed)
  qed
  ultimately have "pools_known p' K'"
    using know(1,2) K(2,3) lost(2) unfolding pools_known_def eff(5) pool by blast
  moreover have "absent_known p' K'"
    using inf only [of _ Absent] lost(2) K(1,2)
    unfolding informed_ok_def absent_known_def eff(1) by (metis at_place.simps(1) place.distinct(5))
  moreover have "held_known tlocal (s\<lparr>sys_proc := p'\<rparr>) K'"
    unfolding held_known_def
  proof (intro allI ballI)
    fix t a assume "a \<in> held_by (sys_proc (s\<lparr>sys_proc := p'\<rparr>)) t (sys_pc (s\<lparr>sys_proc := p'\<rparr>) t)"
    then have a: "a \<in> held_by ?p t (sys_pc s t)" using held_by_frame [of p' t ?p] eff(4) by simp
    then have "is_open ?p a" using exclusive_okD(1) [OF ok, of t] by (simp add: thread_own_def)
    then have "Content a \<notin> L" using lost(1) [of a] by (auto dest: is_closed_not_open)
    with a inf show "Content a \<in> known_by K' (AppThread t)
      \<and> a \<in># pool (buf_manager_of tlocal t) (sys_proc (s\<lparr>sys_proc := p'\<rparr>))"
      by (auto simp: informed_ok_def held_known_def pool intro: K(1))
  qed
  ultimately show ?thesis by (simp add: informed_ok_def)
qed

lemma informed_worker_step:
  assumes sys: "sys_ok tlocal s" and ok: "exclusive_ok s" and inf: "informed_ok tlocal s K"
    and k: "k < length (workers (sys_proc s))" and call: "worker_step k (sys_proc s) = Inr p'"
  shows "orderly_by (WorkerThread k) (worker_actions k (sys_proc s)) K
    \<and> informed_ok tlocal (s\<lparr>sys_proc := p'\<rparr>) (learn_by (WorkerThread k) (worker_actions k (sys_proc s)) K)"
proof -
  let ?p = "sys_proc s" and ?w = "workers (sys_proc s) ! k"
  let ?x = "WorkerThread k" and ?as = "w_buffers (workers (sys_proc s) ! k)"
  note know = pools_knownD [OF inf [unfolded informed_ok_def, THEN conjunct1]]
  note mine = know(5) [OF k] and go = informed_worker [OF sys ok inf k call]
  have waited: "worker_waited ?p ?w" using exclusive_okD(3) [OF ok] k by (simp add: closed_ok_def)
  consider (finished) "w_phase ?w = Finished"
    | (spin) i where "w_phase ?w = Waiting i" "i < length ?as" "\<not> is_closed ?p (?as ! i)"
    | (advance) i where "w_phase ?w = Waiting i" "i < length ?as" "is_closed ?p (?as ! i)"
    | (count) i where "w_phase ?w = Waiting i" "length ?as \<le> i"
    | (give_back) "w_phase ?w = Releasing"
    by (cases "w_phase ?w") (auto simp: not_less [symmetric])
  then show ?thesis
  proof cases
    case finished
    with call have "p' = ?p" by (simp add: worker_step_def)
    with finished inf show ?thesis by (simp add: worker_actions_def)
  next
    case spin
    with call have "p' = ?p"
      by (auto simp: worker_step_def and_then_Inr_iff load_buf_Inr_iff is_closed_def split: if_splits)
    with spin inf show ?thesis by (simp add: worker_actions_def Let_def)
  next
    case (advance i)
    then have acts: "worker_actions k ?p = [Acquire (Closed (?as ! i))]"
      by (simp add: worker_actions_def Let_def)
    from advance call have p': "p' = set_worker k (Waiting (Suc i)) ?p"
      by (auto simp: worker_step_def Let_def and_then_Inr_iff load_buf_Inr_iff is_closed_def)
    show ?thesis
      unfolding acts
    proof (intro conjI go [where L = "{}"])
      show "reads_settled ?p (learn_by ?x [Acquire (Closed (?as ! i))] K) ?x ?as (w_phase (workers p' ! k))"
        using mine advance k by (auto simp: p' set_worker_def less_Suc_eq)
    qed (use advance in \<open>auto simp: p' set_worker_def\<close>)
  next
    case (count i)
    let ?acts = "map (\<lambda>a. Access Reads (Content a)) ?as"
    from count have acts: "worker_actions k ?p = ?acts" by (simp add: worker_actions_def Let_def)
    from count call obtain n where p': "p' = set_worker k Releasing (?p\<lparr>printed := printed ?p @ [WorkerProcessed n]\<rparr>)"
      by (auto simp: worker_step_def Let_def and_then_Inr_iff)
    from mine count have known: "\<forall>a \<in> set ?as. Content a \<in> known_by K ?x"
      by (auto simp: in_set_conv_nth)
    note reads = reads_knowledge [OF known refl]
    show ?thesis
      unfolding acts
    proof (intro conjI go [where L = "Content ` set ?as"])
      show "orderly_by ?x ?acts K" by (rule reads(1))
      show "reads_settled ?p (learn_by ?x ?acts K) ?x ?as (w_phase (workers p' ! k))"
        using known reads(4) k by (auto simp: p' set_worker_def)
      show "Members m \<in> left_at K (Monitor m) \<Longrightarrow> Members m \<in> left_at (learn_by ?x ?acts K) (Monitor m)" for m
        by (rule reads(3)) auto
    qed (use count waited reads(2,3) in \<open>auto simp: p' set_worker_def worker_waited_def in_set_conv_nth\<close>)
  next
    case give_back
    let ?m = "w_manager ?w"
    from give_back call obtain p1 where rel: "release ?m ?as ?p = Inr p1" and p': "p' = set_worker k Finished p1"
      by (auto simp: worker_step_def Let_def and_then_Inr_iff)
    note p1 = release_effects(2) [OF rel]
    have acts: "worker_actions k ?p = release_actions ?m"
      using give_back by (simp add: worker_actions_def Let_def)
    have mem: "Members ?m \<in> left_at K (Monitor ?m)" by (rule know(1) [OF release_effects(1) [OF rel]])
    show ?thesis
      unfolding acts
    proof (intro conjI go [where L = "{Members ?m}"])
      show "orderly_by ?x (release_actions ?m) K" using mem by (simp add: release_actions_def)
      show "reads_settled ?p (learn_by ?x (release_actions ?m) K) ?x ?as (w_phase (workers p' ! k))"
        using k by (simp add: p' p1 set_worker_def)
    qed (use give_back mine mem in \<open>auto simp: release_actions_def p' p1 set_worker_def split: if_splits\<close>)
  qed
qed

section \<open>Everybody is informed\<close>

lemma traced_run_informed:
  "traced_run tlocal s tr \<Longrightarrow> no_skip (sys_proc s) \<Longrightarrow> orderly tr \<and> informed_ok tlocal s (knowledge_of tr)"
proof (induction rule: traced_run.induct)
  case start
  show ?case by (simp add: informed_ok_init knowledge_of_def)
next
  case (app s tr t s')
  from app.hyps(2) have "sys_step tlocal s (Inr s')" by (rule sys_step.app)
  with app.prems have clean: "no_skip (sys_proc s)" by (blast intro: no_skip_step)
  from app.hyps(1) have reach: "reachable tlocal s" by (rule traced_run_reachable)
  from informed_app_step [OF reachable_ok [OF reach] reachable_exclusive [OF reach clean] _ app.hyps(2) app.prems]
    app.IH [OF clean] show ?case by (simp add: orderly_append knowledge_of_append)
next
  case (worker s tr k p)
  from sys_step.worker [OF worker.hyps(2), of tlocal] worker.hyps(3)
  have "sys_step tlocal s (Inr (s\<lparr>sys_proc := p\<rparr>))" by simp
  with worker.prems have clean: "no_skip (sys_proc s)" by (blast intro: no_skip_step)
  from worker.hyps(1) have reach: "reachable tlocal s" by (rule traced_run_reachable)
  from informed_worker_step [OF reachable_ok [OF reach] reachable_exclusive [OF reach clean] _ worker.hyps(2,3)]
    worker.IH [OF clean] show ?case by (simp add: orderly_append knowledge_of_append)
qed

lemma traced_first_buffer:
  assumes run: "traced_run tlocal s tr" and idle: "sys_pc s t = Idle"
    and no_buf: "log_buffer (sys_proc s) t = None"
  obtains a p where "allocBuffer (buf_manager_of tlocal t) t (sys_proc s) = Inr (a, p)"
    "traced_run tlocal (goto t (GotBuf (Some a)) p s)
      (tr @ map (Pair (AppThread t)) (alloc_actions (buf_manager_of tlocal t) a))"
proof -
  let ?s = "goto t (GotBuf None) (sys_proc s) s"
  have "app_step tlocal t s (Inr ?s)"
    using app_step.begin_run [OF idle, of None] no_buf by (simp add: may_load_def getLogBuffer_def)
  from traced_run.app [OF run this] idle have run': "traced_run tlocal ?s tr"
    by (simp add: app_actions_def Let_def)
  from start_reachable [OF traced_run_reachable [OF run] idle no_buf] obtain a p where
    call: "allocBuffer (buf_manager_of tlocal t) t (sys_proc s) = Inr (a, p)" by blast
  have "app_step tlocal t ?s (Inr (goto t (GotBuf (Some a)) p ?s))"
    using app_step.first_buffer [of ?s t tlocal] call by simp
  from traced_run.app [OF run' this] show ?thesis
    using allocBuffer_effects(4) [OF call]
    by (intro that [OF call]) (simp add: app_actions_def Let_def goto_def)
qed

section \<open>What cannot be in a trace\<close>

text \<open>Nobody starts an application thread.\<close>

lemma app_actions_starts: "Start (AppThread u) \<notin> set (app_actions tlocal t s s')"
  by (auto simp: app_actions_def alloc_actions_def epoch_actions_def exit_actions_def new_workers_def Let_def
      split: app_pc.splits option.splits)

lemma worker_actions_starts: "Start (AppThread u) \<notin> set (worker_actions k p)"
  by (auto simp: worker_actions_def release_actions_def Let_def split: worker_phase.splits)

lemma traced_run_starts: "traced_run tlocal s tr \<Longrightarrow> Start (AppThread u) \<notin> snd ` set tr"
proof (induction rule: traced_run.induct)
  case (app s tr t s')
  then show ?case using app_actions_starts [of u tlocal t s s'] by auto
next
  case (worker s tr k p)
  then show ?case using worker_actions_starts [of u k "sys_proc s"] by auto
qed simp

text \<open>
  Only threads destroy managers, and only their own; they and workers that release are the parties that
  access a thread-local manager.
\<close>

fun member_access_ok :: "bool \<Rightarrow> party \<Rightarrow> action \<Rightarrow> bool" where
  "member_access_ok tlocal x (Access a (Members m)) \<longleftrightarrow>
     (a = Destroys \<longrightarrow> tlocal) \<and> (tlocal \<longrightarrow> x = AppThread m \<or> (\<exists>k. x = WorkerThread k) \<and> a = Writes)"
| "member_access_ok tlocal x (Access a l) \<longleftrightarrow> a \<noteq> Destroys"
| "member_access_ok tlocal x _ \<longleftrightarrow> True"

lemma app_actions_members:
  assumes "app_step tlocal t s (Inr s')"
  shows "\<forall>act \<in> set (app_actions tlocal t s s'). member_access_ok tlocal (AppThread t) act"
proof (cases "sys_pc s t = Exited")
  case True
  with assms have "tlocal" by (cases rule: app_step_cases) auto
  with True show ?thesis by (simp add: app_actions_def Let_def buf_manager_of_def)
next
  case False
  then show ?thesis
    by (auto simp: app_actions_def alloc_actions_def epoch_actions_def exit_actions_def new_workers_def Let_def
        buf_manager_of_def split: app_pc.splits option.splits)
qed

lemma worker_actions_members: "\<forall>act \<in> set (worker_actions k p). member_access_ok tlocal (WorkerThread k) act"
  by (auto simp: worker_actions_def release_actions_def Let_def split: worker_phase.splits)

lemma traced_run_members:
  "traced_run tlocal s tr \<Longrightarrow> (x, act) \<in> set tr \<Longrightarrow> member_access_ok tlocal x act"
proof (induction rule: traced_run.induct)
  case (app s tr t s')
  then show ?case using app_actions_members [OF app.hyps(2)] by auto
next
  case (worker s tr k p)
  then show ?case using worker_actions_members [of k "sys_proc s" tlocal] by auto
qed simp

section \<open>The theorem\<close>

text \<open>
  C4: In every execution in which no epoch is skipped, any two accesses of a manager's members, of a
  buffer's events or counters, or of its owner and epoch, not both reads, are ordered by happens-before,
  with one exception: the destructor of a thread-local manager is not ordered after what a worker of the
  manager writes to its members when it gives its buffers back. With a shared manager there is no data
  race at all.
\<close>

theorem data_race_free:
  assumes "traced_run tlocal s tr" and "no_skip (sys_proc s)"
  shows "\<forall>i j. race tr i j \<longrightarrow> tlocal \<and> (\<exists>t k. tr ! i = (WorkerThread k, Access Writes (Members t))
    \<and> tr ! j = (AppThread t, Access Destroys (Members t)))"
proof (intro allI impI)
  fix i j assume race: "race tr i j"
  with orderly_races traced_run_informed [OF assms] have destroys: "\<exists>l. snd (tr ! j) = Access Destroys l" by blast
  from race show "tlocal \<and> (\<exists>t k. tr ! i = (WorkerThread k, Access Writes (Members t))
    \<and> tr ! j = (AppThread t, Access Destroys (Members t)))"
  proof (rule raceE)
    fix x a y b l
    assume tr: "i < j" "j < length tr" "tr ! i = (x, Access a l)" "tr ! j = (y, Access b l)" "x \<noteq> y"
    then have "(x, Access a l) \<in> set tr" "(y, Access b l) \<in> set tr"
      using nth_mem [of i tr] nth_mem [of j tr] by simp_all
    note ok = this [THEN traced_run_members [OF assms(1)]]
    with destroys tr(3-5) show ?thesis by (cases l) auto
  qed
qed

text \<open>Two threads that share a manager.\<close>

theorem data_race_free_witness:
  "\<exists>s tr. traced_run False s tr \<and> no_skip (sys_proc s) \<and> (AppThread 0, Access Writes (Members 0)) \<in> set tr
     \<and> (AppThread 1, Access Writes (Members 0)) \<in> set tr \<and> race_free tr"
proof -
  from traced_first_buffer [OF traced_run.start, of 0 False] obtain a p where
    one: "allocBuffer 0 0 init_process = Inr (a, p)"
      "traced_run False (goto 0 (GotBuf (Some a)) p init_system)
        (map (Pair (AppThread 0)) (alloc_actions 0 a))"
    by (auto simp: init_system_def init_process_def buf_manager_of_def)
  let ?s = "goto 0 (GotBuf (Some a)) p init_system"
  have start: "sys_pc ?s 1 = Idle" "log_buffer (sys_proc ?s) 1 = None"
    using allocBuffer_effects(4) [OF one(1)] by (simp_all add: init_system_def init_process_def)
  from traced_first_buffer [OF one(2) start] obtain c q where
    two: "allocBuffer 0 1 p = Inr (c, q)"
      "traced_run False (goto 1 (GotBuf (Some c)) q ?s)
        (map (Pair (AppThread 0)) (alloc_actions 0 a) @ map (Pair (AppThread 1)) (alloc_actions 0 c))"
    by (auto simp: buf_manager_of_def)
  have "workers q = []"
    using allocBuffer_effects(8) [OF one(1)] allocBuffer_effects(8) [OF two(1)]
    by (simp add: init_process_def)
  with skip_needs_workers [OF traced_run_reachable [OF two(2)]]
  have "no_skip (sys_proc (goto 1 (GotBuf (Some c)) q ?s))" by simp
  with data_race_free [OF two(2) this] two(2) show ?thesis
    by (intro exI conjI) (assumption | simp add: alloc_actions_def race_free_def)+
qed

end
