(* ===== verification/SkippedRaces.thy ===== *)
theory SkippedRaces
  imports DataRaces Guarantees
begin

text \<open>
  Where the absence of data races with a shared manager ends: once an epoch has been skipped, the pool
  contains buffers that are in use, and two threads race for one.
\<close>

section \<open>A skipped epoch\<close>

text \<open>
  A thread that starts just before the epoch is skipped: the coordinator gets the buffer to which that
  thread still has a reference.
\<close>

lemma skip_hands_out_used_buffer:
  obtains s ref c p where "reachable False s" "sys_pc s 0 = NeedBuf ref"
    "allocBuffer 0 0 (sys_proc s) = Inr (c, p)" "log_buffer (sys_proc s) 1 = None"
    "sys_pc s 1 = Logging \<lparr>ref_logBuf = c, ref_buf = c, ref_events = 0, ref_nextRdtscTime = BATCH_SIZE\<rparr>"
    "\<not> no_skip (sys_proc s)" "c \<in> set (freeBufs (buf_manager (sys_proc s) 0))"
proof -
  obtain s1 a where s1: "reachable False s1" "on_fresh_buffer s1 0 a"
    and mgr: "mgr_of False 0 (sys_proc s1) = \<lparr>activeWorkers = 32, bm_epoch = 32,
      allocatedBufs = [a], freeBufs = [], tlsBufAddrs = {0}\<rparr>"
    and idle: "sys_pc s1 1 = Idle"
    using epochs_reachable [of 32 False] by auto
  have "log_buffer (sys_proc s1) 1 = None"
    using sys_okD(4) [OF reachable_ok [OF s1(1)], of 1] mgr idle
    by (cases "log_buffer (sys_proc s1) 1") (auto simp: thread_ok_def buf_manager_of_def)
  from start_reachable [OF s1(1) idle this] obtain c p s2 where
    call: "allocBuffer (buf_manager_of False 1) 1 (sys_proc s1) = Inr (c, p)"
    and s2: "reachable False s2" "on_fresh_buffer s2 1 c" "sys_proc s2 = p"
      "\<And>u. u \<noteq> 1 \<Longrightarrow> sys_pc s2 u = sys_pc s1 u" "app_run False 1 s1 s2" by blast
  have m0: "buf_manager_of False t = 0" for t by (simp add: buf_manager_of_def)
  note eff = allocBuffer_effects [OF call, unfolded m0]
  have mgr2: "buf_manager (sys_proc s2) 0 = \<lparr>activeWorkers = 32, bm_epoch = 32,
      allocatedBufs = [a, c], freeBufs = [], tlsBufAddrs = {0, 1}\<rparr>"
    using eff(6) mgr by (auto simp: s2(3) m0)
  have fresh: "on_fresh_buffer s2 0 a"
    using s1(2) s2(4) [of 0] eff(4) by (simp add: on_fresh_buffer_def s2(3))
  have epoch: "bm_epoch (mgr_of False 0 (sys_proc s2)) < INT_MAX" by (simp add: m0 mgr2)
  from fill_reachable [OF s2(1) fresh epoch] obtain b b' ref where
    full: "full_buffer 0 0 a ref (store_buf a b' (sys_proc s2))"
    and filled: "reachable False (goto 0 (Logging ref) (store_buf a b' (sys_proc s2)) s2)"
    unfolding m0 .
  let ?s3 = "goto 0 (Logging ref) (store_buf a b' (sys_proc s2)) s2"
  have "sys_pc ?s3 0 = Logging ref" "full_buffer (buf_manager_of False 0) 0 a ref (sys_proc ?s3)"
    using full by (simp_all add: m0)
  from full_buffer_run [OF this] obtain b3 p4 ref4 where
    run: "app_run False 0 ?s3 (goto 0 (NeedBuf ref4) p4 ?s3)"
    and inc: "tryIncEpoch (buf_manager_of False 0) ref4 (store_buf a b3 (sys_proc ?s3)) = Inr (True, p4)" .
  from inc have won: "tryIncEpoch 0 ref4 (store_buf a b3 (sys_proc s2)) = Inr (True, p4)"
    by (simp add: m0)
  let ?s4 = "goto 0 (NeedBuf ref4) p4 s2"
  have reach: "reachable False ?s4" using app_run_reachable [OF run filled] by simp
  have "\<not> activeWorkers (buf_manager (store_buf a b3 (sys_proc s2)) 0) < MAX_WORKERS"
    by (simp add: mgr2 MAX_WORKERS_def)
  note inc = tryIncEpoch_effects(1,4,5) [OF won] tryIncEpoch_effects(7) [OF won this]
  have skip: "\<not> no_skip p4"
    using tryIncEpoch_effects(7) [OF won \<open>\<not> activeWorkers _ < MAX_WORKERS\<close>] by (auto simp: no_skip_def)
  have free: "freeBufs (buf_manager p4 0) = [a, c]" and none: "log_buffer p4 0 = None" "log_buffer p4 1 = None"
    using inc(3,4) by (simp_all add: mgr2)
  have "mgr_alive p4 0" and heap: "heap p4 c \<noteq> None"
    using inc(1,2) eff(1,3,7) by (auto simp: s2(3))
  with none free obtain c' p5 where alloc: "allocBuffer 0 0 p4 = Inr (c', p5)"
    using allocBuffer_ok [of p4 0 0] by auto
  then have "c' = c" using allocBuffer_effects(10) [OF alloc] free by simp
  with reach alloc none(2) s2(2) skip free show ?thesis
    by (intro that [of ?s4]) (auto simp: on_fresh_buffer_def)
qed

text \<open>
  C17: Once an epoch has been skipped there can be a data race: with a shared manager, an execution
  reaches a state in which thread 0 is at its call of \<open>allocBuffer\<close> and thread 1 still has a reference
  to a buffer in the pool; \<open>allocBuffer\<close> resets this buffer and hands it to thread 0; then thread 1
  stores its next event there. The store and the reset are not ordered by happens-before.
\<close>

theorem skipped_epoch_races:
  "\<exists>s tr ref ref1 p s'. traced_run False s tr \<and> \<not> no_skip (sys_proc s)
     \<and> sys_pc s 0 = NeedBuf ref \<and> sys_pc s 1 = Logging ref1
     \<and> ref_buf ref1 \<in> set (freeBufs (buf_manager (sys_proc s) 0))
     \<and> allocBuffer 0 0 (sys_proc s) = Inr (ref_buf ref1, p)
     \<and> app_step False 0 s (Inr (goto 0 (GotNext ref (ref_buf ref1)) p s))
     \<and> app_run False 1 (goto 0 (GotNext ref (ref_buf ref1)) p s) s'
     \<and> (let tr' = tr @ map (Pair (AppThread 0)) (alloc_actions 0 (ref_buf ref1))
                   @ [(AppThread 1, Access Writes (Content (ref_buf ref1)))]
        in traced_run False s' tr'
           \<and> tr' ! (length tr + 2) = (AppThread 0, Access Writes (Content (ref_buf ref1)))
           \<and> race tr' (length tr + 2) (length tr + 8))"
proof -
  obtain s ref c p where s: "reachable False s" "sys_pc s 0 = NeedBuf ref"
    "allocBuffer 0 0 (sys_proc s) = Inr (c, p)" "log_buffer (sys_proc s) 1 = None"
    "sys_pc s 1 = Logging \<lparr>ref_logBuf = c, ref_buf = c, ref_events = 0, ref_nextRdtscTime = BATCH_SIZE\<rparr>"
    "\<not> no_skip (sys_proc s)" "c \<in> set (freeBufs (buf_manager (sys_proc s) 0))"
    by (rule skip_hands_out_used_buffer)
  let ?ref = "\<lparr>ref_logBuf = c, ref_buf = c, ref_events = 0, ref_nextRdtscTime = BATCH_SIZE\<rparr>"
  note eff = allocBuffer_effects [OF s(3)]
  from reachable_traced [OF s(1)] obtain tr where tr: "traced_run False s tr" by blast
  let ?s1 = "goto 0 (GotNext ref c) p s"
  let ?es = "map (Pair (AppThread 0)) (alloc_actions 0 c)"
  have alloc: "app_step False 0 s (Inr ?s1)"
    using app_step.new_buffer [OF s(2), of False] s(3) by (simp add: buf_manager_of_def)
  from traced_run.app [OF tr this] have tr1: "traced_run False ?s1 (tr @ ?es)"
    using eff(4) s(2) by (simp add: app_actions_def Let_def buf_manager_of_def)
  let ?s2 = "goto 1 (Loaded ?ref None) p ?s1"
  have load: "app_step False 1 ?s1 (Inr ?s2)"
    using app_step.load [of ?s1 1 ?ref None False] s(4,5) eff(4) by (simp add: may_load_def getLogBuffer_def)
  from traced_run.app [OF tr1 this] have tr2: "traced_run False ?s2 (tr @ ?es)"
    using s(5) by (simp add: app_actions_def Let_def)
  from eff(3) obtain b where b: "heap p c = Some b" by auto
  let ?p = "store_buf c (b\<lparr>eb_buf := (eb_buf b)(0 \<mapsto> encode_src_loc 0 0 0)\<rparr>) p"
  let ?s3 = "goto 1 (Slow ?ref None) ?p ?s2" and ?tr = "tr @ ?es @ [(AppThread 1, Access Writes (Content c))]"
  have store: "app_step False 1 ?s2 (Inr ?s3)"
    using app_step.store [of ?s2 1 ?ref None False 0 0 0] b
    by (simp add: write_slot_def load_buf_def size_defs)
  from traced_run.app [OF tr2 this] have run: "traced_run False ?s3 ?tr"
    by (simp add: app_actions_def Let_def)
  have "race ?tr (length tr + 2) (length (tr @ ?es))"
    by (rule race_next_access [OF traced_run_starts [OF tr1]]) (auto simp: alloc_actions_def)
  moreover have "?tr ! (length tr + 2) = (AppThread 0, Access Writes (Content c))" "length (tr @ ?es) = length tr + 8"
    by (simp_all add: alloc_actions_def nth_append)
  moreover have "app_run False 1 ?s1 ?s3"
    using load store unfolding app_run_def by (meson converse_rtranclp_into_rtranclp r_into_rtranclp)
  ultimately show ?thesis
    unfolding Let_def using tr s(2,3,5-7) alloc run
    by (intro exI [of _ s] exI [of _ tr] exI [of _ ref] exI [of _ ?ref] exI [of _ p] exI [of _ ?s3]) simp
qed

end
