(* ===== verification/ManagerEnd.thy ===== *)
theory ManagerEnd
  imports DataRaces Guarantees
begin

text \<open>
  The end of a thread-local manager: its destructor waits for no worker, so that a worker's call of
  \<open>release\<close> can come before or after it, and is unordered with it either way.
\<close>

text \<open>A worker at its call of \<open>release\<close>: it cannot fail while the manager lives.\<close>

lemma release_succeeds:
  assumes sys: "sys_ok tlocal s" and k: "k < length (workers (sys_proc s))"
    and w: "workers (sys_proc s) ! k = \<lparr>w_manager = m, w_buffers = as, w_phase = Releasing\<rparr>"
    and alive: "mgr_alive (sys_proc s) m"
  obtains p where "worker_step k (sys_proc s) = Inr p" "mgr_alive p = mgr_alive (sys_proc s)"
    "thr_context p = thr_context (sys_proc s)"
proof -
  note mgr = managers_okD [OF sys_okD(2) [OF sys], of m]
  have "\<exists>n. int_add (activeWorkers (buf_manager (sys_proc s) m)) (-1) = Inr n"
    using mgr by (simp add: int_add_def MAX_WORKERS_def active_def)
  then obtain p where "worker_step k (sys_proc s) = Inr p"
    using w alive by (auto simp: worker_step_def release_def)
  with worker_step_effects [OF this] show ?thesis by (intro that)
qed

text \<open>
  C19: with a manager per thread, as \<open>Context.h\<close> declares it, the destructor of the manager of a thread
  whose context is destroyed and the call of \<open>release\<close> by a worker that is about to make it are in no
  order: if the manager is destroyed first, the worker's call of \<open>release\<close> is a use after free; if the
  worker is first, what it wrote to the members races with the destructor.
\<close>

theorem manager_end_unordered:
  assumes "traced_run True s tr" and "sys_pc s t = Exited" and "thr_context (sys_proc s) t \<noteq> None"
    and "mgr_alive (sys_proc s) t" and "k < length (workers (sys_proc s))"
    and "workers (sys_proc s) ! k = \<lparr>w_manager = t, w_buffers = as, w_phase = Releasing\<rparr>"
  shows "(\<exists>s'. app_step True t s (Inr s') \<and> \<not> mgr_alive (sys_proc s') t
      \<and> worker_step k (sys_proc s') = Inl UseAfterFree)
    \<and> (\<exists>p s'. worker_step k (sys_proc s) = Inr p \<and> app_step True t (s\<lparr>sys_proc := p\<rparr>) (Inr s')
      \<and> (let tr' = tr @ map (Pair (WorkerThread k)) (release_actions t)
                    @ [(AppThread t, Access Destroys (Members t))]
         in traced_run True s' tr' \<and> tr' ! (length tr + 1) = (WorkerThread k, Access Writes (Members t))
            \<and> race tr' (length tr + 1) (length tr + 3)))"
proof (rule conjI)
  show "\<exists>s'. app_step True t s (Inr s') \<and> \<not> mgr_alive (sys_proc s') t
      \<and> worker_step k (sys_proc s') = Inl UseAfterFree"
    using destroyed_manager_released [OF assms(2-4,6)] by (intro exI conjI) auto
next
  let ?rel = "map (Pair (WorkerThread k)) (release_actions t)"
  let ?tr = "tr @ ?rel @ [(AppThread t, Access Destroys (Members t))]"
  obtain p where p: "worker_step k (sys_proc s) = Inr p" "mgr_alive p = mgr_alive (sys_proc s)"
    "thr_context p = thr_context (sys_proc s)"
    using release_succeeds [OF reachable_ok [OF traced_run_reachable [OF assms(1)]] assms(5,6,4)] by metis
  let ?s = "s\<lparr>sys_proc := p\<rparr>"
  from traced_run.worker [OF assms(1,5) p(1)] assms(6) have run: "traced_run True ?s (tr @ ?rel)"
    by (simp add: worker_actions_def)
  have step: "app_step True t ?s (Inr (goto t Exited (BufferManager_dtor t p) ?s))"
    using app_step.destroy_manager [of True ?s t] assms(2-4) p(2,3) by (simp add: buf_manager_of_def)
  from traced_run.app [OF run this] assms(2) have run': "traced_run True (goto t Exited (BufferManager_dtor t p) ?s) ?tr"
    by (simp add: app_actions_def Let_def buf_manager_of_def)
  have "race ?tr (length tr + 1) (length (tr @ ?rel))"
    by (rule race_next_access [OF traced_run_starts [OF run]]) (auto simp: release_actions_def)
  then have race: "race ?tr (length tr + 1) (length tr + 3)"
    by (simp add: release_actions_def numeral_3_eq_3)
  show "\<exists>p s'. worker_step k (sys_proc s) = Inr p \<and> app_step True t (s\<lparr>sys_proc := p\<rparr>) (Inr s')
      \<and> (let tr' = ?tr in traced_run True s' tr' \<and> tr' ! (length tr + 1) = (WorkerThread k, Access Writes (Members t))
            \<and> race tr' (length tr + 1) (length tr + 3))"
    unfolding Let_def
    using p(1) step run' race by (intro exI conjI) (assumption | simp add: release_actions_def nth_append)+
qed

text \<open>A thread that fills one buffer and ends.\<close>

theorem manager_end_unordered_witness:
  "\<exists>s s'. reachable True s \<and> no_skip (sys_proc s) \<and> length (workers (sys_proc s)) = 1
     \<and> app_step True 0 s (Inr s') \<and> worker_step 0 (sys_proc s') = Inl UseAfterFree
     \<and> (\<exists>s1 tr1 i j. traced_run True s1 tr1 \<and> race tr1 i j)"
proof -
  obtain s where s: "reachable True s" "no_skip (sys_proc s)" "sys_pc s 0 = Exited"
    "thr_context (sys_proc s) 0 \<noteq> None" "mgr_alive (sys_proc s) 0"
    "workers (sys_proc s) = [\<lparr>w_manager = 0, w_buffers = [0], w_phase = Releasing\<rparr>]"
    using exit_before_release by blast
  from reachable_traced [OF s(1)] obtain tr where tr: "traced_run True s tr" by blast
  have "0 < length (workers (sys_proc s))"
    "workers (sys_proc s) ! 0 = \<lparr>w_manager = 0, w_buffers = [0], w_phase = Releasing\<rparr>"
    by (simp_all add: s(6))
  from manager_end_unordered [OF tr s(3-5) this] obtain s' where
    "app_step True 0 s (Inr s')" "worker_step 0 (sys_proc s') = Inl UseAfterFree"
    and "\<exists>s1 tr1 i j. traced_run True s1 tr1 \<and> race tr1 i j"
    unfolding Let_def by blast
  then show ?thesis using s(1,2,6) by (intro exI [of _ s] exI [of _ s']) simp
qed

end
