(* ===== verification/WellTyped.thy ===== *)
theory WellTyped
  imports Executions
begin

text \<open>
  Every value in a reachable state is one that its C++ type can hold, and every slot of a buffer that
  was ever written holds an event: the invariant that stands for the type checking of the code. It
  does not depend on which epochs were skipped.
\<close>

section \<open>Values of their types\<close>

definition in_int :: "int \<Rightarrow> bool" where
  "in_int x \<longleftrightarrow> INT_MIN \<le> x \<and> x \<le> INT_MAX"

lemma in_int_small [simp]: "in_int 0" "in_int (-1)" "in_int BATCH_SIZE"
  by (simp_all add: in_int_def size_defs)

definition buf_typed :: "EventBuffer \<Rightarrow> bool" where
  "buf_typed b \<longleftrightarrow> in_int (eb_events b) \<and> in_int (eb_nextRdtscTime b) \<and> in_int (eb_threadId b)
     \<and> in_int (eb_epoch b)
     \<and> (\<forall>i w. eb_buf b i = Some w \<longrightarrow> 0 \<le> i \<and> i < BUF_LEN \<and> hdr_field w = 0xF)"

definition ref_typed :: "process \<Rightarrow> Ref \<Rightarrow> bool" where
  "ref_typed p ref \<longleftrightarrow> in_int (ref_events ref) \<and> in_int (ref_nextRdtscTime ref)
     \<and> heap p (ref_buf ref) \<noteq> None \<and> heap p (ref_logBuf ref) \<noteq> None"

definition mgr_typed :: "process \<Rightarrow> BufferManager \<Rightarrow> bool" where
  "mgr_typed p m \<longleftrightarrow> in_int (activeWorkers m) \<and> in_int (bm_epoch m)
     \<and> (\<forall>a \<in> set (allocatedBufs m) \<union> set (freeBufs m). heap p a \<noteq> None)"

definition ctx_typed :: "Context \<Rightarrow> bool" where
  "ctx_typed c \<longleftrightarrow> in_int (ctx_threadId c)"

definition well_typed :: "system \<Rightarrow> bool" where
  "well_typed s \<longleftrightarrow> (\<forall>a b. heap (sys_proc s) a = Some b \<longrightarrow> buf_typed b)
     \<and> (\<forall>t c. thr_context (sys_proc s) t = Some c \<longrightarrow> ctx_typed c)
     \<and> (\<forall>m. mgr_typed (sys_proc s) (buf_manager (sys_proc s) m))
     \<and> (\<forall>t ref. current_ref (sys_pc s t) = Some ref \<longrightarrow> ref_typed (sys_proc s) ref)"

text \<open>The parts that do not follow from the other invariants.\<close>

definition values_ok :: "system \<Rightarrow> bool" where
  "values_ok s \<longleftrightarrow> (\<forall>a b. heap (sys_proc s) a = Some b \<longrightarrow> buf_typed b)
     \<and> (\<forall>t c. thr_context (sys_proc s) t = Some c \<longrightarrow> ctx_typed c)
     \<and> (\<forall>t ref. current_ref (sys_pc s t) = Some ref \<longrightarrow>
          in_int (ref_events ref) \<and> in_int (ref_nextRdtscTime ref))"

lemma values_okD:
  assumes "values_ok s"
  shows "heap (sys_proc s) a = Some b \<Longrightarrow> buf_typed b"
    and "thr_context (sys_proc s) t = Some c \<Longrightarrow> ctx_typed c"
    and "current_ref (sys_pc s t) = Some ref \<Longrightarrow> in_int (ref_events ref) \<and> in_int (ref_nextRdtscTime ref)"
  using assms unfolding values_ok_def by blast+

lemma values_ok_goto:
  assumes "values_ok s" and "\<And>a b. heap p a = Some b \<Longrightarrow> heap (sys_proc s) a = Some b \<or> buf_typed b"
    and "\<And>u c. thr_context p u = Some c \<Longrightarrow> thr_context (sys_proc s) u = Some c \<or> ctx_typed c"
    and "\<And>ref. current_ref pc = Some ref \<Longrightarrow> in_int (ref_events ref) \<and> in_int (ref_nextRdtscTime ref)"
  shows "values_ok (goto t pc p s)"
  unfolding values_ok_def using values_okD [OF assms(1)] assms(2-4) by (auto split: if_splits) blast+

lemma tls_context_typed:
  assumes "\<And>c. thr_context p t = Some c \<Longrightarrow> ctx_typed c"
  shows "ctx_typed (fst (tls_context t p))"
proof (cases "thr_context p t")
  case None
  have "in_int (sint (x :: u32))" for x
    using sint_range_size [of x] by (simp add: in_int_def word_size)
  with None show ?thesis by (simp add: tls_context_def Let_def ctx_typed_def)
next
  case (Some c)
  with assms show ?thesis by (simp add: tls_context_def)
qed

text \<open>\<open>reset\<close> leaves the events of a buffer's last use where they are.\<close>

lemma allocBuffer_slots:
  assumes "allocBuffer m t p = Inr (a, p')" and "heap p' a = Some b'"
  shows "eb_buf b' = (\<lambda>_. None) \<or> (\<exists>b. heap p a = Some b \<and> eb_buf b' = eb_buf b)"
  using assms
  by (auto simp: allocBuffer_def and_then_Inr_iff Let_def case_prod_beta modify_buf_def load_buf_Inr_iff
      tls_context_def elim!: take_buffer_cases split: option.splits)

section \<open>Every step keeps the types\<close>

lemma values_allocBuffer:
  assumes ok: "values_ok s" and sys: "sys_ok tlocal s" and call: "allocBuffer m t (sys_proc s) = Inr (a, p)"
    and pc: "current_ref pc = current_ref (sys_pc s t)"
  shows "values_ok (goto t pc p s)"
proof (rule values_ok_goto [OF ok])
  note eff = allocBuffer_effects [OF call]
  note ctx = tls_context_typed [of "sys_proc s" t, OF values_okD(2) [OF ok]]
  show "heap (sys_proc s) c = Some b \<or> buf_typed b" if b: "heap p c = Some b" for c b
  proof (cases "c = a")
    case True
    from eff(3) True b have fresh: "fresh_buffer (ctx_threadId (fst (tls_context t (sys_proc s))))
        (bm_epoch (buf_manager (sys_proc s) m)) b" by auto
    have "\<forall>i w. eb_buf b i = Some w \<longrightarrow> 0 \<le> i \<and> i < BUF_LEN \<and> hdr_field w = 0xF"
      using allocBuffer_slots [OF call] b True values_okD(1) [OF ok]
      by (fastforce simp: buf_typed_def)
    with fresh ctx managers_okD(3,4) [OF sys_okD(2) [OF sys], of m] show ?thesis
      by (simp add: fresh_buffer_def buf_typed_def ctx_typed_def in_int_def size_defs)
  qed (use eff(3) b in auto)
  show "thr_context (sys_proc s) u = Some c \<or> ctx_typed c" if "thr_context p u = Some c" for u c
    using that ctx eff(5) by (auto simp: ctx_typed_def split: if_splits)
  show "in_int (ref_events ref) \<and> in_int (ref_nextRdtscTime ref)" if "current_ref pc = Some ref" for ref
    using values_okD(3) [OF ok] that pc by simp
qed

text \<open>A store into a buffer that keeps its other fields in range.\<close>

lemma values_store:
  assumes "values_ok s" and "buf_typed b"
    and "\<And>ref. current_ref pc = Some ref \<Longrightarrow> in_int (ref_events ref) \<and> in_int (ref_nextRdtscTime ref)"
  shows "values_ok (goto t pc (store_buf a b (sys_proc s)) s)"
  using assms by (intro values_ok_goto) (auto split: if_splits)

lemma stored_header:
  assumes "app_step tlocal t s (Inr s')" and "sys_pc s t = Loaded ref cur"
  obtains b w where "heap (sys_proc s) (ref_buf ref) = Some b" "0 \<le> ref_events ref" "ref_events ref < BUF_LEN"
    "hdr_field w = 0xF" "s' = goto t (after_store ref cur)
       (store_buf (ref_buf ref) (b\<lparr>eb_buf := (eb_buf b)(ref_events ref \<mapsto> w)\<rparr>) (sys_proc s)) s"
  using assms(1)
proof (cases rule: app_step_rules)
  case (store ref' curBuf pc addr val)
  with assms(2) have r: "ref' = ref" "curBuf = cur" by simp_all
  with store(1) obtain p where p: "write_slot (ref_buf ref) (ref_events ref) (encode_src_loc pc addr val)
      (sys_proc s) = Inr p" and s': "s' = goto t (after_store ref cur) p s"
    by (auto simp: eq_commute [of "Inr s'"] after_store_def int_add_Inr_iff and_then_Inr_iff Let_def
        split: if_splits)
  from p show ?thesis
    by (rule write_slot_InrE) (use s' in \<open>auto intro: that hdr_encode_src_loc\<close>)
qed (use assms(2) in simp_all)

lemma next_deadline_typed:
  assumes "app_step tlocal t s (Inr s')" and "sys_pc s t = Slow ref (Some b)"
  shows "in_int (ref_nextRdtscTime ref + BATCH_SIZE)"
  using assms(1)
proof (cases rule: app_step_rules)
  case (deadline ref' b')
  with assms(2) show ?thesis
    by (auto simp: eq_commute [of "Inr s'"] and_then_Inr_iff int_add_Inr_iff in_int_def)
qed (use assms(2) in simp_all)

lemma values_app_step:
  assumes ok: "values_ok s" and sys: "sys_ok tlocal s" and step: "app_step tlocal t s (Inr s')"
  shows "values_ok s'"
proof -
  note here = values_okD(3) [OF ok, of t]
  have same: "values_ok (goto t pc (sys_proc s) s)"
    if "\<And>ref. current_ref pc = Some ref \<Longrightarrow> in_int (ref_events ref) \<and> in_int (ref_nextRdtscTime ref)" for pc
    using that by (intro values_ok_goto [OF ok]) simp_all
  from step show ?thesis
  proof (cases rule: app_step_cases)
    case (first_buffer a p)
    with values_allocBuffer [OF ok sys first_buffer(2), of "GotBuf (Some a)"] show ?thesis by simp
  next
    case (take_ref a b)
    with values_okD(1) [OF ok take_ref(2)] show ?thesis
      unfolding take_ref(3) by (intro same) (auto simp: buf_typed_def)
  next
    case (store ref cur w b)
    from stored_header [OF step store(1)] obtain b w where st: "heap (sys_proc s) (ref_buf ref) = Some b"
      "0 \<le> ref_events ref" "ref_events ref < BUF_LEN" "hdr_field w = 0xF"
      "s' = goto t (after_store ref cur)
         (store_buf (ref_buf ref) (b\<lparr>eb_buf := (eb_buf b)(ref_events ref \<mapsto> w)\<rparr>) (sys_proc s)) s" .
    show ?thesis unfolding st(5)
    proof (rule values_store [OF ok])
      show "buf_typed (b\<lparr>eb_buf := (eb_buf b)(ref_events ref \<mapsto> w)\<rparr>)"
        using values_okD(1) [OF ok st(1)] st(2-4) by (auto simp: buf_typed_def)
      show "in_int (ref_events ref1) \<and> in_int (ref_nextRdtscTime ref1)"
        if "current_ref (after_store ref cur) = Some ref1" for ref1
        using that here [of ref] store(1) st(2,3)
        by (auto simp: after_store_def in_int_def size_defs split: if_splits)
    qed
  next
    case (full ref b won p)
    have "heap p = heap (sys_proc s)" "thr_context p = thr_context (sys_proc s)"
      using full(3) by (cases won; auto elim: tryIncEpoch_cases dest: tryIncEpoch_effects(1,3))+
    with here [of ref] next_deadline_typed [OF step full(1)] full(1) show ?thesis
      unfolding full(4) by (intro values_ok_goto [OF ok]) auto
  next
    case (room ref b)
    with here [of ref] next_deadline_typed [OF step room(1)] show ?thesis
      unfolding room(3) by (intro same) auto
  next
    case (new_buffer ref a p)
    with values_allocBuffer [OF ok sys new_buffer(2), of "GotNext ref a"] show ?thesis by simp
  next
    case (switch ref a b)
    with values_okD(1) [OF ok switch(2)] here [of ref] show ?thesis
      unfolding switch(4) by (intro values_store [OF ok]) (auto simp: buf_typed_def)
  next
    case (end_run ref b)
    with values_okD(1) [OF ok end_run(2)] here [of ref] show ?thesis
      unfolding end_run(3) by (intro values_store [OF ok]) (auto simp: buf_typed_def)
  next
    case (exit_thread p)
    have ctx: "thr_context (sys_proc s) u = Some c \<or> ctx_typed c" if "thr_context p u = Some c" for u c
      using exit_thread(2)
    proof (cases rule: destroy_context_cases)
      case (some p1 c1)
      with that tls_context_typed [of "sys_proc s" t, OF values_okD(2) [OF ok]] threadExit_effects(4)
      show ?thesis by (auto split: if_splits)
    qed (use that in simp)
    have "heap (sys_proc s) a = Some b \<or> buf_typed b" if "heap p a = Some b" for a b
      using dtor_effects(4) [OF exit_thread(2)] that values_okD(1) [OF ok]
      by (auto simp: buf_typed_def split: if_splits)
    with ctx show ?thesis unfolding exit_thread(3) by (intro values_ok_goto [OF ok]) auto
  next
    case destroy_manager
    then show ?thesis by (auto intro!: values_ok_goto [OF ok])
  qed (use here in \<open>auto intro!: same\<close>)
qed

lemma reachable_values: "reachable tlocal s \<Longrightarrow> values_ok s"
proof (induction rule: reachable.induct)
  case start
  show ?case by (simp add: values_ok_def init_system_def init_process_def)
next
  case (step s s')
  from step(2) show ?case
  proof (cases rule: sys_step_cases)
    case (app t)
    then show ?thesis by (rule values_app_step [OF step.IH reachable_ok [OF step(1)]])
  next
    case (worker k p)
    with worker_step_effects(1,4) [OF worker(2)] step.IH show ?thesis by (simp add: values_ok_def)
  qed
qed

lemma current_ref_valid:
  assumes sys: "sys_ok tlocal s" and "current_ref (sys_pc s t) = Some ref"
  shows "heap (sys_proc s) (ref_buf ref) \<noteq> None"
proof -
  have "sys_pc s t \<noteq> Exited" using assms(2) by auto
  with sys_okD(4) [OF sys, of t] assms(2) show ?thesis
    using current_ref_held [OF assms] thread_ok_pc [OF sys_okD(4) [OF sys, of t]]
    by (cases "sys_pc s t") (auto simp: thread_ok_def at_ref_def)
qed

text \<open>
  C12: in every reachable state all values have their C++ types: the \<open>int\<close> members of buffers,
  references, contexts and managers hold 32-bit values, every written slot of a buffer is one of its
  \<open>BUF_LEN\<close> slots and holds an event with the write header, and every pointer of a manager or
  a reference points to an allocated buffer.
\<close>

theorem reachable_well_typed:
  assumes "reachable tlocal s"
  shows "well_typed s"
proof -
  note ok = reachable_values [OF assms] and sys = reachable_ok [OF assms]
  have "mgr_typed (sys_proc s) (buf_manager (sys_proc s) m)" for m
  proof -
    have "heap (sys_proc s) a \<noteq> None"
      if "a \<in> set (allocatedBufs (buf_manager (sys_proc s) m)) \<union> set (freeBufs (buf_manager (sys_proc s) m))" for a
      using that by (intro pools_okD(5) [OF sys_okD(1) [OF sys], of a m]) (auto simp: in_pool_iff)
    with managers_okD [OF sys_okD(2) [OF sys], of m] show ?thesis
      by (simp add: mgr_typed_def in_int_def MAX_WORKERS_def)
  qed
  moreover have "ref_typed (sys_proc s) ref" if "current_ref (sys_pc s t) = Some ref" for t ref
    using values_okD(3) [OF ok that] current_ref_valid [OF sys that] current_ref_held(1) [OF sys that]
    by (simp add: ref_typed_def)
  ultimately show ?thesis using values_okD(1,2) [OF ok] by (simp add: well_typed_def)
qed

theorem reachable_well_typed_witness:
  "\<exists>s b. reachable True s \<and> heap (sys_proc s) 0 = Some b \<and> buf_typed b \<and> eb_events b = MAX_EVENTS + 1"
proof -
  obtain s b where s: "reachable True s" "heap (sys_proc s) 0 = Some b" "eb_events b = MAX_EVENTS + 1"
    using second_epoch [of True] by metis
  from reachable_well_typed [OF s(1)] s show ?thesis by (auto simp: well_typed_def)
qed

end
