(* ===== verification/ManagedMain.thy ===== *)
theory ManagedMain
  imports Executions
begin

text \<open>
  \<open>workerMain\<close> and \<open>main\<close> with the operation \<open>BUFFER_MANAGER\<close> when no worker gets the processor:
  how many events a thread can log before the manager runs out of workers.
\<close>

lemma for_loop_fails_at:
  assumes "for_loop body i k s = Inr s1" and "body (i + k) s1 = Inl e" and "k < n"
  shows "for_loop body i n s = Inl e"
  using assms(3)
proof (induction n)
  case 0
  then show ?case by simp
next
  case (Suc n)
  then show ?case
    using assms(1,2) by (cases "k = n") (simp_all add: for_loop_snoc del: for_loop.simps(2))
qed

section \<open>The state of a thread between two events\<close>

text \<open>
  After \<open>n\<close> events since the start: every full buffer took \<open>MAX_EVENTS + 1\<close> of them, ended an
  epoch and started a worker.
\<close>

definition solo_mgr :: "BufferManager \<Rightarrow> nat \<Rightarrow> int \<Rightarrow> nat \<Rightarrow> bool" where
  "solo_mgr m a events n \<longleftrightarrow> allocatedBufs m = [a] \<and> freeBufs m = [] \<and> activeWorkers m = bm_epoch m
     \<and> int n = bm_epoch m * (MAX_EVENTS + 1) + events"

definition solo_logging :: "bool \<Rightarrow> nat \<Rightarrow> system \<Rightarrow> nat \<Rightarrow> ref_state \<Rightarrow> bool" where
  "solo_logging tlocal t s0 n = (\<lambda>(ref, p). \<exists>s. app_run tlocal t s0 s \<and> sys_proc s = p
     \<and> sys_pc s t = Logging ref \<and> log_buffer p t = Some (ref_buf ref)
     \<and> post_aligned MAX_EVENTS (ref_events ref) (ref_nextRdtscTime ref)
     \<and> solo_mgr (mgr_of tlocal t p) (ref_buf ref) (ref_events ref) n)"

text \<open>All workers busy, and the buffer full: the next event fails.\<close>

definition max_solo_events :: nat where
  "max_solo_events = 33 * 10000001 - 1"

lemma logging_thread:
  assumes "sys_ok tlocal s" and "sys_pc s t = Logging ref" and "log_buffer (sys_proc s) t = Some a"
  shows "ref_buf ref = a" and "ref_logBuf ref = a" and "heap (sys_proc s) a \<noteq> None"
    and "mgr_alive (sys_proc s) (buf_manager_of tlocal t)"
    and "t \<in> tlsBufAddrs (mgr_of tlocal t (sys_proc s))"
    and "eb_epoch (the (heap (sys_proc s) a)) = bm_epoch (mgr_of tlocal t (sys_proc s))"
  using sys_okD(4) [OF assms(1), of t] assms(2,3) by (auto simp: thread_ok_def at_ref_def)

lemma solo_full_buffer:
  assumes sys: "sys_ok tlocal s" and pc: "sys_pc s t = Logging ref"
    and lb: "log_buffer (sys_proc s) t = Some a"
    and "ref_events ref = MAX_EVENTS" and "ref_nextRdtscTime ref = MAX_EVENTS"
    and "bm_epoch (mgr_of tlocal t (sys_proc s)) < INT_MAX"
  shows "full_buffer (buf_manager_of tlocal t) t a ref (sys_proc s)"
proof -
  let ?p = "sys_proc s" and ?m = "buf_manager_of tlocal t"
  have "heap ?p (next_addr ?p) = None"
    using pools_okD(1) [OF sys_okD(1) [OF sys], of "next_addr ?p"] by simp
  moreover have "heap ?p c \<noteq> None" if "c \<in> set (freeBufs (buf_manager ?p ?m))" for c
    using that by (intro pools_okD(5) [OF sys_okD(1) [OF sys], of _ ?m]) (simp add: in_pool_iff)
  ultimately show ?thesis
    using logging_thread [OF sys pc lb] managers_okD(3) [OF sys_okD(2) [OF sys], of ?m] assms(3-6)
    by (auto simp: full_buffer_def)
qed

lemma solo_log_step:
  assumes reach: "reachable tlocal s0" and good: "solo_logging tlocal t s0 n st"
    and room: "Suc n \<le> max_solo_events"
  shows "\<exists>st'. tsan_write8_buf_manager (buf_manager_of tlocal t) t pc addr val st = Inr st'
    \<and> solo_logging tlocal t s0 (Suc n) st'"
proof -
  let ?m = "buf_manager_of tlocal t"
  obtain ref p where st: "st = (ref, p)" by (cases st)
  with good obtain s where s: "app_run tlocal t s0 s" "sys_proc s = p" "sys_pc s t = Logging ref"
    and lb: "log_buffer p t = Some (ref_buf ref)"
    and al: "post_aligned MAX_EVENTS (ref_events ref) (ref_nextRdtscTime ref)"
    and mgr: "solo_mgr (buf_manager p ?m) (ref_buf ref) (ref_events ref) n"
    by (auto simp: solo_logging_def)
  have sys: "sys_ok tlocal s" by (rule reachable_ok [OF app_run_reachable [OF s(1) reach]])
  note th = logging_thread [OF sys s(3), unfolded s(2), OF lb]
  then obtain b where b: "heap p (ref_buf ref) = Some b" by blast
  have run: "solo_logging tlocal t s0 (Suc n) (ref', p')"
    if call: "tsan_write8_buf_manager ?m t pc addr val (ref, p) = Inr (ref', p')"
      and "log_buffer p' t = Some (ref_buf ref')"
      and "post_aligned MAX_EVENTS (ref_events ref') (ref_nextRdtscTime ref')"
      and "solo_mgr (buf_manager p' ?m) (ref_buf ref') (ref_events ref') (Suc n)" for ref' p'
  proof -
    have "app_run tlocal t s (goto t (Logging ref') p' s)"
      using buf_manager_run [OF s(3), of tlocal pc addr val] call s(2) by simp
    with s(1) have "app_run tlocal t s0 (goto t (Logging ref') p' s)" by (simp add: app_run_def)
    with that show ?thesis
      by (auto simp: solo_logging_def intro!: exI [of _ "goto t (Logging ref') p' s"])
  qed
  show ?thesis
  proof (cases "ref_events ref < MAX_EVENTS")
    case True
    note call = managed_log_call [OF lb b al True, of ?m pc addr val]
    have "post_aligned MAX_EVENTS (ref_events ref + 1)
        (if ref_events ref < ref_nextRdtscTime ref then ref_nextRdtscTime ref else ref_nextRdtscTime ref + 64)"
      using al True deadline_step(1) [of "ref_nextRdtscTime ref"] by (auto simp: post_aligned_def size_defs)
    with run [OF call] lb mgr show ?thesis by (simp add: st call solo_mgr_def)
  next
    case False
    with al have full: "ref_events ref = MAX_EVENTS" "ref_nextRdtscTime ref = MAX_EVENTS"
      by (auto simp: post_aligned_def)
    from mgr room have e: "bm_epoch (buf_manager p ?m) < 32"
      by (simp add: solo_mgr_def full(1) max_solo_events_def size_defs)
    have buf: "full_buffer ?m t (ref_buf ref) ref p"
      using solo_full_buffer [OF sys s(3), unfolded s(2), OF lb full] e by simp
    from managed_log_epoch [OF buf b, of pc addr val] e mgr obtain c b' p' where
      call: "tsan_write8_buf_manager ?m t pc addr val (ref, p)
        = Inr (\<lparr>ref_logBuf = c, ref_buf = c, ref_events = 0, ref_nextRdtscTime = BATCH_SIZE\<rparr>, p')"
      and "log_buffer p' t = Some c"
      and "buf_manager p' ?m = (buf_manager p ?m)\<lparr>
        activeWorkers := activeWorkers (buf_manager p ?m) + 1, bm_epoch := bm_epoch (buf_manager p ?m) + 1,
        allocatedBufs := [c], freeBufs := butlast (freeBufs (buf_manager p ?m)), tlsBufAddrs := {t}\<rparr>"
      by (auto simp: solo_mgr_def MAX_WORKERS_def)
    with run [OF call] mgr full(1) show ?thesis
      by (simp add: st call solo_mgr_def post_aligned_def size_defs distrib_right)
  qed
qed

lemma solo_log_fails:
  assumes reach: "reachable tlocal s0" and "solo_logging tlocal t s0 max_solo_events st"
  shows "tsan_write8_buf_manager (buf_manager_of tlocal t) t pc addr val st = Inl AssertionFailed"
proof -
  let ?m = "buf_manager_of tlocal t"
  obtain ref p where st: "st = (ref, p)" by (cases st)
  with assms(2) obtain s where s: "app_run tlocal t s0 s" "sys_proc s = p" "sys_pc s t = Logging ref"
    and lb: "log_buffer p t = Some (ref_buf ref)"
    and al: "post_aligned MAX_EVENTS (ref_events ref) (ref_nextRdtscTime ref)"
    and mgr: "solo_mgr (buf_manager p ?m) (ref_buf ref) (ref_events ref) max_solo_events"
    by (auto simp: solo_logging_def)
  have sys: "sys_ok tlocal s" by (rule reachable_ok [OF app_run_reachable [OF s(1) reach]])
  from managers_okD(1,2) [OF sys_okD(2) [OF sys], of ?m] mgr s(2)
  have "0 \<le> bm_epoch (buf_manager p ?m)" "bm_epoch (buf_manager p ?m) \<le> 32"
    by (auto simp: solo_mgr_def MAX_WORKERS_def)
  with mgr al have e: "bm_epoch (buf_manager p ?m) = 32" "ref_events ref = MAX_EVENTS"
    by (auto simp: solo_mgr_def post_aligned_def max_solo_events_def size_defs)
  with al have d: "ref_nextRdtscTime ref = MAX_EVENTS" by (auto simp: post_aligned_def)
  have "full_buffer ?m t (ref_buf ref) ref p"
    using solo_full_buffer [OF sys s(3), unfolded s(2), OF lb e(2) d] e(1) by simp
  from managed_log_skip [OF this] mgr e(1) show ?thesis
    by (simp add: st solo_mgr_def MAX_WORKERS_def)
qed

section \<open>Runs\<close>

text \<open>Between two runs the counters are in the buffer; before the first run there is none.\<close>

definition solo_idle :: "bool \<Rightarrow> nat \<Rightarrow> system \<Rightarrow> nat \<Rightarrow> process \<Rightarrow> bool" where
  "solo_idle tlocal t s0 n p \<longleftrightarrow> (\<exists>s. app_run tlocal t s0 s \<and> sys_proc s = p \<and> sys_pc s t = Idle
     \<and> (n = 0 \<and> log_buffer p t = None \<and> mgr_of tlocal t p = new_BufferManager
        \<or> (\<exists>a b. log_buffer p t = Some a \<and> heap p a = Some b
             \<and> post_aligned MAX_EVENTS (eb_events b) (eb_nextRdtscTime b)
             \<and> solo_mgr (mgr_of tlocal t p) a (eb_events b) n)))"

lemma app_run_step: "app_run tlocal t s0 s \<Longrightarrow> app_step tlocal t s (Inr s') \<Longrightarrow> app_run tlocal t s0 s'"
  unfolding app_run_def by (rule rtranclp.rtrancl_into_rtrancl)

lemma app_run_take_ref:
  assumes "app_run tlocal t s0 s" and "sys_pc s t = GotBuf (Some a)" and "heap (sys_proc s) a = Some b"
  shows "app_run tlocal t s0 (goto t (Logging \<lparr>ref_logBuf = a, ref_buf = a, ref_events = eb_events b,
     ref_nextRdtscTime = eb_nextRdtscTime b\<rparr>) (sys_proc s) s)"
  by (rule app_run_step [OF assms(1)])
    (use app_step.take_ref [OF assms(2), of tlocal] assms(3) in \<open>simp add: getRef_def\<close>)

lemma solo_take_ref:
  assumes reach: "reachable tlocal s0" and idle: "solo_idle tlocal t s0 n p"
  shows "\<exists>st. getLogBufferRef (buf_manager_of tlocal t) t p = Inr st \<and> solo_logging tlocal t s0 n st"
proof -
  let ?m = "buf_manager_of tlocal t"
  from idle obtain s where s: "app_run tlocal t s0 s" "sys_proc s = p" "sys_pc s t = Idle"
    and cur: "n = 0 \<and> log_buffer p t = None \<and> buf_manager p ?m = new_BufferManager
        \<or> (\<exists>a b. log_buffer p t = Some a \<and> heap p a = Some b
             \<and> post_aligned MAX_EVENTS (eb_events b) (eb_nextRdtscTime b)
             \<and> solo_mgr (buf_manager p ?m) a (eb_events b) n)"
    by (auto simp: solo_idle_def)
  let ?s1 = "goto t (GotBuf (log_buffer p t)) p s"
  have run1: "app_run tlocal t s0 ?s1"
    using app_run_step [OF s(1) app_step.begin_run [OF s(3) may_load_current]] s(2) by (simp add: getLogBuffer_def)
  from cur show ?thesis
  proof (elim disjE exE conjE)
    assume fresh: "n = 0" "log_buffer p t = None" "buf_manager p ?m = new_BufferManager"
    have "mgr_alive p ?m"
      using sys_okD(4) [OF reachable_ok [OF app_run_reachable [OF s(1) reach]], of t] s(2,3)
      by (simp add: thread_ok_def)
    with fresh obtain a p1 where call: "allocBuffer ?m t p = Inr (a, p1)"
      using allocBuffer_ok [of p ?m t] by (auto simp: new_BufferManager_def)
    note eff = allocBuffer_effects [OF call]
    from eff(3) obtain b where b: "heap p1 a = Some b" "eb_events b = 0" "eb_nextRdtscTime b = BATCH_SIZE"
      by (auto simp: fresh_buffer_def)
    have run2: "app_run tlocal t s0 (goto t (GotBuf (Some a)) p1 s)"
      using app_run_step [OF run1] app_step.first_buffer [of ?s1 t tlocal] call fresh(2) by simp
    from app_run_take_ref [OF run2, of a b] b eff(4,6) fresh show ?thesis
      by (auto simp: getLogBufferRef_def getLogBuffer_def getRef_def call solo_logging_def
          post_aligned_def size_defs solo_mgr_def new_BufferManager_def
          intro!: exI [of _ "goto t (Logging \<lparr>ref_logBuf = a, ref_buf = a, ref_events = 0,
            ref_nextRdtscTime = 64\<rparr>) p1 s"])
  next
    fix a b
    assume cur: "log_buffer p t = Some a" "heap p a = Some b"
      "post_aligned MAX_EVENTS (eb_events b) (eb_nextRdtscTime b)" "solo_mgr (buf_manager p ?m) a (eb_events b) n"
    from app_run_take_ref [OF run1, of a b] cur show ?thesis
      by (auto simp: getLogBufferRef_def getLogBuffer_def getRef_def solo_logging_def
          intro!: exI [of _ "goto t (Logging \<lparr>ref_logBuf = a, ref_buf = a, ref_events = eb_events b,
            ref_nextRdtscTime = eb_nextRdtscTime b\<rparr>) p s"])
  qed
qed

lemma solo_destroy:
  assumes reach: "reachable tlocal s0" and "solo_logging tlocal t s0 n (ref, p)"
  shows "\<exists>p'. destroy_Ref ref p = Inr p' \<and> solo_idle tlocal t s0 n p'"
proof -
  from assms(2) obtain s where s: "app_run tlocal t s0 s" "sys_proc s = p" "sys_pc s t = Logging ref"
    and lb: "log_buffer p t = Some (ref_buf ref)"
    and good: "post_aligned MAX_EVENTS (ref_events ref) (ref_nextRdtscTime ref)"
      "solo_mgr (mgr_of tlocal t p) (ref_buf ref) (ref_events ref) n"
    by (auto simp: solo_logging_def)
  note th = logging_thread [OF reachable_ok [OF app_run_reachable [OF s(1) reach]] s(3), unfolded s(2), OF lb]
  then obtain b where b: "heap p (ref_buf ref) = Some b" by blast
  let ?p = "store_buf (ref_buf ref)
    (b\<lparr>eb_events := ref_events ref, eb_nextRdtscTime := ref_nextRdtscTime ref\<rparr>) p"
  have call: "destroy_Ref ref p = Inr ?p" using destroy_Ref_Some [of p ref b] th(2) b by simp
  then have "app_run tlocal t s0 (goto t Idle ?p s)"
    using app_run_step [OF s(1)] app_step.end_run [OF s(3), of tlocal] s(2) by simp
  with call good lb show ?thesis
    by (auto simp: solo_idle_def intro!: exI [of _ "goto t Idle ?p s"])
qed

text \<open>One run over the slice, as long as there are workers for its events.\<close>

abbreviation managed_store :: "nat \<Rightarrow> nat \<Rightarrow> nat \<Rightarrow> nat \<Rightarrow> int64_array \<times> ref_state
    \<Rightarrow> (int64_array \<times> ref_state) result" where
  "managed_store this t \<equiv> logged_store (\<lambda>(pc, addr, val). tsan_write8_buf_manager this t pc addr val) 613"

lemma solo_loop:
  assumes reach: "reachable tlocal s0" and good: "solo_logging tlocal t s0 n st"
    and "n + k \<le> max_solo_events" and "off + k \<le> length (arr_elems arr)"
  shows "\<exists>st'. for_loop (managed_store (buf_manager_of tlocal t) t off) 0 k (arr, st)
      = Inr (filled off k arr, st') \<and> solo_logging tlocal t s0 (n + k) st'"
proof -
  let ?P = "\<lambda>i x. fst x = filled off i arr \<and> solo_logging tlocal t s0 (n + i) (snd x)"
  have "\<exists>x. for_loop (managed_store (buf_manager_of tlocal t) t off) 0 k (arr, st) = Inr x \<and> ?P k x"
  proof (rule for_loop_invariant [where P = ?P])
    show "?P 0 (arr, st)" using good by simp
  next
    fix i x
    assume i: "i < k" and x: "?P i x"
    have "Suc (n + i) \<le> max_solo_events" using i assms(3) by simp
    from solo_log_step [OF reach conjunct2 [OF x] this] obtain st1 where
      "tsan_write8_buf_manager (buf_manager_of tlocal t) t 613 (elem_addr (fst x) (off + i)) (of_nat i) (snd x)
        = Inr st1" "solo_logging tlocal t s0 (Suc (n + i)) st1" by blast
    moreover have "store_elem (off + i) (of_nat i) (filled off i arr) = Inr (filled off (Suc i) arr)"
      using i assms(4) by (intro filled_Suc) simp
    ultimately show "\<exists>x'. managed_store (buf_manager_of tlocal t) t off (0 + i) x = Inr x' \<and> ?P (Suc i) x'"
      using x by (cases x) (auto simp: logged_store_def)
  qed
  then show ?thesis by auto
qed

lemma solo_run:
  assumes reach: "reachable tlocal s0" and idle: "solo_idle tlocal t s0 n p"
    and "off + nat len \<le> length (arr_elems arr)"
  shows "n + nat len \<le> max_solo_events \<Longrightarrow>
      \<exists>p'. run (buf_manager_of tlocal t) t BUFFER_MANAGER off len (arr, p)
        = Inr (filled off (nat len) arr, p') \<and> solo_idle tlocal t s0 (n + nat len) p'"
    and "n \<le> max_solo_events \<Longrightarrow> max_solo_events < n + nat len \<Longrightarrow>
      run (buf_manager_of tlocal t) t BUFFER_MANAGER off len (arr, p) = Inl AssertionFailed"
proof -
  from solo_take_ref [OF reach idle] obtain ref p1 where
    take: "getLogBufferRef (buf_manager_of tlocal t) t p = Inr (ref, p1)"
    and good: "solo_logging tlocal t s0 n (ref, p1)" by auto
  {
    assume "n + nat len \<le> max_solo_events"
    from solo_loop [OF reach good this assms(3)] obtain ref2 p2 where
      loop: "for_loop (managed_store (buf_manager_of tlocal t) t off) 0 (nat len) (arr, (ref, p1))
        = Inr (filled off (nat len) arr, (ref2, p2))"
      and good2: "solo_logging tlocal t s0 (n + nat len) (ref2, p2)" by auto
    with solo_destroy [OF reach good2] take
    show "\<exists>p'. run (buf_manager_of tlocal t) t BUFFER_MANAGER off len (arr, p)
        = Inr (filled off (nat len) arr, p') \<and> solo_idle tlocal t s0 (n + nat len) p'"
      by (auto simp: run_def run_buf_manager_def with_Ref_def logged_loop_def)
  next
    assume n: "n \<le> max_solo_events" "max_solo_events < n + nat len"
    let ?k = "max_solo_events - n"
    have k: "n + ?k = max_solo_events" "?k < nat len" "off + ?k \<le> length (arr_elems arr)"
      using n assms(3) by simp_all
    from solo_loop [OF reach good _ k(3)] obtain st where
      loop: "for_loop (managed_store (buf_manager_of tlocal t) t off) 0 ?k (arr, (ref, p1))
        = Inr (filled off ?k arr, st)"
      and good2: "solo_logging tlocal t s0 max_solo_events st" unfolding k(1) by blast
    have "managed_store (buf_manager_of tlocal t) t off (0 + ?k) (filled off ?k arr, st) = Inl AssertionFailed"
      using solo_log_fails [OF reach good2] by (simp add: logged_store_def)
    from for_loop_fails_at [OF loop this k(2)] take
    show "run (buf_manager_of tlocal t) t BUFFER_MANAGER off len (arr, p) = Inl AssertionFailed"
      by (simp add: run_def run_buf_manager_def with_Ref_def logged_loop_def)
  }
qed

section \<open>The thread body\<close>

text \<open>A thread that has not logged yet.\<close>

definition untouched :: "bool \<Rightarrow> nat \<Rightarrow> system \<Rightarrow> bool" where
  "untouched tlocal t s \<longleftrightarrow> sys_pc s t = Idle \<and> log_buffer (sys_proc s) t = None
     \<and> mgr_of tlocal t (sys_proc s) = new_BufferManager"

lemma untouched_init: "untouched tlocal t init_system"
  by (simp add: untouched_def init_system_def init_process_def)

lemma untouched_idle: "untouched tlocal t s \<Longrightarrow> solo_idle tlocal t s 0 (sys_proc s)"
  by (auto simp: untouched_def solo_idle_def app_run_def intro!: exI [of _ s])

lemma solo_runs:
  assumes reach: "reachable tlocal s0" and "untouched tlocal t s0" and len: "off + nat len \<le> length (arr_elems arr)"
    and "k * nat len \<le> max_solo_events"
  shows "\<exists>arr' p'. for_loop (\<lambda>_. run (buf_manager_of tlocal t) t BUFFER_MANAGER off len) 0 k (arr, sys_proc s0)
      = Inr (arr', p') \<and> arr' = (if k = 0 then arr else filled off (nat len) arr)
    \<and> solo_idle tlocal t s0 (k * nat len) p'"
proof -
  let ?P = "\<lambda>i st. fst st = (if i = (0::nat) then arr else filled off (nat len) arr)
    \<and> solo_idle tlocal t s0 (i * nat len) (snd st)"
  have "\<exists>st. for_loop (\<lambda>_. run (buf_manager_of tlocal t) t BUFFER_MANAGER off len) 0 k (arr, sys_proc s0) = Inr st
      \<and> ?P k st"
  proof (rule for_loop_invariant [where P = ?P])
    show "?P 0 (arr, sys_proc s0)" using untouched_idle [OF assms(2)] by simp
  next
    fix i st
    assume i: "i < k" and st: "?P i st"
    have "Suc i * nat len \<le> k * nat len" using i by (intro mult_right_mono) simp_all
    with assms(4) have "i * nat len + nat len \<le> max_solo_events" by simp
    with solo_run(1) [OF reach conjunct2 [OF st], of off len "fst st"] st len
    show "\<exists>st'. run (buf_manager_of tlocal t) t BUFFER_MANAGER off len st = Inr st' \<and> ?P (Suc i) st'"
      using filled_twice [OF len] by (cases st) (auto simp: add.commute split: if_splits)
  qed
  then show ?thesis by auto
qed

lemma workerMain_managed:
  assumes "reachable tlocal s0" and "untouched tlocal t s0" and "off + nat len \<le> length (arr_elems arr)"
    and "0 < iterations" and "iterations * nat len \<le> max_solo_events"
  shows "\<exists>p'. workerMain iterations (buf_manager_of tlocal t) t BUFFER_MANAGER off len (arr, sys_proc s0)
      = Inr (filled off (nat len) arr, p') \<and> solo_idle tlocal t s0 (iterations * nat len) p'"
  using solo_runs [OF assms(1-3,5)] assms(4) by (auto simp: workerMain_def)

lemma workerMain_managed_fails:
  assumes reach: "reachable tlocal s0" and "untouched tlocal t s0" and len: "off + nat len \<le> length (arr_elems arr)"
    and "max_solo_events < iterations * nat len"
  shows "workerMain iterations (buf_manager_of tlocal t) t BUFFER_MANAGER off len (arr, sys_proc s0)
    = Inl AssertionFailed"
proof -
  let ?body = "\<lambda>_. run (buf_manager_of tlocal t) t BUFFER_MANAGER off len"
  have pos: "0 < nat len" using assms(4) by (cases "nat len") auto
  define k where "k = max_solo_events div nat len"
  have k: "k * nat len \<le> max_solo_events" "max_solo_events < k * nat len + nat len"
    using pos dividend_less_div_times [of "nat len" max_solo_events]
    by (simp_all add: k_def add.commute)
  have "k < iterations"
  proof (rule ccontr)
    assume "\<not> ?thesis"
    then have "iterations * nat len \<le> k * nat len" by (intro mult_right_mono) simp_all
    with k assms(4) show False by simp
  qed
  from solo_runs [OF reach assms(2) len k(1)] obtain arr' p' where
    loop: "for_loop ?body 0 k (arr, sys_proc s0) = Inr (arr', p')"
    and arr': "arr' = (if k = 0 then arr else filled off (nat len) arr)"
    and idle: "solo_idle tlocal t s0 (k * nat len) p'" by blast
  have "?body (0 + k) (arr', p') = Inl AssertionFailed"
    using len k arr' by (intro solo_run(2) [OF reach idle]) simp_all
  from for_loop_fails_at [OF loop this \<open>k < iterations\<close>] show ?thesis
    by (simp add: workerMain_def)
qed

text \<open>
  C14: with \<open>BUFFER_MANAGER\<close>, and no worker getting the processor, the body of a thread fills the
  array like the uninstrumented loop exactly as long as it logs fewer than \<open>33 * 10000001\<close> events;
  with one event more it fails the assertion of \<open>updateLogBuffer\<close>.
\<close>

theorem workerMain_managed_bound:
  assumes "reachable tlocal s" and "untouched tlocal t s" and "off + nat len \<le> length (arr_elems arr)"
    and "0 < iterations"
  shows "if iterations * nat len < 33 * 10000001
    then \<exists>arr' p'. workerMain iterations (buf_manager_of tlocal t) t BUFFER_MANAGER off len (arr, sys_proc s)
      = Inr (arr', p') \<and> run_noop off len arr = Inr arr'
    else workerMain iterations (buf_manager_of tlocal t) t BUFFER_MANAGER off len (arr, sys_proc s)
      = Inl AssertionFailed"
  using workerMain_managed [OF assms] workerMain_managed_fails [OF assms(1-3)] run_noop_filled [OF assms(3)]
  by (auto simp: max_solo_events_def)

theorem workerMain_managed_bound_witness:
  "(\<exists>arr' p'. workerMain numIterations 0 0 BUFFER_MANAGER 0 330000
      (\<lparr>arr_base = 64, arr_elems = replicate 330001 7\<rparr>, init_process) = Inr (arr', p'))
   \<and> workerMain numIterations 0 0 BUFFER_MANAGER 0 330001
      (\<lparr>arr_base = 64, arr_elems = replicate 330001 7\<rparr>, init_process) = Inl AssertionFailed"
proof -
  let ?arr = "\<lparr>arr_base = 64, arr_elems = replicate 330001 7\<rparr>"
  note bound = workerMain_managed_bound [OF reachable.start [of True] untouched_init]
  have "\<exists>arr' p'. workerMain 1000 0 0 BUFFER_MANAGER 0 330000 (?arr, init_process) = Inr (arr', p')"
    using bound [of 0 330000 ?arr 1000 0] by (auto simp: init_system_def buf_manager_of_def)
  moreover have "workerMain 1000 0 0 BUFFER_MANAGER 0 330001 (?arr, init_process) = Inl AssertionFailed"
    using bound [of 0 330001 ?arr 1000 0] by (simp add: init_system_def buf_manager_of_def)
  ultimately show ?thesis by (simp add: numIterations_def)
qed

section \<open>The program\<close>

lemma untouched_others:
  assumes "app_run True t s s'" and "u \<noteq> t" and "untouched True u s"
  shows "untouched True u s'"
  using assms(1) unfolding app_run_def
proof (induction rule: rtranclp_induct)
  case base
  show ?case by (rule assms(3))
next
  case (step s1 s2)
  then show ?case
    using app_step_others [OF step(2) assms(2)] app_step_other_manager [OF step(2) assms(2)]
    by (simp add: untouched_def)
qed

text \<open>
  C15: with \<open>BUFFER_MANAGER\<close> the threads of \<open>main\<close>, in whatever order, fill the whole array even
  if no worker ever gets the processor, as long as every thread logs fewer than \<open>33 * 10000001\<close>
  events.
\<close>

theorem main_managed:
  assumes "main_plan args = Inr pl" and "0 < iterations"
    and "iterations * nat (pl_len pl) < 33 * 10000001"
    and "mset order = mset (pl_threads pl)" and "int (length (arr_elems arr)) = pl_size pl"
  shows "\<exists>arr' p'. run_threads iterations BUFFER_MANAGER (pl_len pl) order (arr, init_process) = Inr (arr', p')
    \<and> length (arr_elems arr') = length (arr_elems arr)
    \<and> (\<forall>k < length (arr_elems arr'). arr_elems arr' ! k = of_nat (k mod nat (pl_len pl)))"
proof (rule main_fills [OF assms(1) _ assms(4) _ assms(5)])
  let ?fit = "\<lambda>js p. \<exists>s. reachable True s \<and> sys_proc s = p \<and> distinct js \<and> (\<forall>j \<in> set js. untouched True j s)"
  have "map fst (pl_threads pl) = [0..<length (pl_threads pl)]"
    using main_plan_InrD(3) [OF assms(1)] by (auto simp: comp_def)
  then have "distinct (map fst order)"
    using assms(4) by (metis distinct_upt mset_eq_imp_distinct_iff mset_map)
  then show "?fit (map fst order) init_process"
    using reachable.start [of True] untouched_init
    by (intro exI [of _ init_system]) (simp add: init_system_def)
  show "\<exists>p1. workerMain iterations (buf_manager_of True j) j BUFFER_MANAGER (j * nat (pl_len pl)) (pl_len pl) (arr, p)
      = Inr (filled (j * nat (pl_len pl)) (nat (pl_len pl)) arr, p1) \<and> ?fit js p1"
    if fit: "?fit (j # js) p" and room: "j * nat (pl_len pl) + nat (pl_len pl) \<le> length (arr_elems arr)"
    for j js p arr
  proof -
    from fit obtain s where s: "reachable True s" "sys_proc s = p" "untouched True j s"
      "distinct (j # js)" "\<forall>i \<in> set js. untouched True i s" by auto
    have "iterations * nat (pl_len pl) \<le> max_solo_events" using assms(3) by (simp add: max_solo_events_def)
    from workerMain_managed [OF s(1,3) room assms(2) this] s(2) obtain p1 where
      run: "workerMain iterations (buf_manager_of True j) j BUFFER_MANAGER (j * nat (pl_len pl)) (pl_len pl) (arr, p)
        = Inr (filled (j * nat (pl_len pl)) (nat (pl_len pl)) arr, p1)"
      and "solo_idle True j s (iterations * nat (pl_len pl)) p1" by auto
    then obtain s1 where s1: "app_run True j s s1" "sys_proc s1 = p1" by (auto simp: solo_idle_def)
    have "untouched True i s1" if "i \<in> set js" for i
      using untouched_others [OF s1(1), of i] s(4,5) that by auto
    with run s1 s(4) app_run_reachable [OF s1(1) s(1)] show ?thesis by auto
  qed
qed

lemma managed_plan:
  "main_plan [2, 2, 15]
   = Inr \<lparr>pl_size = 4, pl_op = BUFFER_MANAGER, pl_len = 2, pl_threads = [(0, 0), (1, 2)]\<rparr>"
  by code_simp

theorem main_managed_witness:
  "\<exists>arr' p'. run_threads numIterations BUFFER_MANAGER 2 [(1, 2), (0, 0)]
     (\<lparr>arr_base = 64, arr_elems = [9, 9, 9, 9]\<rparr>, init_process) = Inr (arr', p')
   \<and> (\<forall>k < length (arr_elems arr'). arr_elems arr' ! k = of_nat (k mod 2))"
  using main_managed [OF managed_plan, of numIterations "[(1, 2), (0, 0)]" "\<lparr>arr_base = 64, arr_elems = [9, 9, 9, 9]\<rparr>"]
  by (auto simp: numIterations_def add_mset_commute simp del: run_threads.simps)

end
