(* ===== verification/GlobalOrder.thy ===== *)
theory GlobalOrder
  imports LogRings
begin

text \<open>
  \<open>GLOBAL_COUNTER\<close>: threads take event identifiers from one atomic counter, in whatever order they
  run, and the stored words order the events.
\<close>

type_synonym global_access = "nat \<times> access"

text \<open>The calls of any number of threads, in the order in which they are made.\<close>

definition global_log :: "global_access \<Rightarrow> process \<Rightarrow> process result" where
  "global_log = (\<lambda>(t, pc, addr, val). tsan_write8_global_counter t pc addr val)"

lemma global_log_call:
  assumes "plain_good 1001 t p"
  shows "\<exists>q. global_log (t, pc, addr, val) p = Inr q
    \<and> event_id_counter q = event_id_counter p + 1
    \<and> eb_buf (cur_buf t q) (eb_events (cur_buf t p))
        = Some (encode_global_counter (ucast (event_id_counter p)) addr)
    \<and> (\<forall>u. plain_good 1001 u p \<longrightarrow> plain_good 1001 u q)"
proof -
  from assms obtain a b where ab: "log_buffer p t = Some a" "heap p a = Some b" "0 \<le> eb_events b"
    "eb_events b < 1001" by (auto simp: plain_good_def)
  then show ?thesis
    by (auto simp: global_log_def global_counter_call cur_buf_def push_def plain_good_def)
qed

lemma global_log_all:
  assumes "\<forall>e \<in> set es. plain_good 1001 (fst e) p"
  shows "\<exists>q. log_all global_log es p = Inr q \<and> event_id_counter q = event_id_counter p + of_nat (length es)
    \<and> (\<forall>u. plain_good 1001 u p \<longrightarrow> plain_good 1001 u q)"
  using assms
proof (induction es arbitrary: p)
  case Nil
  then show ?case by simp
next
  case (Cons e es)
  obtain t pc addr val where e: "e = (t, pc, addr, val)" by (cases e)
  with Cons.prems global_log_call [of t p pc addr val] obtain q where
    q: "global_log e p = Inr q" "event_id_counter q = event_id_counter p + 1"
    "\<forall>u. plain_good 1001 u p \<longrightarrow> plain_good 1001 u q" by auto
  with Cons.prems have "\<forall>e \<in> set es. plain_good 1001 (fst e) q" by auto
  from Cons.IH [OF this] q show ?case by (auto simp: add.assoc)
qed

lemma counter_less:
  fixes c :: u32
  assumes "i < j" and "unat c + j < 2 ^ 32"
  shows "c + of_nat i < c + of_nat j"
proof -
  have "unat (c + of_nat k) = unat c + k" if "k \<le> j" for k
  proof -
    have "unat (of_nat k :: u32) = k"
      using that assms(2) by (simp add: unat_of_nat take_bit_nat_eq_self)
    moreover have "unat c + k < 2 ^ LENGTH(32)" using that assms(2) by simp
    ultimately show ?thesis by (simp add: unat_word_ariths)
  qed
  with assms(1) show ?thesis by (simp add: word_less_nat_alt)
qed

text \<open>
  C29: the counter orders all events: whatever threads log in whatever order, of two calls the later
  one stores the greater word, the address bits notwithstanding, as long as the 32-bit counter does
  not wrap around.
\<close>

theorem global_counter_orders_events:
  assumes "\<forall>e \<in> set es. plain_good 1001 (fst e) p" and "i < j" and "j < length es"
    and "unat (event_id_counter p) + length es \<le> 2 ^ 32"
  shows "\<exists>pi qi pj qj wi wj. log_all global_log (take i es) p = Inr pi \<and> global_log (es ! i) pi = Inr qi
    \<and> log_all global_log (take j es) p = Inr pj \<and> global_log (es ! j) pj = Inr qj
    \<and> eb_buf (cur_buf (fst (es ! i)) qi) (eb_events (cur_buf (fst (es ! i)) pi)) = Some wi
    \<and> eb_buf (cur_buf (fst (es ! j)) qj) (eb_events (cur_buf (fst (es ! j)) pj)) = Some wj
    \<and> wi < wj"
proof -
  have call: "\<exists>q r addr. log_all global_log (take k es) p = Inr q \<and> global_log (es ! k) q = Inr r
      \<and> eb_buf (cur_buf (fst (es ! k)) r) (eb_events (cur_buf (fst (es ! k)) q))
        = Some (encode_global_counter (ucast (event_id_counter p + of_nat k)) addr)"
    if k: "k < length es" for k
  proof -
    obtain t pc addr val where e: "es ! k = (t, pc, addr, val)" by (cases "es ! k")
    have "\<forall>e \<in> set (take k es). plain_good 1001 (fst e) p" using assms(1) by (auto dest: in_set_takeD)
    from global_log_all [OF this] k obtain q where
      q: "log_all global_log (take k es) p = Inr q" "event_id_counter q = event_id_counter p + of_nat k"
      "\<forall>u. plain_good 1001 u p \<longrightarrow> plain_good 1001 u q" by auto
    have "plain_good 1001 t p" using assms(1) k e by (metis fst_conv nth_mem)
    with q(3) global_log_call [of t q pc addr val] q(1,2) e show ?thesis by auto
  qed
  from assms(2,3) have "i < length es" by simp
  moreover from assms(2-4) have "event_id_counter p + of_nat i < event_id_counter p + of_nat j"
    by (intro counter_less) simp_all
  ultimately show ?thesis
    using call [of i] call [OF assms(3)] encode_global_counter_less by metis
qed

theorem global_counter_orders_events_witness:
  "\<exists>pi qi pj qj wi wj. log_all global_log (take 0 [(0, 1, 9, 3), (0, 4, 5, 6)]) one_buffer = Inr pi
    \<and> global_log (0, 1, 9, 3) pi = Inr qi
    \<and> log_all global_log (take 1 [(0, 1, 9, 3), (0, 4, 5, 6)]) one_buffer = Inr pj
    \<and> global_log (0, 4, 5, 6) pj = Inr qj
    \<and> eb_buf (cur_buf 0 qi) (eb_events (cur_buf 0 pi)) = Some wi
    \<and> eb_buf (cur_buf 0 qj) (eb_events (cur_buf 0 pj)) = Some wj \<and> wi < wj"
  using global_counter_orders_events [of "[(0, 1, 9, 3), (0, 4, 5, 6)]" one_buffer 0 1]
    one_buffer_good(1) [of 1001]
  by (simp add: one_buffer_def init_process_def del: log_all.simps take_Suc_Cons)

text \<open>
  After \<open>2^32\<close> events, whoever logged them, the counter starts over and identifiers repeat: the
  next event stores exactly the word that it would have stored as the first.
\<close>

theorem global_counter_wraps:
  assumes "\<forall>e \<in> set es. plain_good 1001 (fst e) p" and "length es = 2 ^ 32"
    and "plain_good 1001 t p"
  shows "\<exists>q p' q' w. global_log (t, pc, addr, val) p = Inr q
    \<and> log_all global_log es p = Inr p' \<and> global_log (t, pc, addr, val) p' = Inr q'
    \<and> eb_buf (cur_buf t q) (eb_events (cur_buf t p)) = Some w
    \<and> eb_buf (cur_buf t q') (eb_events (cur_buf t p')) = Some w"
proof -
  from global_log_all [OF assms(1)] obtain p' where p': "log_all global_log es p = Inr p'"
    "event_id_counter p' = event_id_counter p + of_nat (length es)"
    "\<And>u. plain_good 1001 u p \<Longrightarrow> plain_good 1001 u p'" by auto
  have "(of_nat (2 ^ 32) :: u32) = 0" by simp
  with p'(2) assms(2) have "event_id_counter p' = event_id_counter p" by (simp only: add_0_right)
  with p'(1) global_log_call [OF assms(3)] global_log_call [OF p'(3) [OF assms(3)]]
  show ?thesis by metis
qed

theorem global_counter_wraps_witness:
  "\<exists>q p' q' w. global_log (0, 1, 9, 3) one_buffer = Inr q
    \<and> log_all global_log (replicate (2 ^ 32) (0, 4, 5, 6)) one_buffer = Inr p'
    \<and> global_log (0, 1, 9, 3) p' = Inr q'
    \<and> eb_buf (cur_buf 0 q) (eb_events (cur_buf 0 one_buffer)) = Some w
    \<and> eb_buf (cur_buf 0 q') (eb_events (cur_buf 0 p')) = Some w"
proof (rule global_counter_wraps)
  have "fst e = 0" if "e \<in> set (replicate (2 ^ 32) (0, 4, 5, 6))" for e :: global_access
    using that unfolding set_replicate_conv_if by (metis empty_iff fst_conv singletonD)
  then show "\<forall>e \<in> set (replicate (2 ^ 32) (0, 4, 5, 6) :: global_access list).
      plain_good 1001 (fst e) one_buffer"
    using one_buffer_good(1) [of 1001] by (metis zero_less_numeral)
qed (use one_buffer_good(1) [of 1001] in \<open>simp_all only: length_replicate zero_less_numeral\<close>)

end
