(* ===== verification/EarlierBench.thy ===== *)
theory EarlierBench
  imports Loops
begin

text \<open>
  \<open>local_writes_benchmarks.cc\<close>, the benchmark that preceded \<open>Main.cc\<close>: its event buffers, its
  \<open>EventBufferManager\<close>, the nine bodies of \<open>__tsan_write8\<close> that \<open>INSTRUMENT_CHOICE\<close> selects, the
  thread body and \<open>main\<close>. Its progress messages are left out.
\<close>

section \<open>State\<close>

definition LB_MAX_EVENTS :: int where "LB_MAX_EVENTS = 1000"
definition RDTSC_SAMPLING_RATE :: int where "RDTSC_SAMPLING_RATE = 128"

text \<open>The number of slots of \<open>buf\<close>.\<close>

definition LB_LEN :: int where "LB_LEN = LB_MAX_EVENTS + RDTSC_SAMPLING_RATE"

lemmas lb_sizes = LB_MAX_EVENTS_def RDTSC_SAMPLING_RATE_def LB_LEN_def

record LocalBuffer =
  lb_tid :: int
  lb_epoch :: int
  lb_events :: int
  lb_eventsToRdtsc :: int
  lb_buf :: "int \<Rightarrow> u64 option"

definition LocalBuffer_reset :: "LocalBuffer \<Rightarrow> LocalBuffer" where
  "LocalBuffer_reset b = b\<lparr>lb_tid := -1, lb_epoch := -1, lb_events := 0,
     lb_eventsToRdtsc := RDTSC_SAMPLING_RATE\<rparr>"

definition new_LocalBuffer :: LocalBuffer where
  "new_LocalBuffer = LocalBuffer_reset
     \<lparr>lb_tid = 0, lb_epoch = 0, lb_events = 0, lb_eventsToRdtsc = 0, lb_buf = (\<lambda>_. None)\<rparr>"

text \<open>
  The buffers by address, the static array \<open>__tsan_buffers\<close> at 0 to 7; per thread its
  \<open>__log_buffer\<close> and the identifier in its \<open>__thread_state\<close>, once constructed; the global
  counters; the members of \<open>bufferManager\<close>, where \<open>threadLocalBufs\<close> names a thread's pointer by the
  thread; and the number of times the time stamp counter has been read.
\<close>

record bench =
  lw_heap :: "nat \<Rightarrow> LocalBuffer option"
  lw_next :: nat
  lw_log_buffer :: "nat \<Rightarrow> nat option"
  lw_thread_state :: "nat \<Rightarrow> int option"
  threadIdCounter :: u32
  global_epoch :: int
  lw_freeBufs :: "nat list"
  bufsInUse :: "nat option list"
  threadLocalBufs :: "nat set"
  lw_reads :: nat

definition init_bench :: bench where
  "init_bench = \<lparr>lw_heap = (\<lambda>a. if a < 8 then Some new_LocalBuffer else None), lw_next = 8,
     lw_log_buffer = (\<lambda>_. None), lw_thread_state = (\<lambda>_. None), threadIdCounter = 0,
     global_epoch = 0, lw_freeBufs = [], bufsInUse = [], threadLocalBufs = {}, lw_reads = 0\<rparr>"

definition lw_load :: "nat \<Rightarrow> bench \<Rightarrow> LocalBuffer result" where
  "lw_load a s = (case lw_heap s a of None \<Rightarrow> Inl InvalidPointer | Some b \<Rightarrow> Inr b)"

definition lw_store :: "nat \<Rightarrow> LocalBuffer \<Rightarrow> bench \<Rightarrow> bench" where
  "lw_store a b s = s\<lparr>lw_heap := (lw_heap s)(a \<mapsto> b)\<rparr>"

definition lw_modify :: "nat \<Rightarrow> (LocalBuffer \<Rightarrow> LocalBuffer) \<Rightarrow> bench \<Rightarrow> bench result" where
  "lw_modify a f s = and_then (lw_load a s) (\<lambda>b. Inr (lw_store a (f b) s))"

text \<open>
  The \<open>rdtsc\<close> instruction puts the halves of the counter in two registers; \<open>tsc i\<close> is the \<open>i\<close>-th
  reading, whoever makes it.
\<close>

definition rdtsc :: "(nat \<Rightarrow> u32 \<times> u32) \<Rightarrow> nat \<Rightarrow> u64" where
  "rdtsc regs i = (let (hi, lo) = regs i in push_bit 32 (ucast hi) OR ucast lo)"

definition lw_rdtsc :: "(nat \<Rightarrow> u64) \<Rightarrow> bench \<Rightarrow> u64 \<times> bench" where
  "lw_rdtsc tsc s = (tsc (lw_reads s), s\<lparr>lw_reads := Suc (lw_reads s)\<rparr>)"

section \<open>Code that may not return\<close>

text \<open>\<open>None\<close>: the code runs forever.\<close>

type_synonym 'a run = "'a result option"

fun run_then :: "'a run \<Rightarrow> ('a \<Rightarrow> 'b run) \<Rightarrow> 'b run" where
  "run_then None f = None"
| "run_then (Some (Inl e)) f = Some (Inl e)"
| "run_then (Some (Inr a)) f = f a"

fun for_run :: "(nat \<Rightarrow> 's \<Rightarrow> 's run) \<Rightarrow> nat \<Rightarrow> nat \<Rightarrow> 's \<Rightarrow> 's run" where
  "for_run body i 0 s = Some (Inr s)"
| "for_run body i (Suc n) s = run_then (body i s) (for_run body (Suc i) n)"

section \<open>EventBufferManager\<close>

definition lw_tid :: "nat \<Rightarrow> bench \<Rightarrow> int \<times> bench" where
  "lw_tid t s =
     (case lw_thread_state s t of
        Some tid \<Rightarrow> (tid, s)
      | None \<Rightarrow>
          (let tid = sint (threadIdCounter s)
           in (tid, s\<lparr>lw_thread_state := (lw_thread_state s)(t \<mapsto> tid),
                      threadIdCounter := threadIdCounter s + 1\<rparr>)))"

text \<open>
  The busy-wait of \<open>endEpoch\<close>: until the counter has reached \<open>stopTime\<close>, every round sets all
  registered pointers to null.
\<close>

partial_function (option) reclaim :: "(nat \<Rightarrow> u64) \<Rightarrow> u64 \<Rightarrow> bench \<Rightarrow> bench option" where
  "reclaim tsc stopTime s =
     (let (time, s1) = lw_rdtsc tsc s in
      if time < stopTime then
        reclaim tsc stopTime
          (s1\<lparr>lw_log_buffer :=
             (\<lambda>t. if t \<in> threadLocalBufs s1 then None else lw_log_buffer s1 t)\<rparr>)
      else Some s1)"

fun return_bufs :: "nat option list \<Rightarrow> bench \<Rightarrow> bench result" where
  "return_bufs [] s = Inr s"
| "return_bufs (buf # bufs) s =
     and_then (not_null buf) (\<lambda>a.
     and_then (lw_modify a LocalBuffer_reset s) (\<lambda>s1.
     return_bufs bufs (s1\<lparr>lw_freeBufs := lw_freeBufs s1 @ [a]\<rparr>)))"

text \<open>\<open>iter\<close> is the order in which the standard library traverses an unordered set.\<close>

definition endEpoch :: "(nat set \<Rightarrow> nat list) \<Rightarrow> (nat \<Rightarrow> u64) \<Rightarrow> bench \<Rightarrow> bench run" where
  "endEpoch iter tsc s =
     (let s1 = s\<lparr>bufsInUse := bufsInUse s @ map (lw_log_buffer s) (iter (threadLocalBufs s))\<rparr>;
          (time, s2) = lw_rdtsc tsc s1
      in case reclaim tsc (time + 1000) s2 of
           None \<Rightarrow> None
         | Some s3 \<Rightarrow>
             let s4 = s3\<lparr>threadLocalBufs := {}\<rparr> in Some (return_bufs (bufsInUse s4) s4))"

definition lw_threadExit :: "nat \<Rightarrow> bench \<Rightarrow> bench" where
  "lw_threadExit t s =
     (case lw_log_buffer s t of
        None \<Rightarrow> s
      | Some a \<Rightarrow> s\<lparr>threadLocalBufs := threadLocalBufs s - {t}, bufsInUse := bufsInUse s @ [Some a]\<rparr>)"

definition lw_take_buffer :: "bench \<Rightarrow> nat \<times> bench" where
  "lw_take_buffer s =
     (if lw_freeBufs s = [] then
        (lw_next s, s\<lparr>lw_heap := (lw_heap s)(lw_next s \<mapsto> new_LocalBuffer),
                      lw_next := Suc (lw_next s)\<rparr>)
      else (last (lw_freeBufs s), s\<lparr>lw_freeBufs := butlast (lw_freeBufs s)\<rparr>))"

definition lw_allocBuffer :: "nat \<Rightarrow> bench \<Rightarrow> bench result" where
  "lw_allocBuffer t s =
     (let (buf, s1) = lw_take_buffer s;
          (tid, s2) = lw_tid t s1
      in and_then (lw_modify buf (\<lambda>b. b\<lparr>lb_tid := tid, lb_epoch := global_epoch s2\<rparr>) s2) (\<lambda>s3.
         Inr (s3\<lparr>lw_log_buffer := (lw_log_buffer s3)(t \<mapsto> buf),
                 threadLocalBufs := insert t (threadLocalBufs s3)\<rparr>)))"

section \<open>Logging\<close>

text \<open>\<open>buf[events++] = w\<close> in the buffer at \<open>a\<close>.\<close>

definition lw_append :: "nat \<Rightarrow> u64 \<Rightarrow> bench \<Rightarrow> bench result" where
  "lw_append a w s =
     and_then (lw_load a s) (\<lambda>b.
     and_then (int_add (lb_events b) 1) (\<lambda>n.
     if 0 \<le> lb_events b \<and> lb_events b < LB_LEN then
       Inr (lw_store a (b\<lparr>lb_buf := (lb_buf b)(lb_events b \<mapsto> w), lb_events := n\<rparr>) s)
     else Inl OutOfBounds))"

text \<open>The event, and the counter set to 0 when the buffer is \<open>full\<close>.\<close>

definition lw_push :: "(int \<Rightarrow> bool) \<Rightarrow> nat \<Rightarrow> u64 \<Rightarrow> bench \<Rightarrow> bench result" where
  "lw_push full t w s =
     and_then (not_null (lw_log_buffer s t)) (\<lambda>a.
     and_then (lw_append a w s) (\<lambda>s1.
     lw_modify a (\<lambda>b. if full (lb_events b) then b\<lparr>lb_events := 0\<rparr> else b) s1))"

text \<open>The timestamp that both slow paths store, and the countdown to the next one.\<close>

definition lw_timestamp :: "(nat \<Rightarrow> u64) \<Rightarrow> nat \<Rightarrow> bench \<Rightarrow> bench result" where
  "lw_timestamp tsc a s =
     (let (time, s1) = lw_rdtsc tsc s in
      and_then (lw_append a (encode_rdtsc time) s1) (\<lambda>s2.
      lw_modify a (\<lambda>b. b\<lparr>lb_eventsToRdtsc := RDTSC_SAMPLING_RATE\<rparr>) s2))"

definition tsan_rdtsc :: "(nat \<Rightarrow> u64) \<Rightarrow> nat \<Rightarrow> bench \<Rightarrow> bench result" where
  "tsan_rdtsc tsc t s =
     and_then (not_null (lw_log_buffer s t)) (\<lambda>a.
     and_then (lw_timestamp tsc a s) (\<lambda>s1.
     lw_modify a (\<lambda>b. if LB_MAX_EVENTS \<le> lb_events b then b\<lparr>lb_events := 0\<rparr> else b) s1))"

text \<open>\<open>__global_epoch.compare_exchange_strong(epoch, epoch + 1)\<close> with the epoch of the buffer.\<close>

definition inc_global_epoch :: "nat \<Rightarrow> bench \<Rightarrow> (bool \<times> bench) result" where
  "inc_global_epoch a s =
     and_then (lw_load a s) (\<lambda>b.
     and_then (int_add (lb_epoch b) 1) (\<lambda>e.
     if global_epoch s = lb_epoch b then Inr (True, s\<lparr>global_epoch := e\<rparr>) else Inr (False, s)))"

definition tsan_mem_access_slow ::
  "(nat set \<Rightarrow> nat list) \<Rightarrow> (nat \<Rightarrow> u64) \<Rightarrow> nat \<Rightarrow> bench \<Rightarrow> bench run" where
  "tsan_mem_access_slow iter tsc t s =
     (case lw_log_buffer s t of
        None \<Rightarrow> Some (lw_allocBuffer t s)
      | Some a \<Rightarrow>
          run_then (Some (lw_load a s)) (\<lambda>b.
          if lb_eventsToRdtsc b = 0 then
            run_then (Some (lw_timestamp tsc a s)) (\<lambda>s1.
            run_then (Some (lw_load a s1)) (\<lambda>b1.
            if LB_MAX_EVENTS \<le> lb_events b1 then
              run_then (Some (inc_global_epoch a s1)) (\<lambda>(won, s2).
              run_then (if won then endEpoch iter tsc s2 else Some (Inr s2)) (\<lambda>s3.
              Some (lw_allocBuffer t s3)))
            else Some (Inr s1)))
          else Some (Inr s)))"

section \<open>The instrumentation bodies\<close>

datatype Instrument = BODY_EMPTY | BODY_COUNT | BODY_ADDR | BODY_DYNBUF | BODY_HEADER | BODY_VALUE
  | BODY_LOCID | BODY_RDTSC | BODY_EPOCH

fun Instrument_value :: "Instrument \<Rightarrow> int" where
  "Instrument_value BODY_EMPTY = 1"
| "Instrument_value BODY_COUNT = 2"
| "Instrument_value BODY_ADDR = 3"
| "Instrument_value BODY_DYNBUF = 4"
| "Instrument_value BODY_HEADER = 5"
| "Instrument_value BODY_VALUE = 6"
| "Instrument_value BODY_LOCID = 7"
| "Instrument_value BODY_RDTSC = 8"
| "Instrument_value BODY_EPOCH = 9"

instantiation Instrument :: linorder
begin

definition less_eq_Instrument :: "Instrument \<Rightarrow> Instrument \<Rightarrow> bool" where
  [simp]: "body \<le> body' \<longleftrightarrow> Instrument_value body \<le> Instrument_value body'"

definition less_Instrument :: "Instrument \<Rightarrow> Instrument \<Rightarrow> bool" where
  [simp]: "body < body' \<longleftrightarrow> Instrument_value body < Instrument_value body'"

instance
proof
  fix body body' :: Instrument
  assume "body \<le> body'" and "body' \<le> body"
  then show "body = body'" by (cases body; cases body') simp_all
qed auto

end

definition lw_count :: "nat \<Rightarrow> bench \<Rightarrow> bench result" where
  "lw_count t s =
     and_then (not_null (lw_log_buffer s t)) (\<lambda>a.
     and_then (lw_load a s) (\<lambda>b.
     and_then (int_add (lb_events b) 1) (\<lambda>n. Inr (lw_store a (b\<lparr>lb_events := n\<rparr>) s))))"

text \<open>The event, and one less to the next timestamp: where both timestamped bodies start.\<close>

definition lw_count_down :: "nat \<Rightarrow> u64 \<Rightarrow> bench \<Rightarrow> bench result" where
  "lw_count_down a w s =
     and_then (lw_append a w s) (\<lambda>s1.
     and_then (lw_load a s1) (\<lambda>b.
     and_then (int_add (lb_eventsToRdtsc b) (-1)) (\<lambda>r.
     Inr (lw_store a (b\<lparr>lb_eventsToRdtsc := r\<rparr>) s1))))"

definition lw_rdtsc_body :: "(nat \<Rightarrow> u64) \<Rightarrow> nat \<Rightarrow> u64 \<Rightarrow> u64 \<Rightarrow> u64 \<Rightarrow> bench \<Rightarrow> bench result" where
  "lw_rdtsc_body tsc t pc addr val s =
     and_then (not_null (lw_log_buffer s t)) (\<lambda>a.
     and_then (lw_count_down a (encode_bench pc addr val) s) (\<lambda>s1.
     and_then (lw_load a s1) (\<lambda>b.
     if lb_eventsToRdtsc b = 0 then tsan_rdtsc tsc t s1 else Inr s1)))"

definition lw_epoch_body ::
  "(nat set \<Rightarrow> nat list) \<Rightarrow> (nat \<Rightarrow> u64) \<Rightarrow> nat \<Rightarrow> u64 \<Rightarrow> u64 \<Rightarrow> u64 \<Rightarrow> bench \<Rightarrow> bench run" where
  "lw_epoch_body iter tsc t pc addr val s =
     (case lw_log_buffer s t of
        None \<Rightarrow> tsan_mem_access_slow iter tsc t s
      | Some a \<Rightarrow>
          run_then (Some (lw_count_down a (encode_bench pc addr val) s)) (\<lambda>s1.
          run_then (Some (lw_load a s1)) (\<lambda>b.
          if lb_eventsToRdtsc b = 0 then tsan_mem_access_slow iter tsc t s1
          else Some (Inr s1))))"

definition lw_write8 ::
  "(nat set \<Rightarrow> nat list) \<Rightarrow> (nat \<Rightarrow> u64) \<Rightarrow> Instrument \<Rightarrow> nat \<Rightarrow> access \<Rightarrow> bench \<Rightarrow> bench run" where
  "lw_write8 iter tsc choice t = (\<lambda>(pc, addr, val) s.
     (case choice of
        BODY_EMPTY \<Rightarrow> Some (Inr s)
      | BODY_COUNT \<Rightarrow> Some (lw_count t s)
      | BODY_ADDR \<Rightarrow> Some (lw_push (\<lambda>n. n = LB_MAX_EVENTS) t addr s)
      | BODY_DYNBUF \<Rightarrow> Some (lw_push (\<lambda>n. n = LB_MAX_EVENTS) t addr s)
      | BODY_HEADER \<Rightarrow> Some (lw_push (\<lambda>n. n = LB_MAX_EVENTS) t (encode_header addr) s)
      | BODY_VALUE \<Rightarrow> Some (lw_push (\<lambda>n. LB_MAX_EVENTS \<le> n) t (encode_value addr val) s)
      | BODY_LOCID \<Rightarrow> Some (lw_push (\<lambda>n. LB_MAX_EVENTS \<le> n) t (encode_bench pc addr val) s)
      | BODY_RDTSC \<Rightarrow> Some (lw_rdtsc_body tsc t pc addr val s)
      | BODY_EPOCH \<Rightarrow> lw_epoch_body iter tsc t pc addr val s))"

section \<open>Thread and main\<close>

text \<open>One iteration of the loop in \<open>Run\<close>; \<open>__LINE__\<close> is 416.\<close>

definition lw_store_logged ::
  "(access \<Rightarrow> bench \<Rightarrow> bench run) \<Rightarrow> nat \<Rightarrow> nat \<Rightarrow> int64_array \<times> bench \<Rightarrow> (int64_array \<times> bench) run" where
  "lw_store_logged log off i = (\<lambda>(arr, s).
     run_then (log (416, elem_addr arr (off + i), of_nat i) s) (\<lambda>s1.
     run_then (Some (store_elem (off + i) (of_nat i) arr)) (\<lambda>arr1. Some (Inr (arr1, s1)))))"

definition Run ::
  "(access \<Rightarrow> bench \<Rightarrow> bench run) \<Rightarrow> nat \<Rightarrow> int \<Rightarrow> int64_array \<times> bench \<Rightarrow> (int64_array \<times> bench) run" where
  "Run log idx len = for_run (lw_store_logged log (idx * nat len)) 0 (nat len)"

definition kNumIter :: nat where "kNumIter = 1000"

text \<open>
  The start of \<open>Thread\<close>: a buffer from the manager, or one of the eight static ones, where
  \<open>at(idx)\<close> throws for an index outside the array.
\<close>

definition Thread_start :: "Instrument \<Rightarrow> nat \<Rightarrow> bench \<Rightarrow> bench result" where
  "Thread_start choice idx s =
     (if BODY_DYNBUF \<le> choice then lw_allocBuffer idx s
      else if idx < 8 then Inr (s\<lparr>lw_log_buffer := (lw_log_buffer s)(idx \<mapsto> idx)\<rparr>)
      else Inl OutOfBounds)"

definition Thread ::
  "(nat set \<Rightarrow> nat list) \<Rightarrow> (nat \<Rightarrow> u64) \<Rightarrow> Instrument \<Rightarrow> nat \<Rightarrow> nat \<Rightarrow> int \<Rightarrow> int64_array \<times> bench
     \<Rightarrow> (int64_array \<times> bench) run" where
  "Thread iter tsc choice iterations idx len = (\<lambda>(arr, s).
     run_then (Some (Thread_start choice idx s)) (\<lambda>s1.
     for_run (\<lambda>_. Run (lw_write8 iter tsc choice idx) idx len) 0 iterations (arr, s1)))"

text \<open>The numbers of threads and of elements per thread, and the size of the array.\<close>

definition lw_main_plan :: "int list \<Rightarrow> (int \<times> int \<times> int) result" where
  "lw_main_plan args =
     and_then
       (case args of
          [n, l] \<Rightarrow> and_then (assert_that (0 < n \<and> n \<le> 32)) (\<lambda>_. Inr (n, l))
        | _ \<Rightarrow> Inr (4, 1000000)) (\<lambda>(n_threads, len).
     and_then (int_mul n_threads len) (\<lambda>size.
     if size < 0 then Inl BadArrayLength else Inr (n_threads, len, size)))"

text \<open>The threads run one after the other, in the given order.\<close>

fun lw_threads ::
  "(nat set \<Rightarrow> nat list) \<Rightarrow> (nat \<Rightarrow> u64) \<Rightarrow> Instrument \<Rightarrow> nat \<Rightarrow> int \<Rightarrow> nat list \<Rightarrow> int64_array \<times> bench
     \<Rightarrow> (int64_array \<times> bench) run" where
  "lw_threads iter tsc choice iterations len [] st = Some (Inr st)"
| "lw_threads iter tsc choice iterations len (i # is) st =
     run_then (Thread iter tsc choice iterations i len st)
       (lw_threads iter tsc choice iterations len is)"

section \<open>Basic facts\<close>

lemma lw_load_Some [simp]: "lw_heap s a = Some b \<Longrightarrow> lw_load a s = Inr b"
  by (simp add: lw_load_def)

lemma lw_load_Inr_iff: "lw_load a s = Inr b \<longleftrightarrow> lw_heap s a = Some b"
  by (simp add: lw_load_def split: option.splits)

lemma lw_modify_Some [simp]: "lw_heap s a = Some b \<Longrightarrow> lw_modify a f s = Inr (lw_store a (f b) s)"
  by (simp add: lw_modify_def)

lemma lw_store_simps [simp]:
  "lw_heap (lw_store a b s) = (lw_heap s)(a \<mapsto> b)"
  "lw_next (lw_store a b s) = lw_next s"
  "lw_log_buffer (lw_store a b s) = lw_log_buffer s"
  "lw_thread_state (lw_store a b s) = lw_thread_state s"
  "threadIdCounter (lw_store a b s) = threadIdCounter s"
  "global_epoch (lw_store a b s) = global_epoch s"
  "lw_freeBufs (lw_store a b s) = lw_freeBufs s"
  "bufsInUse (lw_store a b s) = bufsInUse s"
  "threadLocalBufs (lw_store a b s) = threadLocalBufs s"
  "lw_reads (lw_store a b s) = lw_reads s"
  by (simp_all add: lw_store_def)

lemma lw_store_twice [simp]: "lw_store a b' (lw_store a b s) = lw_store a b' s"
  by (simp add: lw_store_def)

lemma lw_store_same: "lw_heap s a = Some b \<Longrightarrow> lw_store a b s = s"
  by (simp add: lw_store_def fun_upd_idem)

lemma LocalBuffer_reset_simps [simp]:
  "lb_tid (LocalBuffer_reset b) = -1"
  "lb_epoch (LocalBuffer_reset b) = -1"
  "lb_events (LocalBuffer_reset b) = 0"
  "lb_eventsToRdtsc (LocalBuffer_reset b) = RDTSC_SAMPLING_RATE"
  "lb_buf (LocalBuffer_reset b) = lb_buf b"
  by (simp_all add: LocalBuffer_reset_def)

lemma new_LocalBuffer_simps [simp]:
  "lb_tid new_LocalBuffer = -1"
  "lb_epoch new_LocalBuffer = -1"
  "lb_events new_LocalBuffer = 0"
  "lb_eventsToRdtsc new_LocalBuffer = RDTSC_SAMPLING_RATE"
  "lb_buf new_LocalBuffer = (\<lambda>_. None)"
  by (simp_all add: new_LocalBuffer_def)

lemma lw_append_Some [simp]:
  "lw_heap s a = Some b \<Longrightarrow> 0 \<le> lb_events b \<Longrightarrow> lb_events b < LB_LEN \<Longrightarrow>
   lw_append a w s =
     Inr (lw_store a (b\<lparr>lb_buf := (lb_buf b)(lb_events b \<mapsto> w), lb_events := lb_events b + 1\<rparr>) s)"
  by (simp add: lw_append_def int_add_def lb_sizes)

lemma run_then_Inr_iff: "run_then m f = Some (Inr b) \<longleftrightarrow> (\<exists>a. m = Some (Inr a) \<and> f a = Some (Inr b))"
  by (cases m) (auto split: sum.splits simp: run_then.simps elim: run_then.elims)

lemma run_then_Some: "run_then (Some m) f = (case m of Inl e \<Rightarrow> Some (Inl e) | Inr a \<Rightarrow> f a)"
  by (cases m) simp_all

lemma for_run_Some: "for_run (\<lambda>i s. Some (body i s)) i n s = Some (for_loop body i n s)"
proof (induction n arbitrary: i s)
  case 0
  show ?case by simp
next
  case (Suc n)
  show ?case by (cases "body i s") (simp_all add: Suc.IH)
qed

text \<open>All bodies but the last always return.\<close>

definition lw_write8_plain :: "(nat \<Rightarrow> u64) \<Rightarrow> Instrument \<Rightarrow> nat \<Rightarrow> access \<Rightarrow> bench \<Rightarrow> bench result" where
  "lw_write8_plain tsc choice t e s = the (lw_write8 (\<lambda>_. []) tsc choice t e s)"

lemma lw_write8_returns:
  "choice \<noteq> BODY_EPOCH \<Longrightarrow> lw_write8 iter tsc choice t e s = Some (lw_write8_plain tsc choice t e s)"
  by (cases choice) (auto simp: lw_write8_def lw_write8_plain_def split: prod.splits)

lemma Run_logged_loop:
  assumes "\<And>e s. log e s = Some (log' e s)"
  shows "Run log idx len st = Some (logged_loop log' 416 (idx * nat len) len st)"
proof -
  have "lw_store_logged log off = (\<lambda>i st. Some (logged_store log' 416 off i st))" for off
    by (intro ext) (auto simp: lw_store_logged_def logged_store_def assms run_then_Some
        split: sum.splits prod.splits elim!: and_then.elims)
  then show ?thesis by (simp only: Run_def logged_loop_def for_run_Some)
qed

end
