(* ===== verification/EarlierRings.thy ===== *)
theory EarlierRings
  imports EarlierBench RingLog
begin

text \<open>
  The bodies of \<open>__tsan_write8\<close> in \<open>local_writes_benchmarks.cc\<close> that stay in one buffer: the event
  count, the five rings of 1000 slots, and the body that adds timestamps; and what a thread of that
  benchmark does to the array.
\<close>

section \<open>Rings\<close>

definition lw_buf :: "nat \<Rightarrow> bench \<Rightarrow> LocalBuffer" where
  "lw_buf t s = the (lw_heap s (the (lw_log_buffer s t)))"

definition lw_good :: "nat \<Rightarrow> bench \<Rightarrow> bool" where
  "lw_good t s \<longleftrightarrow> (\<exists>a b. lw_log_buffer s t = Some a \<and> lw_heap s a = Some b
     \<and> 0 \<le> lb_events b \<and> lb_events b < 1000)"

interpretation bench_eq: ring_log "\<lambda>e. lw_push (\<lambda>n. n = LB_MAX_EVENTS) t (word e)" "lw_good t"
  "\<lambda>e. [word e]" "\<lambda>s. lb_events (lw_buf t s)" "\<lambda>s. lb_buf (lw_buf t s)" 1 1000 for t word
  by unfold_locales (auto simp: lw_good_def lw_push_def lw_buf_def lb_sizes)

interpretation bench_ge: ring_log "\<lambda>e. lw_push (\<lambda>n. LB_MAX_EVENTS \<le> n) t (word e)" "lw_good t"
  "\<lambda>e. [word e]" "\<lambda>s. lb_events (lw_buf t s)" "\<lambda>s. lb_buf (lw_buf t s)" 1 1000 for t word
  by unfold_locales (auto simp: lw_good_def lw_push_def lw_buf_def lb_sizes inc_mod)

text \<open>The word that each of these bodies stores.\<close>

fun ring_word :: "Instrument \<Rightarrow> (access \<Rightarrow> u64) option" where
  "ring_word BODY_ADDR = Some (\<lambda>(pc, addr, val). addr)"
| "ring_word BODY_DYNBUF = Some (\<lambda>(pc, addr, val). addr)"
| "ring_word BODY_HEADER = Some (\<lambda>(pc, addr, val). encode_header addr)"
| "ring_word BODY_VALUE = Some (\<lambda>(pc, addr, val). encode_value addr val)"
| "ring_word BODY_LOCID = Some (\<lambda>(pc, addr, val). encode_bench pc addr val)"
| "ring_word _ = None"

lemma ring_body_cases:
  assumes "ring_word choice = Some word"
  shows "lw_write8_plain tsc choice t = (\<lambda>e. lw_push (\<lambda>n. n = LB_MAX_EVENTS) t (word e))
    \<or> lw_write8_plain tsc choice t = (\<lambda>e. lw_push (\<lambda>n. LB_MAX_EVENTS \<le> n) t (word e))"
  using assms
  by (cases choice) (auto simp: lw_write8_plain_def lw_write8_def fun_eq_iff split: prod.splits)

lemma ring_body_total:
  assumes "ring_word choice = Some word"
  shows "total_log (lw_write8_plain tsc choice t) (lw_good t)"
  using ring_body_cases [OF assms, of tsc t] bench_eq.total_log_axioms bench_ge.total_log_axioms
  by metis

text \<open>
  The bodies \<open>ADDR\<close>, \<open>DYNBUF\<close>, \<open>HEADER\<close>, \<open>VALUE\<close> and \<open>LOCID\<close> of the earlier benchmark are rings
  of 1000 slots: no call fails, and of any sequence of calls the last 1000 events are in the buffer,
  each at its place and in the body's layout.
\<close>

theorem bench_ring:
  assumes "ring_word choice = Some word" and "lw_good t s"
  shows "\<exists>s'. log_all (lw_write8_plain tsc choice t) es s = Inr s'
    \<and> lb_events (lw_buf t s') = (lb_events (lw_buf t s) + int (length es)) mod 1000
    \<and> (\<forall>j < length es. length es - j \<le> 1000 \<longrightarrow>
         lb_buf (lw_buf t s') ((lb_events (lw_buf t s) + int j) mod 1000) = Some (word (es ! j)))"
  using ring_body_cases [OF assms(1), of tsc t] bench_eq.ring [OF assms(2), of word es]
    bench_ge.ring [OF assms(2), of word es]
  by (auto simp: of_nat_diff)

definition one_local_buffer :: bench where
  "one_local_buffer = init_bench\<lparr>lw_log_buffer := (\<lambda>_. None)(0 \<mapsto> 0)\<rparr>"

lemma one_local_buffer_simps [simp]:
  "lw_log_buffer one_local_buffer 0 = Some 0" "lw_heap one_local_buffer 0 = Some new_LocalBuffer"
  "lw_buf 0 one_local_buffer = new_LocalBuffer" "lw_good 0 one_local_buffer"
  "lw_reads one_local_buffer = 0"
  by (simp_all add: one_local_buffer_def init_bench_def lw_buf_def lw_good_def)

theorem bench_ring_witness:
  "\<exists>s'. log_all (lw_write8_plain (\<lambda>_. 0) BODY_LOCID 0) [(1, 2, 3), (4, 5, 6)] one_local_buffer = Inr s'
     \<and> lb_events (lw_buf 0 s') = 2 \<and> lb_buf (lw_buf 0 s') 1 = Some (encode_bench 4 5 6)"
  using bench_ring [of BODY_LOCID _ 0 one_local_buffer "\<lambda>_. 0" "[(1, 2, 3), (4, 5, 6)]"]
  by (auto simp del: log_all.simps)

section \<open>Counting only\<close>

lemma lw_count_call:
  "lw_log_buffer s t = Some a \<Longrightarrow> lw_heap s a = Some b \<Longrightarrow>
   lw_write8_plain tsc BODY_COUNT t e s = and_then (int_add (lb_events b) 1) (\<lambda>n.
     Inr (lw_store a (b\<lparr>lb_events := n\<rparr>) s))"
  by (cases e) (simp add: lw_write8_plain_def lw_write8_def lw_count_def)

text \<open>
  The body that only counts never resets its counter: after any number of calls it holds the
  number of events, and a call overflows \<open>int\<close> once there have been \<open>2^31 - 1\<close>.
\<close>

theorem count_body:
  assumes "lw_log_buffer s t = Some a" and "lw_heap s a = Some b" and "0 \<le> lb_events b"
  shows "log_all (lw_write8_plain tsc BODY_COUNT t) es s =
    (if es = [] \<or> lb_events b + int (length es) \<le> INT_MAX
     then Inr (lw_store a (b\<lparr>lb_events := lb_events b + int (length es)\<rparr>) s)
     else Inl SignedOverflow)"
  using assms
proof (induction es arbitrary: s b)
  case Nil
  then show ?case by (simp add: lw_store_same)
next
  case (Cons e es)
  show ?case
  proof (cases "lb_events b + 1 \<le> INT_MAX")
    case True
    have "log_all (lw_write8_plain tsc BODY_COUNT t) (e # es) s =
        log_all (lw_write8_plain tsc BODY_COUNT t) es (lw_store a (b\<lparr>lb_events := lb_events b + 1\<rparr>) s)"
      using True Cons.prems by (simp add: lw_count_call int_add_def)
    also have "\<dots> = (if es = [] \<or> lb_events b + 1 + int (length es) \<le> INT_MAX
        then Inr (lw_store a (b\<lparr>lb_events := lb_events b + 1 + int (length es)\<rparr>) s)
        else Inl SignedOverflow)"
      using Cons.IH [of "lw_store a (b\<lparr>lb_events := lb_events b + 1\<rparr>) s"
          "b\<lparr>lb_events := lb_events b + 1\<rparr>"] Cons.prems by simp
    finally show ?thesis using True by (auto simp: ac_simps)
  next
    case False
    with Cons.prems show ?thesis by (simp add: lw_count_call int_add_def)
  qed
qed

theorem count_body_witness:
  "log_all (lw_write8_plain (\<lambda>_. 0) BODY_COUNT 0) (replicate 2147483648 (0, 0, 0)) one_local_buffer
     = Inl SignedOverflow"
  using count_body [of one_local_buffer 0 0 new_LocalBuffer "\<lambda>_. 0" "replicate 2147483648 (0, 0, 0)"]
  by (simp del: log_all.simps replicate.simps)

section \<open>Timestamps\<close>

text \<open>
  With a timestamp after every 128 events, 1024 events and 8 timestamps fill the slots 0 to 1031:
  where the next event goes and how many are left to the next timestamp, after \<open>n\<close> events.
\<close>

definition stamped_pos :: "nat \<Rightarrow> int" where
  "stamped_pos n = int (n mod 1024 + n mod 1024 div 128)"

definition stamped_left :: "nat \<Rightarrow> int" where
  "stamped_left n = 128 - int (n mod 128)"

lemma stamped_split:
  obtains q k j where "n = 1024 * q + 128 * k + j" "k < 8" "j < 128"
    "stamped_pos n = int (129 * k + j)" "stamped_left n = 128 - int j"
proof -
  let ?q = "n div 1024" and ?k = "n mod 1024 div 128" and ?j = "n mod 128"
  have n: "n mod 1024 = 128 * ?k + ?j"
    using div_mult_mod_eq [of "n mod 1024" 128] by (simp add: mod_mod_cancel mult.commute)
  then have "n = 1024 * ?q + 128 * ?k + ?j"
    using mult_div_mod_eq [of 1024 n] by linarith
  moreover have "?k < 8" by (simp add: less_mult_imp_div_less)
  moreover have "stamped_pos n = int (129 * ?k + ?j)" using n by (simp add: stamped_pos_def)
  moreover have "stamped_left n = 128 - int ?j" by (simp add: stamped_left_def)
  moreover have "?j < 128" by simp
  ultimately show ?thesis using that by blast
qed

lemma stamped_bounds:
  "0 \<le> stamped_pos n" "stamped_pos n < 1031" "stamped_pos n mod 129 \<noteq> 128"
  "1 \<le> stamped_left n" "stamped_left n \<le> 128"
  by (rule stamped_split [of n], simp)+

lemma stamped_next:
  assumes "stamped_left n \<noteq> 1"
  shows "stamped_pos (Suc n) = stamped_pos n + 1" "stamped_left (Suc n) = stamped_left n - 1"
proof -
  obtain q k j where n: "n = 1024 * q + 128 * k + j" "k < 8" "j < 128"
    "stamped_pos n = int (129 * k + j)" "stamped_left n = 128 - int j" by (rule stamped_split)
  with assms have j: "Suc j < 128" by simp
  have m: "Suc n = 128 * (8 * q + k) + Suc j" "Suc n = 1024 * q + (128 * k + Suc j)"
    using n(1) by simp_all
  have "Suc n mod 128 = Suc j" using j by (metis m(1) mod_mult_self4 mod_less)
  moreover have "128 * k + Suc j < 1024" using j n(2) by simp
  then have "Suc n mod 1024 = 128 * k + Suc j" by (metis m(2) mod_mult_self4 mod_less)
  ultimately show "stamped_pos (Suc n) = stamped_pos n + 1" "stamped_left (Suc n) = stamped_left n - 1"
    using n(4,5) j by (simp_all add: stamped_pos_def stamped_left_def)
qed

lemma stamped_stamp:
  assumes "stamped_left n = 1"
  shows "stamped_left (Suc n) = 128" "(stamped_pos n + 1) mod 129 = 128"
    "stamped_pos (Suc n) = (if 1000 \<le> stamped_pos n + 2 then 0 else stamped_pos n + 2)"
    "1000 \<le> stamped_pos n + 2 \<longleftrightarrow> Suc n mod 1024 = 0"
proof -
  obtain q k j where n: "n = 1024 * q + 128 * k + j" "k < 8" "j < 128"
    "stamped_pos n = int (129 * k + j)" "stamped_left n = 128 - int j" by (rule stamped_split)
  with assms have j: "j = 127" by simp
  have m: "Suc n = 128 * (8 * q + Suc k)" "Suc n = 1024 * q + 128 * Suc k" using n(1) j by simp_all
  have "Suc n mod 128 = 0" by (metis m(1) mod_mult_self1_is_0)
  then show "stamped_left (Suc n) = 128" by (simp add: stamped_left_def)
  show "(stamped_pos n + 1) mod 129 = 128" using n(4) j by simp
  have "Suc n mod 1024 = (if k = 7 then 0 else 128 * Suc k)"
  proof (cases "k = 7")
    case True
    with m(2) have "Suc n = 1024 * Suc q" by simp
    with True show ?thesis by (metis mod_mult_self1_is_0)
  next
    case False
    with n(2) have "128 * Suc k < 1024" by simp
    with False show ?thesis by (metis m(2) mod_mult_self4 mod_less)
  qed
  then show "1000 \<le> stamped_pos n + 2 \<longleftrightarrow> Suc n mod 1024 = 0"
    "stamped_pos (Suc n) = (if 1000 \<le> stamped_pos n + 2 then 0 else stamped_pos n + 2)"
    using n(2,4) j by (auto simp: stamped_pos_def)
qed

text \<open>A buffer in which exactly the slots 128, 257, and so on hold timestamps.\<close>

definition stamped_slots :: "(int \<Rightarrow> u64 option) \<Rightarrow> bool" where
  "stamped_slots m \<longleftrightarrow> (\<forall>i w. m i = Some w \<longrightarrow>
     0 \<le> i \<and> i < 1032 \<and> (if i mod 129 = 128 then hdr_field w = 1 else hdr_field w = 15))"

definition stamped :: "nat \<Rightarrow> LocalBuffer \<Rightarrow> bool" where
  "stamped n b \<longleftrightarrow> lb_events b = stamped_pos n \<and> lb_eventsToRdtsc b = stamped_left n
     \<and> stamped_slots (lb_buf b)"

lemma hdr_bench: "hdr_field (encode_bench pc addr val) = 15" "hdr_field (encode_rdtsc t) = 1"
  using encode_bench_fields [of pc addr val t] by (simp_all add: hdr_field_def)

lemma stamped_slots_event:
  "stamped_slots m \<Longrightarrow> stamped_slots (m(stamped_pos n \<mapsto> encode_bench pc addr val))"
  using stamped_bounds(1-3) [of n] by (auto simp: stamped_slots_def hdr_bench)

lemma stamped_slots_stamp:
  assumes "stamped_slots m" and "stamped_left n = 1"
  shows "stamped_slots (m(stamped_pos n + 1 \<mapsto> encode_rdtsc t))"
  using assms stamped_bounds(1-2) [of n] stamped_stamp(2) [OF assms(2)]
  by (auto simp: stamped_slots_def hdr_bench)

text \<open>One event where no timestamp is due, and one where it is.\<close>

lemma count_down_call:
  assumes "lw_heap s a = Some b" and "stamped n b"
  shows "lw_count_down a (encode_bench pc addr val) s = Inr (lw_store a
    (b\<lparr>lb_buf := (lb_buf b)(stamped_pos n \<mapsto> encode_bench pc addr val),
       lb_events := stamped_pos n + 1, lb_eventsToRdtsc := stamped_left n - 1\<rparr>) s)"
  using assms stamped_bounds [of n]
  by (simp add: lw_count_down_def stamped_def lb_sizes int_add_def)

lemma stamped_event:
  assumes "stamped n b" and "stamped_left n \<noteq> 1"
  shows "stamped (Suc n) (b\<lparr>lb_buf := (lb_buf b)(stamped_pos n \<mapsto> encode_bench pc addr val),
       lb_events := stamped_pos n + 1, lb_eventsToRdtsc := stamped_left n - 1\<rparr>)"
  using assms stamped_next [OF assms(2)] stamped_slots_event [of "lb_buf b" n]
  by (simp add: stamped_def)

lemma timestamp_call:
  assumes "lw_heap s a = Some b" and "0 \<le> lb_events b" and "lb_events b < LB_LEN"
  shows "lw_timestamp tsc a s = Inr (lw_store a
    (b\<lparr>lb_buf := (lb_buf b)(lb_events b \<mapsto> encode_rdtsc (tsc (lw_reads s))),
       lb_events := lb_events b + 1, lb_eventsToRdtsc := RDTSC_SAMPLING_RATE\<rparr>)
    (s\<lparr>lw_reads := Suc (lw_reads s)\<rparr>))"
  using assms by (simp add: lw_timestamp_def lw_rdtsc_def)

text \<open>Of a sequence of events, the last 1024 and the last 8 timestamps are in the buffer.\<close>

definition bench_word :: "access \<Rightarrow> u64" where
  "bench_word e = (case e of (pc, addr, val) \<Rightarrow> encode_bench pc addr val)"

definition stamp_slot :: "nat \<Rightarrow> int" where
  "stamp_slot k = 129 * int (k mod 8) + 128"

definition slots_hold :: "(nat \<Rightarrow> u64) \<Rightarrow> access list \<Rightarrow> (int \<Rightarrow> u64 option) \<Rightarrow> bool" where
  "slots_hold tsc es m \<longleftrightarrow>
     (\<forall>j < length es. length es - j \<le> 1024 \<longrightarrow> m (stamped_pos j) = Some (bench_word (es ! j)))
     \<and> (\<forall>k < length es div 128. length es div 128 - k \<le> 8 \<longrightarrow> m (stamp_slot k) = Some (encode_rdtsc (tsc k)))"

lemma near_mod_eq:
  assumes "(j::nat) mod c = n mod c" and "j \<le> n" and "n - j < c"
  shows "j = n"
proof -
  from assms(1) [symmetric] have "c dvd n - j" by (simp add: mod_eq_dvd_iff_nat [OF assms(2)])
  with assms(3) have "n - j = 0" by (metis dvd_imp_le not_le neq0_conv)
  with assms(2) show ?thesis by simp
qed

lemma stamped_pos_inj:
  assumes "stamped_pos j = stamped_pos n"
  shows "j mod 1024 = n mod 1024"
proof (rule ccontr)
  have less: "x + x div 128 < y + y div 128" if "x < y" for x y :: nat
    using that div_le_mono [of x y 128] by simp
  assume "j mod 1024 \<noteq> n mod 1024"
  then have "j mod 1024 < n mod 1024 \<or> n mod 1024 < j mod 1024" by arith
  with less [of "j mod 1024" "n mod 1024"] less [of "n mod 1024" "j mod 1024"] assms show False
    by (auto simp: stamped_pos_def)
qed

lemma stamp_slot_neq: "stamp_slot k \<noteq> stamped_pos n"
proof
  assume slot: "stamp_slot k = stamped_pos n"
  have "stamp_slot k mod 129 = 128 mod 129" unfolding stamp_slot_def by (rule mod_mult_self4)
  then show False using stamped_bounds(3) [of n] by (simp add: slot)
qed

text \<open>The next event overwrites none of the last 1023.\<close>

lemma stamped_pos_recent:
  assumes "j < n" and "Suc n - j \<le> 1024"
  shows "stamped_pos j \<noteq> stamped_pos n"
proof
  assume "stamped_pos j = stamped_pos n"
  then have "j mod 1024 = n mod 1024" by (rule stamped_pos_inj)
  moreover have "j \<le> n" "n - j < 1024" using assms by arith+
  ultimately have "j = n" by (rule near_mod_eq)
  with assms(1) show False by simp
qed

lemma slots_hold_event:
  assumes "slots_hold tsc es m" and "Suc (length es) mod 128 \<noteq> 0"
  shows "slots_hold tsc (es @ [e]) (m(stamped_pos (length es) \<mapsto> bench_word e))"
  using assms stamped_pos_recent
  by (auto simp: slots_hold_def stamp_slot_neq nth_append less_Suc_eq div_Suc)

lemma slots_hold_stamp:
  assumes "slots_hold tsc es m" and "Suc (length es) mod 128 = 0"
  shows "slots_hold tsc (es @ [e]) (m(stamped_pos (length es) \<mapsto> bench_word e,
    stamped_pos (length es) + 1 \<mapsto> encode_rdtsc (tsc (length es div 128))))"
proof -
  let ?n = "length es" and ?k = "length es div 128"
  obtain q k j where n: "?n = 1024 * q + 128 * k + j" "k < 8" "j < 128"
    "stamped_pos ?n = int (129 * k + j)" "stamped_left ?n = 128 - int j" by (rule stamped_split)
  have "Suc j = 128"
  proof (rule ccontr)
    assume "Suc j \<noteq> 128"
    with n(3) have "Suc j < 128" by simp
    moreover have "Suc ?n = 128 * (8 * q + k) + Suc j" using n(1) by simp
    ultimately have "Suc ?n mod 128 = Suc j" by (metis mod_mult_self4 mod_less)
    with assms(2) show False by simp
  qed
  then have j: "j = 127" by simp
  have "?k = 8 * q + k" using n(1) j by simp
  then have slot: "stamped_pos ?n + 1 = stamp_slot ?k" using n(2,4) j by (simp add: stamp_slot_def)
  have "stamp_slot i \<noteq> stamp_slot ?k" if "i < ?k" "Suc ?k - i \<le> 8" for i
  proof -
    from that have "i \<le> ?k" "?k - i < 8" by arith+
    with near_mod_eq [of i 8 ?k] that(1) show ?thesis by (auto simp: stamp_slot_def)
  qed
  moreover have "Suc ?n div 128 = Suc ?k" using assms(2) by (simp add: div_Suc)
  moreover have "stamped_pos i \<noteq> stamp_slot ?k" for i using stamp_slot_neq [of ?k i] by simp
  ultimately show ?thesis
    using assms(1) stamped_pos_recent unfolding slot
    by (auto simp: slots_hold_def stamp_slot_neq nth_append less_Suc_eq)
qed

lemma rdtsc_body_call:
  assumes "lw_log_buffer s t = Some a" and "lw_heap s a = Some b" and "stamped n b"
  shows "\<exists>b'. lw_write8_plain tsc BODY_RDTSC t e s =
      Inr (lw_store a b' (s\<lparr>lw_reads := lw_reads s + (if Suc n mod 128 = 0 then 1 else 0)\<rparr>))
    \<and> stamped (Suc n) b'
    \<and> lb_buf b' = (if Suc n mod 128 = 0
        then (lb_buf b)(stamped_pos n \<mapsto> bench_word e, stamped_pos n + 1 \<mapsto> encode_rdtsc (tsc (lw_reads s)))
        else (lb_buf b)(stamped_pos n \<mapsto> bench_word e))"
proof -
  obtain pc addr val where e: "e = (pc, addr, val)" by (cases e)
  have left: "stamped_left n = 1 \<longleftrightarrow> Suc n mod 128 = 0"
    by (auto simp: stamped_left_def mod_Suc)
  let ?b1 = "b\<lparr>lb_buf := (lb_buf b)(stamped_pos n \<mapsto> encode_bench pc addr val),
       lb_events := stamped_pos n + 1, lb_eventsToRdtsc := stamped_left n - 1\<rparr>"
  note body = e bench_word_def lw_write8_plain_def lw_write8_def lw_rdtsc_body_def
  show ?thesis
  proof (cases "stamped_left n = 1")
    case False
    with assms left stamped_event [OF assms(3) False] show ?thesis
      by (intro exI [of _ ?b1]) (simp add: body count_down_call)
  next
    case True
    note stamp = stamped_stamp [OF True]
    let ?b2 = "?b1\<lparr>lb_buf := (lb_buf ?b1)(stamped_pos n + 1 \<mapsto> encode_rdtsc (tsc (lw_reads s))),
       lb_events := stamped_pos (Suc n), lb_eventsToRdtsc := 128\<rparr>"
    have "lw_write8_plain tsc BODY_RDTSC t e s
        = Inr (lw_store a ?b2 (s\<lparr>lw_reads := Suc (lw_reads s)\<rparr>))"
      using assms(1,2) True stamped_bounds [of n] stamp(3)
      by (cases b) (simp add: body count_down_call [OF assms(2,3)] tsan_rdtsc_def timestamp_call
          lb_sizes lw_store_def add.commute)
    moreover have "stamped (Suc n) ?b2"
      using stamp(1) stamped_slots_stamp [OF stamped_slots_event True] assms(3)
      by (simp add: stamped_def)
    ultimately show ?thesis using left True by (intro exI [of _ ?b2]) (simp add: body)
  qed
qed

text \<open>
  C37: the body with timestamps never leaves the buffer and reads the counter once for every 128
  events; after \<open>n\<close> events the next one goes to \<open>stamped_pos n\<close>, so that the position starts over
  after 1024 events. The last 1024 events are in the buffer, each where the position was, and the values
  of the last 8 reads of the counter are in the slots 128, 257, and so on up to 1031, which hold nothing
  but timestamps.
\<close>

theorem rdtsc_body:
  assumes "lw_log_buffer s t = Some a" and "lw_heap s a = Some b"
    and "lb_events b = 0" and "lb_eventsToRdtsc b = 128" and "lb_buf b = (\<lambda>_. None)"
  shows "\<exists>s' b'. log_all (lw_write8_plain tsc BODY_RDTSC t) es s = Inr s'
    \<and> lw_reads s' = lw_reads s + length es div 128
    \<and> lw_heap s' = (lw_heap s)(a \<mapsto> b')
    \<and> lb_events b' = stamped_pos (length es) \<and> lb_eventsToRdtsc b' = stamped_left (length es)
    \<and> stamped_slots (lb_buf b')
    \<and> (\<forall>j < length es. length es - j \<le> 1024 \<longrightarrow>
         lb_buf b' (stamped_pos j) = Some (bench_word (es ! j)))
    \<and> (\<forall>k < length es div 128. length es div 128 - k \<le> 8 \<longrightarrow>
         lb_buf b' (129 * int (k mod 8) + 128) = Some (encode_rdtsc (tsc (lw_reads s + k))))"
proof -
  let ?tsc = "\<lambda>k. tsc (lw_reads s + k)"
  have "\<exists>b'. log_all (lw_write8_plain tsc BODY_RDTSC t) es s =
      Inr (lw_store a b' (s\<lparr>lw_reads := lw_reads s + length es div 128\<rparr>)) \<and> stamped (length es) b'
      \<and> slots_hold ?tsc es (lb_buf b')"
  proof (induction es rule: rev_induct)
    case Nil
    with assms show ?case
      by (intro exI [of _ b])
        (simp add: stamped_def stamped_pos_def stamped_left_def stamped_slots_def slots_hold_def lw_store_same)
  next
    case (snoc e es)
    then obtain b1 where b1: "log_all (lw_write8_plain tsc BODY_RDTSC t) es s =
      Inr (lw_store a b1 (s\<lparr>lw_reads := lw_reads s + length es div 128\<rparr>))" "stamped (length es) b1"
      "slots_hold ?tsc es (lb_buf b1)" by blast
    let ?s1 = "lw_store a b1 (s\<lparr>lw_reads := lw_reads s + length es div 128\<rparr>)"
    have "lw_log_buffer ?s1 t = Some a" "lw_heap ?s1 a = Some b1" using assms(1) by simp_all
    from rdtsc_body_call [OF this b1(2), of tsc e] obtain b2 where
      b2: "lw_write8_plain tsc BODY_RDTSC t e ?s1
        = Inr (lw_store a b2 (s\<lparr>lw_reads := lw_reads s + length (es @ [e]) div 128\<rparr>))"
      "stamped (Suc (length es)) b2" "slots_hold ?tsc (es @ [e]) (lb_buf b2)"
      using slots_hold_event [OF b1(3), of e] slots_hold_stamp [OF b1(3), of e]
      by (cases "Suc (length es) mod 128 = 0") (auto simp: div_Suc lw_store_def)
    with b1(1) show ?case by (intro exI [of _ b2]) (simp add: log_all_snoc)
  qed
  then show ?thesis by (auto simp: stamped_def slots_hold_def stamp_slot_def)
qed

text \<open>A full round; the counter has the value of the number of reads.\<close>

theorem rdtsc_body_witness:
  "\<exists>s' b'. log_all (lw_write8_plain (\<lambda>k. word_of_nat k) BODY_RDTSC 0) (replicate 1024 (1, 2, 3)) one_local_buffer
       = Inr s' \<and> lw_reads s' = 8 \<and> lw_heap s' 0 = Some b'
     \<and> lb_buf b' 0 = Some (encode_bench 1 2 3) \<and> lb_buf b' 1031 = Some (encode_rdtsc 7)"
proof -
  let ?es = "replicate 1024 (1, 2, 3) :: access list"
  from rdtsc_body [of one_local_buffer 0 0 new_LocalBuffer "\<lambda>k. word_of_nat k" ?es] obtain s' b' where
    s': "log_all (lw_write8_plain (\<lambda>k. word_of_nat k) BODY_RDTSC 0) ?es one_local_buffer = Inr s'"
    "lw_reads s' = 8" "lw_heap s' 0 = Some b'"
    and events: "\<And>j. j < 1024 \<Longrightarrow> lb_buf b' (stamped_pos j) = Some (bench_word (1, 2, 3))"
    and stamps: "\<And>k. k < 8 \<Longrightarrow> lb_buf b' (129 * int (k mod 8) + 128) = Some (encode_rdtsc (word_of_nat k))"
    by (auto simp: RDTSC_SAMPLING_RATE_def simp del: log_all.simps replicate.simps)
  from s' events [of 0] stamps [of 7] show ?thesis
    by (intro exI [of _ s'] exI [of _ b']) (simp add: stamped_pos_def bench_word_def)
qed

end
