(* ===== verification/EarlierEpochs.thy ===== *)
theory EarlierEpochs
  imports EarlierRings
begin

text \<open>
  The body of \<open>__tsan_write8\<close> in \<open>local_writes_benchmarks.cc\<close> that ends epochs: the election of the
  coordinator, what \<open>endEpoch\<close> does, and what becomes of the buffers from epoch to epoch; and the
  threads of that benchmark.
\<close>

section \<open>One coordinator\<close>

definition epoch_ready :: "nat \<Rightarrow> bench \<Rightarrow> bool" where
  "epoch_ready a s \<longleftrightarrow> (\<exists>b. lw_heap s a = Some b \<and> INT_MIN \<le> lb_epoch b \<and> lb_epoch b < INT_MAX)"

interpretation bench_election: epoch_election inc_global_epoch global_epoch
  "\<lambda>a s. lb_epoch (the (lw_heap s a))" epoch_ready
proof unfold_locales
  fix a s
  assume "epoch_ready a s"
  then show "\<exists>won s'. inc_global_epoch a s = Inr (won, s')"
    by (auto simp: inc_global_epoch_def epoch_ready_def int_add_def)
qed (auto simp: inc_global_epoch_def epoch_ready_def and_then_Inr_iff int_add_Inr_iff
    lw_load_Inr_iff split: if_splits)

text \<open>
  In the earlier benchmark, too, of all threads that find their buffers of the current epoch full
  exactly one, the first, becomes the coordinator and the others see the epoch advanced.
\<close>

theorem bench_one_coordinator:
  assumes "as \<noteq> []"
    and "\<And>a. a \<in> set as \<Longrightarrow> \<exists>b. lw_heap s a = Some b \<and> lb_epoch b = global_epoch s"
    and "INT_MIN \<le> global_epoch s" and "global_epoch s < INT_MAX"
  shows "\<exists>s'. attempt_all inc_global_epoch as s = Inr (True # replicate (length as - 1) False, s')
    \<and> global_epoch s' = global_epoch s + 1"
  using bench_election.one_winner [OF assms(1), of s] assms(2-4) by (fastforce simp: epoch_ready_def)

definition two_full_buffers :: bench where
  "two_full_buffers = init_bench\<lparr>lw_heap := (\<lambda>_. Some (new_LocalBuffer\<lparr>lb_epoch := 0\<rparr>))\<rparr>"

theorem bench_one_coordinator_witness:
  "\<exists>s'. attempt_all inc_global_epoch [0, 1, 2] two_full_buffers = Inr ([True, False, False], s')
     \<and> global_epoch s' = 1"
  using bench_one_coordinator [of "[0, 1, 2]" two_full_buffers]
  by (simp add: two_full_buffers_def init_bench_def numeral_2_eq_2 del: attempt_all.simps)

section \<open>The end of an epoch\<close>

text \<open>The wait that begins with reading \<open>r\<close> ends after \<open>n\<close> rounds.\<close>

definition wait_rounds :: "(nat \<Rightarrow> u64) \<Rightarrow> nat \<Rightarrow> nat \<Rightarrow> bool" where
  "wait_rounds tsc r n \<longleftrightarrow>
     (\<forall>k < n. tsc (r + 1 + k) < tsc r + 1000) \<and> \<not> tsc (r + 1 + n) < tsc r + 1000"

definition nulled :: "nat set \<Rightarrow> (nat \<Rightarrow> nat option) \<Rightarrow> (nat \<Rightarrow> nat option)" where
  "nulled T f = (\<lambda>t. if t \<in> T then None else f t)"

lemma nulled_twice [simp]: "nulled T (nulled T f) = nulled T f"
  by (simp add: nulled_def fun_eq_iff)

lemma reclaim_rounds:
  assumes "\<forall>k < n. tsc (lw_reads s + k) < stop" and "\<not> tsc (lw_reads s + n) < stop"
  shows "reclaim tsc stop s = Some (s\<lparr>lw_reads := lw_reads s + n + 1,
    lw_log_buffer := (if n = 0 then lw_log_buffer s
                      else nulled (threadLocalBufs s) (lw_log_buffer s))\<rparr>)"
  using assms
proof (induction n arbitrary: s)
  case 0
  then show ?case by (subst reclaim.simps) (simp add: lw_rdtsc_def)
next
  case (Suc n)
  let ?s1 = "s\<lparr>lw_reads := Suc (lw_reads s),
    lw_log_buffer := nulled (threadLocalBufs s) (lw_log_buffer s)\<rparr>"
  have "tsc (lw_reads s) < stop" using Suc.prems(1) by force
  then have "reclaim tsc stop s = reclaim tsc stop ?s1"
    by (subst reclaim.simps) (simp add: lw_rdtsc_def nulled_def cong: if_cong)
  moreover have "\<forall>k < n. tsc (lw_reads ?s1 + k) < stop" using Suc.prems(1) by fastforce
  moreover have "\<not> tsc (lw_reads ?s1 + n) < stop" using Suc.prems(2) by simp
  ultimately show ?case using Suc.IH [of ?s1] by (cases s) simp
qed

definition reset_all :: "nat set \<Rightarrow> (nat \<Rightarrow> LocalBuffer option) \<Rightarrow> (nat \<Rightarrow> LocalBuffer option)" where
  "reset_all A h = (\<lambda>a. if a \<in> A then map_option LocalBuffer_reset (h a) else h a)"

lemma reset_twice [simp]: "LocalBuffer_reset (LocalBuffer_reset b) = LocalBuffer_reset b"
  by (simp add: LocalBuffer_reset_def)

lemma return_bufs_all:
  assumes "\<forall>a \<in> set as. lw_heap s a \<noteq> None"
  shows "return_bufs (map Some as) s = Inr (s\<lparr>lw_heap := reset_all (set as) (lw_heap s),
    lw_freeBufs := lw_freeBufs s @ as\<rparr>)"
  using assms
proof (induction as arbitrary: s)
  case Nil
  then show ?case by (simp add: reset_all_def)
next
  case (Cons a as)
  then obtain b where b: "lw_heap s a = Some b" by auto
  let ?s1 = "(lw_store a (LocalBuffer_reset b) s)\<lparr>lw_freeBufs := lw_freeBufs s @ [a]\<rparr>"
  have "\<forall>a \<in> set as. lw_heap ?s1 a \<noteq> None" using Cons.prems by simp
  from Cons.IH [OF this] b have "return_bufs (map Some (a # as)) s =
    Inr (?s1\<lparr>lw_heap := reset_all (set as) (lw_heap ?s1), lw_freeBufs := lw_freeBufs ?s1 @ as\<rparr>)"
    by (simp add: fun_upd_def cong: if_cong)
  moreover have "reset_all (set as) (lw_heap ?s1) = reset_all (set (a # as)) (lw_heap s)"
    using b by (auto simp: reset_all_def fun_eq_iff)
  ultimately show ?case by (cases s) (simp add: lw_store_def)
qed

lemma endEpoch_eq:
  assumes "wait_rounds tsc (lw_reads s) n"
    and "bufsInUse s @ map (lw_log_buffer s) (iter (threadLocalBufs s)) = map Some as"
    and "\<forall>a \<in> set as. lw_heap s a \<noteq> None"
  shows "endEpoch iter tsc s = Some (Inr (s\<lparr>
    lw_heap := reset_all (set as) (lw_heap s),
    lw_freeBufs := lw_freeBufs s @ as,
    bufsInUse := map Some as,
    threadLocalBufs := {},
    lw_log_buffer := (if n = 0 then lw_log_buffer s
                      else nulled (threadLocalBufs s) (lw_log_buffer s)),
    lw_reads := lw_reads s + n + 2\<rparr>))"
proof -
  let ?s2 = "s\<lparr>bufsInUse := map Some as, lw_reads := Suc (lw_reads s)\<rparr>"
  let ?s3 = "?s2\<lparr>lw_reads := lw_reads s + n + 2,
    lw_log_buffer := (if n = 0 then lw_log_buffer s
                      else nulled (threadLocalBufs s) (lw_log_buffer s))\<rparr>"
  have "reclaim tsc (tsc (lw_reads s) + 1000) ?s2 = Some ?s3"
    using assms(1) by (subst reclaim_rounds [of n]) (auto simp: wait_rounds_def)
  moreover have "return_bufs (map Some as) (?s3\<lparr>threadLocalBufs := {}\<rparr>) =
    Inr (?s3\<lparr>threadLocalBufs := {}, lw_heap := reset_all (set as) (lw_heap s),
      lw_freeBufs := lw_freeBufs s @ as\<rparr>)"
    using assms(3) by (subst return_bufs_all) simp_all
  ultimately show ?thesis
    using assms(2) by (cases s) (simp add: endEpoch_def lw_rdtsc_def)
qed

text \<open>
  C31: \<open>endEpoch\<close> returns as soon as the counter has advanced by 1000 cycles; then every buffer of
  \<open>bufsInUse\<close>, those of the threads that take part in the epoch and those of all earlier epochs, is
  reset and appended to the pool, and \<open>bufsInUse\<close> keeps them. The threads' pointers are null only if
  the wait has had at least one round: where the counter has passed the deadline at its first test
  (a coordinator that was descheduled), the threads go on with buffers of the pool.
\<close>

theorem endEpoch_contract:
  assumes "wait_rounds tsc (lw_reads s) n"
    and "bufsInUse s @ map (lw_log_buffer s) (iter (threadLocalBufs s)) = map Some as"
    and "\<forall>a \<in> set as. lw_heap s a \<noteq> None"
  shows "endEpoch iter tsc s = Some (Inr (s\<lparr>
    lw_heap := reset_all (set as) (lw_heap s),
    lw_freeBufs := lw_freeBufs s @ as,
    bufsInUse := map Some as,
    threadLocalBufs := {},
    lw_log_buffer := (if n = 0 then lw_log_buffer s
                      else nulled (threadLocalBufs s) (lw_log_buffer s)),
    lw_reads := lw_reads s + n + 2\<rparr>))"
  using assms by (rule endEpoch_eq)

theorem endEpoch_contract_witness:
  "\<exists>s'. endEpoch (\<lambda>_. [0]) (\<lambda>i. if i = 0 then 0 else 5000)
       (one_local_buffer\<lparr>threadLocalBufs := {0}\<rparr>) = Some (Inr s')
     \<and> lw_freeBufs s' = [0] \<and> lw_log_buffer s' 0 = Some 0"
  using endEpoch_contract [of "\<lambda>i. if i = 0 then 0 else 5000" "one_local_buffer\<lparr>threadLocalBufs := {0}\<rparr>"
      0 "\<lambda>_. [0]" "[0]"]
  by (simp add: wait_rounds_def one_local_buffer_def init_bench_def)

section \<open>From epoch to epoch\<close>

text \<open>Any number of calls by one thread.\<close>

fun calls :: "(access \<Rightarrow> bench \<Rightarrow> bench run) \<Rightarrow> access list \<Rightarrow> bench \<Rightarrow> bench run" where
  "calls log [] s = Some (Inr s)"
| "calls log (e # es) s = run_then (log e s) (calls log es)"

lemma calls_append: "calls log (es @ fs) s = run_then (calls log es s) (calls log fs)"
proof (induction es arbitrary: s)
  case Nil
  show ?case by simp
next
  case (Cons e es)
  show ?case
    by (cases "log e s" rule: run_then.cases [of "(_, calls log es)"]) (simp_all add: Cons.IH)
qed

text \<open>A call that does not end the epoch.\<close>

lemma epoch_body_call:
  assumes "lw_log_buffer s t = Some a" and "lw_heap s a = Some b" and "stamped n b"
    and "Suc n mod 1024 \<noteq> 0"
  shows "\<exists>b' r. lw_write8 iter tsc BODY_EPOCH t e s = Some (Inr (lw_store a b' (s\<lparr>lw_reads := r\<rparr>)))
    \<and> stamped (Suc n) b' \<and> lb_epoch b' = lb_epoch b
    \<and> r = lw_reads s + (if Suc n mod 128 = 0 then 1 else 0)"
proof -
  obtain pc addr val where e: "e = (pc, addr, val)" by (cases e)
  have left: "stamped_left n = 1 \<longleftrightarrow> Suc n mod 128 = 0"
    by (auto simp: stamped_left_def mod_Suc)
  let ?b1 = "b\<lparr>lb_buf := (lb_buf b)(stamped_pos n \<mapsto> encode_bench pc addr val),
       lb_events := stamped_pos n + 1, lb_eventsToRdtsc := stamped_left n - 1\<rparr>"
  show ?thesis
  proof (cases "stamped_left n = 1")
    case False
    with assms(1,2) left stamped_event [OF assms(3) False] show ?thesis
      by (intro exI [of _ ?b1])
        (simp add: e lw_write8_def lw_epoch_body_def count_down_call [OF assms(2,3)])
  next
    case True
    note stamp = stamped_stamp [OF True]
    let ?b2 = "?b1\<lparr>lb_buf := (lb_buf ?b1)(stamped_pos n + 1 \<mapsto> encode_rdtsc (tsc (lw_reads s))),
       lb_events := stamped_pos (Suc n), lb_eventsToRdtsc := 128\<rparr>"
    have "stamped_pos (Suc n) = stamped_pos n + 2" "\<not> 1000 \<le> stamped_pos n + 2"
      using stamp(3,4) assms(4) by simp_all
    then have "lw_write8 iter tsc BODY_EPOCH t e s
        = Some (Inr (lw_store a ?b2 (s\<lparr>lw_reads := Suc (lw_reads s)\<rparr>)))"
      using assms(1,2) True stamped_bounds [of n]
      by (cases b) (simp add: e lw_write8_def lw_epoch_body_def count_down_call [OF assms(2,3)]
          tsan_mem_access_slow_def timestamp_call lb_sizes lw_store_def add.commute)
    moreover have "stamped (Suc n) ?b2"
      using stamp(1) stamped_slots_stamp [OF stamped_slots_event True] assms(3)
      by (simp add: stamped_def)
    ultimately show ?thesis using left True by (intro exI [of _ ?b2]) simp
  qed
qed

lemma epoch_calls:
  assumes "lw_log_buffer s t = Some a" and "lw_heap s a = Some b" and "stamped 0 b"
  shows "length es \<le> 1023 \<Longrightarrow>
    \<exists>b' r. calls (lw_write8 iter tsc BODY_EPOCH t) es s = Some (Inr (lw_store a b' (s\<lparr>lw_reads := r\<rparr>)))
    \<and> stamped (length es) b' \<and> lb_epoch b' = lb_epoch b \<and> r = lw_reads s + length es div 128"
proof (induction es rule: rev_induct)
  case Nil
  with assms show ?case by (intro exI [of _ b]) (simp add: lw_store_same)
next
  case (snoc e es)
  then obtain b1 r1 where b1: "calls (lw_write8 iter tsc BODY_EPOCH t) es s =
    Some (Inr (lw_store a b1 (s\<lparr>lw_reads := r1\<rparr>)))" "stamped (length es) b1"
    "lb_epoch b1 = lb_epoch b" "r1 = lw_reads s + length es div 128" by auto
  let ?s1 = "lw_store a b1 (s\<lparr>lw_reads := r1\<rparr>)"
  have "lw_log_buffer ?s1 t = Some a" "lw_heap ?s1 a = Some b1" "Suc (length es) mod 1024 \<noteq> 0"
    using assms(1) snoc.prems by simp_all
  from epoch_body_call [OF this(1,2) b1(2) this(3), of iter tsc e] b1 show ?case
    by (auto simp: calls_append div_Suc lw_store_def)
qed

text \<open>A clock that advances by \<open>d\<close> cycles from one reading to the next.\<close>

definition steady :: "nat \<Rightarrow> nat \<Rightarrow> u64" where
  "steady d i = of_nat (i * d)"

lemma steady_rounds:
  assumes "0 < d" and "d < 1000" and "r \<le> 2 ^ 50"
  shows "wait_rounds (steady d) r (999 div d)" and "0 < 999 div d" and "999 div d \<le> 999"
proof -
  have u: "unat (steady d i) = i * d" if "i \<le> 2 ^ 51" for i
  proof -
    have "i * d \<le> 2 ^ 51 * 1000" using that assms(2) by (intro mult_le_mono) simp_all
    then show ?thesis
      by (simp add: steady_def unat_of_nat take_bit_nat_eq_self del: of_nat_mult)
  qed
  have stop: "unat (steady d r + 1000) = r * d + 1000"
  proof -
    have "r * d \<le> 2 ^ 50 * 1000" using assms(2,3) by (intro mult_le_mono) simp_all
    then have "unat (steady d r) + unat (1000 :: u64) < 2 ^ LENGTH(64)" using u [of r] assms(3) by simp
    from unat_add_lem [THEN iffD1, OF this] u [of r] assms(3) show ?thesis by simp
  qed
  show le: "999 div d \<le> 999" by simp
  have test: "steady d (r + 1 + k) < steady d r + 1000 \<longleftrightarrow> Suc k * d < 1000" if "k \<le> 999 div d" for k
  proof -
    have "r + 1 + k \<le> 2 ^ 50 + 1000" using that le assms(3) by linarith
    also have "\<dots> \<le> 2 ^ 51" by simp
    finally have "r + 1 + k \<le> 2 ^ 51" .
    from u [OF this] stop show ?thesis by (simp add: word_less_nat_alt algebra_simps)
  qed
  have "Suc k * d < 1000" if "k < 999 div d" for k
  proof -
    have "Suc k * d \<le> 999 div d * d" using that by (intro mult_le_mono) simp_all
    also have "\<dots> \<le> 999" by simp
    finally show ?thesis by simp
  qed
  moreover have "999 < Suc (999 div d) * d"
    using assms(1) dividend_less_div_times [of d 999] by simp
  then have "\<not> Suc (999 div d) * d < 1000" by simp
  ultimately show "wait_rounds (steady d) r (999 div d)"
    unfolding wait_rounds_def using test by simp
  show "0 < 999 div d" using assms by (simp add: div_greater_zero_iff)
qed

text \<open>
  The only thread at the start of epoch \<open>k\<close>: its buffer \<open>a\<close> is fresh, \<open>bufsInUse\<close> holds it \<open>k\<close>
  times and the pool \<open>k (k - 1) / 2\<close> times.
\<close>

definition epoch_start :: "nat \<Rightarrow> nat \<Rightarrow> nat \<Rightarrow> bench \<Rightarrow> bool" where
  "epoch_start t a k s \<longleftrightarrow> lw_log_buffer s t = Some a
     \<and> (\<exists>b. lw_heap s a = Some b \<and> stamped 0 b \<and> lb_epoch b = int k)
     \<and> global_epoch s = int k \<and> threadLocalBufs s = {t} \<and> bufsInUse s = replicate k (Some a)
     \<and> lw_freeBufs s = replicate (k * (k - 1) div 2) a \<and> lw_reads s \<le> 2000 * k"

lemma pool_count: "k * (k - 1) div 2 + Suc k = Suc (Suc k * k div 2)" for k :: nat
proof -
  have "k * (k - 1) + 2 * k = Suc k * k" by (cases k) simp_all
  then have "Suc k * k div 2 = (k * (k - 1) + k * 2) div 2" by (simp only: mult.commute [of k 2])
  then show ?thesis by (simp only: div_mult_self1 [OF zero_neq_numeral [symmetric]] add_Suc_right)
qed

text \<open>The 1024th event of an epoch ends it.\<close>

lemma epoch_end:
  assumes start: "lw_log_buffer s t = Some a" "lw_heap s a = Some b" "stamped 1023 b"
    "lb_epoch b = int k" "global_epoch s = int k" "threadLocalBufs s = {t}"
    "bufsInUse s = replicate k (Some a)" "lw_freeBufs s = replicate (k * (k - 1) div 2) a"
    "lw_reads s \<le> 2000 * k + 7"
    and clock: "0 < d" "d < 1000" and "int k < INT_MAX" and iter: "iter {t} = [t]"
  shows "\<exists>s'. lw_write8 iter (steady d) BODY_EPOCH t e s = Some (Inr s') \<and> epoch_start t a (Suc k) s'"
proof -
  obtain pc addr val where e: "e = (pc, addr, val)" by (cases e)
  have left: "stamped_left 1023 = 1" "stamped_pos 1023 = 1030"
    by (simp_all add: stamped_left_def stamped_pos_def)
  let ?tsc = "steady d"
  let ?w = "encode_bench pc addr val" and ?stamp = "encode_rdtsc (?tsc (lw_reads s))"
  let ?b1 = "b\<lparr>lb_buf := (lb_buf b)(1030 \<mapsto> ?w), lb_events := 1031, lb_eventsToRdtsc := 0\<rparr>"
  let ?b2 = "?b1\<lparr>lb_buf := (lb_buf ?b1)(1031 \<mapsto> ?stamp), lb_events := 1032, lb_eventsToRdtsc := 128\<rparr>"
  let ?s2 = "(lw_store a ?b2 s)\<lparr>lw_reads := Suc (lw_reads s), global_epoch := int k + 1\<rparr>"
  let ?as = "replicate (Suc k) a"
  let ?s3 = "?s2\<lparr>lw_heap := reset_all (set ?as) (lw_heap ?s2), lw_freeBufs := lw_freeBufs ?s2 @ ?as,
    bufsInUse := map Some ?as, threadLocalBufs := {},
    lw_log_buffer := nulled (threadLocalBufs ?s2) (lw_log_buffer ?s2),
    lw_reads := lw_reads ?s2 + 999 div d + 2\<rparr>"
  have count: "lw_count_down a ?w s = Inr (lw_store a ?b1 s)"
    using count_down_call [OF start(2,3)] by (simp add: left)
  have stamp: "lw_timestamp ?tsc a (lw_store a ?b1 s)
      = Inr ((lw_store a ?b2 s)\<lparr>lw_reads := Suc (lw_reads s)\<rparr>)"
    using timestamp_call [of "lw_store a ?b1 s" a ?b1 ?tsc]
    by (cases s; cases b) (simp add: lb_sizes lw_store_def)
  have "2000 * k + 8 \<le> 2 ^ 50" using assms(12) by simp
  then have "lw_reads ?s2 \<le> 2 ^ 50" using start(9) by simp
  note wait = steady_rounds [OF clock this]
  have "bufsInUse ?s2 @ map (lw_log_buffer ?s2) (iter (threadLocalBufs ?s2)) = map Some ?as"
    using start(1,6,7) iter by (simp add: replicate_append_same)
  moreover have "\<forall>c \<in> set ?as. lw_heap ?s2 c \<noteq> None" by simp
  ultimately have epoch: "endEpoch iter ?tsc ?s2 = Some (Inr ?s3)"
    using endEpoch_eq [OF wait(1), of iter ?as] wait(2) by simp
  have slots: "stamped_slots (lb_buf ?b2)"
    using stamped_slots_stamp [OF stamped_slots_event [of "lb_buf b" 1023] left(1)] start(3) left(2)
    by (simp add: stamped_def)
  have "lw_freeBufs ?s3 = replicate (k * (k - 1) div 2) a @ replicate (Suc k) a"
    using start(8) by simp
  also have "\<dots> = replicate (Suc (Suc k * k div 2)) a"
    by (simp only: replicate_add [symmetric] pool_count)
  finally have pool: "lw_freeBufs ?s3 = replicate (Suc (Suc k * k div 2)) a" .
  obtain s4 tid where tid: "lw_tid t (?s3\<lparr>lw_freeBufs := butlast (lw_freeBufs ?s3)\<rparr>) = (tid, s4)"
    by (cases "lw_tid t (?s3\<lparr>lw_freeBufs := butlast (lw_freeBufs ?s3)\<rparr>)")
  then have s4: "lw_heap s4 = lw_heap ?s3" "global_epoch s4 = int k + 1" "threadLocalBufs s4 = {}"
    "bufsInUse s4 = map Some ?as" "lw_freeBufs s4 = butlast (lw_freeBufs ?s3)"
    "lw_reads s4 = lw_reads ?s3" "lw_log_buffer s4 = lw_log_buffer ?s3"
    by (auto simp: lw_tid_def Let_def split: option.splits)
  let ?b4 = "(LocalBuffer_reset ?b2)\<lparr>lb_tid := tid, lb_epoch := int k + 1\<rparr>"
  let ?s5 = "(lw_store a ?b4 s4)\<lparr>lw_log_buffer := (lw_log_buffer s4)(t \<mapsto> a), threadLocalBufs := {t}\<rparr>"
  have "lw_allocBuffer t ?s3 = Inr ?s5"
  proof -
    have "lw_take_buffer ?s3 = (a, ?s3\<lparr>lw_freeBufs := butlast (lw_freeBufs ?s3)\<rparr>)"
      unfolding lw_take_buffer_def pool by (simp del: replicate_Suc add: last_replicate)
    moreover have "lw_heap s4 a = Some (LocalBuffer_reset ?b2)" using s4(1) by (simp add: reset_all_def)
    ultimately show ?thesis using tid s4(2,3) by (simp add: lw_allocBuffer_def)
  qed
  then have "lw_write8 iter ?tsc BODY_EPOCH t e s = Some (Inr ?s5)"
    using start(1,2,4,5) assms(12) count stamp epoch
    by (simp add: e lw_write8_def lw_epoch_body_def tsan_mem_access_slow_def inc_global_epoch_def
        int_add_def lb_sizes)
  moreover have "epoch_start t a (Suc k) ?s5"
  proof -
    have "butlast (lw_freeBufs ?s3) = replicate (Suc k * k div 2) a"
      unfolding pool by (simp only: replicate_Suc replicate_append_same [symmetric] butlast_snoc)
    moreover have "stamped 0 ?b4"
      using slots by (simp add: stamped_def stamped_pos_def stamped_left_def RDTSC_SAMPLING_RATE_def)
    moreover have "lw_reads s + 999 div d + 3 \<le> 2000 * Suc k"
      using start(9) wait(3) unfolding mult_Suc_right by linarith
    ultimately show ?thesis using s4 by (simp add: epoch_start_def)
  qed
  ultimately show ?thesis by blast
qed

lemma start_epoch_start:
  "\<exists>s. Thread_start BODY_EPOCH t init_bench = Inr s \<and> epoch_start t 8 0 s"
  by (simp add: Thread_start_def lw_allocBuffer_def lw_take_buffer_def lw_tid_def init_bench_def
      epoch_start_def stamped_def stamped_pos_def stamped_left_def stamped_slots_def
      RDTSC_SAMPLING_RATE_def Let_def)

lemma epochs:
  assumes "epoch_start t a 0 s" and "0 < d" and "d < 1000" and "iter {t} = [t]"
  shows "int k < INT_MAX \<Longrightarrow> length es = 1024 * k \<Longrightarrow>
    \<exists>s'. calls (lw_write8 iter (steady d) BODY_EPOCH t) es s = Some (Inr s') \<and> epoch_start t a k s'"
proof (induction k arbitrary: es)
  case 0
  with assms(1) show ?case by simp
next
  case (Suc k)
  let ?log = "lw_write8 iter (steady d) BODY_EPOCH t"
  define xs ys where "xs = take (1024 * k) es" and "ys = drop (1024 * k) es"
  have len: "length xs = 1024 * k" "length ys = 1024" and es: "es = xs @ ys"
    using Suc.prems(2) by (simp_all add: xs_def ys_def)
  from Suc.IH [OF _ len(1)] Suc.prems(1) obtain s1 where
    s1: "calls ?log xs s = Some (Inr s1)" "epoch_start t a k s1" by auto
  from len(2) have "ys \<noteq> []" by auto
  then obtain zs z where ys: "ys = zs @ [z]" by (metis rev_exhaust)
  with len(2) have zs: "length zs = 1023" by simp
  from s1(2) obtain b where b: "lw_log_buffer s1 t = Some a" "lw_heap s1 a = Some b" "stamped 0 b"
    "lb_epoch b = int k" by (auto simp: epoch_start_def)
  from epoch_calls [OF b(1-3), of zs iter "steady d"] zs obtain b' r where
    fill: "calls ?log zs s1 = Some (Inr (lw_store a b' (s1\<lparr>lw_reads := r\<rparr>)))"
    and b': "stamped 1023 b'" "lb_epoch b' = int k" and r: "r = lw_reads s1 + 7"
    using b(4) by auto
  have "\<exists>s'. ?log z (lw_store a b' (s1\<lparr>lw_reads := r\<rparr>)) = Some (Inr s') \<and> epoch_start t a (Suc k) s'"
    by (rule epoch_end [where b = b'])
      (use s1(2) b(1) b' r assms(2-4) Suc.prems(1) in \<open>simp_all add: epoch_start_def\<close>)
  with s1(1) fill show ?case by (auto simp: es ys calls_append)
qed

text \<open>
  \<open>bufsInUse\<close> is never cleared, so that every epoch returns the buffers of all earlier epochs to
  the pool again: a single thread that logs \<open>1024 k\<close> events ends \<open>k\<close> epochs, never gets a second
  buffer, and leaves \<open>k (k - 1) / 2\<close> copies of its buffer in the pool.
\<close>

theorem pool_grows:
  assumes "0 < d" and "d < 1000" and "iter {t} = [t]" and "int k < INT_MAX"
    and "length es = 1024 * k"
  shows "\<exists>s s'. Thread_start BODY_EPOCH t init_bench = Inr s
    \<and> calls (lw_write8 iter (steady d) BODY_EPOCH t) es s = Some (Inr s')
    \<and> global_epoch s' = int k \<and> lw_log_buffer s' t = Some 8
    \<and> bufsInUse s' = replicate k (Some 8) \<and> lw_freeBufs s' = replicate (k * (k - 1) div 2) 8"
proof -
  obtain s where s: "Thread_start BODY_EPOCH t init_bench = Inr s" "epoch_start t 8 0 s"
    using start_epoch_start by blast
  from epochs [of t 8 s d iter k es, OF s(2) assms] s(1) show ?thesis
    by (auto simp: epoch_start_def)
qed

theorem pool_grows_witness:
  "\<exists>s'. calls (lw_write8 (\<lambda>_. [0]) (steady 40) BODY_EPOCH 0) (replicate 5120 (1, 2, 3))
       (projr (Thread_start BODY_EPOCH 0 init_bench)) = Some (Inr s')
     \<and> lw_freeBufs s' = replicate 10 8"
  using pool_grows [of 40 "\<lambda>_. [0]" 0 5 "replicate 5120 (1, 2, 3)"] by auto

text \<open>
  The copies let two threads log to one buffer: after two epochs of a thread, the next thread to
  start is given the buffer that the first one is using.
\<close>

theorem two_threads_one_buffer:
  assumes "0 < d" and "d < 1000" and "iter {t} = [t]" and "length es = 2048" and "u \<noteq> t"
  shows "\<exists>s s1 s2. Thread_start BODY_EPOCH t init_bench = Inr s
    \<and> calls (lw_write8 iter (steady d) BODY_EPOCH t) es s = Some (Inr s1)
    \<and> Thread_start BODY_EPOCH u s1 = Inr s2
    \<and> lw_log_buffer s2 t = Some 8 \<and> lw_log_buffer s2 u = Some 8"
proof -
  obtain s where s: "Thread_start BODY_EPOCH t init_bench = Inr s" "epoch_start t 8 0 s"
    using start_epoch_start by blast
  from epochs [of t 8 s d iter 2 es, OF s(2) assms(1-3)] assms(4) obtain s1 where
    s1: "calls (lw_write8 iter (steady d) BODY_EPOCH t) es s = Some (Inr s1)" "epoch_start t 8 2 s1"
    by auto
  from s1(2) obtain b where "lw_heap s1 8 = Some b" "lw_freeBufs s1 = [8]" "lw_log_buffer s1 t = Some 8"
    by (auto simp: epoch_start_def)
  moreover obtain tid s2 where "lw_tid u (s1\<lparr>lw_freeBufs := []\<rparr>) = (tid, s2)"
    by (cases "lw_tid u (s1\<lparr>lw_freeBufs := []\<rparr>)")
  moreover from this have "lw_heap s2 = lw_heap s1" "lw_log_buffer s2 = lw_log_buffer s1"
    by (auto simp: lw_tid_def Let_def split: option.splits)
  ultimately have "\<exists>s3. Thread_start BODY_EPOCH u s1 = Inr s3
      \<and> lw_log_buffer s3 t = Some 8 \<and> lw_log_buffer s3 u = Some 8"
    using assms(5) by (simp add: Thread_start_def lw_allocBuffer_def lw_take_buffer_def)
  with s(1) s1(1) show ?thesis by blast
qed

theorem two_threads_one_buffer_witness:
  "\<exists>s1 s2. Thread_start BODY_EPOCH 1 s1 = Inr s2
     \<and> lw_log_buffer s2 0 = Some 8 \<and> lw_log_buffer s2 1 = Some 8"
  using two_threads_one_buffer [of 40 "\<lambda>_. [0]" 0 "replicate 2048 (1, 2, 3)" 1] by auto

end
