(* ===== verification/EarlierMain.thy ===== *)
theory EarlierMain
  imports EarlierEpochs
begin

text \<open>
  Threads and \<open>main\<close> of \<open>local_writes_benchmarks.cc\<close>: the bodies that stay in one buffer leave the
  benchmark's writes alone, and \<open>main\<close> admits more threads than there are static buffers.
\<close>

section \<open>Transparency\<close>

text \<open>What each of these bodies keeps from call to call.\<close>

definition body_good :: "Instrument \<Rightarrow> nat \<Rightarrow> bench \<Rightarrow> bool" where
  "body_good choice t s \<longleftrightarrow>
     (choice = BODY_RDTSC \<longrightarrow> (\<exists>a b n. lw_log_buffer s t = Some a \<and> lw_heap s a = Some b \<and> stamped n b))
     \<and> (ring_word choice \<noteq> None \<longrightarrow> lw_good t s)"

definition in_one_buffer :: "Instrument \<Rightarrow> bool" where
  "in_one_buffer choice \<longleftrightarrow> choice \<noteq> BODY_COUNT \<and> choice \<noteq> BODY_EPOCH"

interpretation empty_body: total_log "lw_write8_plain tsc BODY_EMPTY t" "\<lambda>_. True" for tsc t
  by unfold_locales (auto simp: lw_write8_plain_def lw_write8_def)

interpretation rdtsc_mode: total_log "lw_write8_plain tsc BODY_RDTSC t" "body_good BODY_RDTSC t" for tsc t
proof unfold_locales
  fix s e
  assume "body_good BODY_RDTSC t s"
  then obtain a b n where "lw_log_buffer s t = Some a" "lw_heap s a = Some b" "stamped n b"
    by (auto simp: body_good_def)
  from rdtsc_body_call [OF this, of tsc e] this show
    "\<exists>s'. lw_write8_plain tsc BODY_RDTSC t e s = Inr s' \<and> body_good BODY_RDTSC t s'"
    by (fastforce simp: body_good_def)
qed

lemma body_total:
  assumes "in_one_buffer choice"
  shows "total_log (lw_write8_plain tsc choice t) (body_good choice t)"
proof (cases "ring_word choice")
  case None
  with assms consider "choice = BODY_EMPTY" | "choice = BODY_RDTSC"
    by (cases choice) (auto simp: in_one_buffer_def)
  then show ?thesis
  proof cases
    case 1
    then have "body_good choice t = (\<lambda>_. True)" by (simp add: body_good_def fun_eq_iff)
    with 1 empty_body.total_log_axioms show ?thesis by simp
  next
    case 2
    with rdtsc_mode.total_log_axioms show ?thesis by simp
  qed
next
  case (Some word)
  then have "body_good choice t = lw_good t" by (cases choice) (auto simp: body_good_def fun_eq_iff)
  with ring_body_total [OF Some] show ?thesis by simp
qed

text \<open>A thread can start: its static buffer is new, or the manager's pool is empty.\<close>

definition start_ok :: "nat \<Rightarrow> bench \<Rightarrow> bool" where
  "start_ok idx s \<longleftrightarrow> idx < 8 \<and> lw_heap s idx = Some new_LocalBuffer \<and> lw_freeBufs s = []"

lemma new_stamped: "stamped 0 (new_LocalBuffer\<lparr>lb_tid := i, lb_epoch := e\<rparr>)"
  by (simp add: stamped_def stamped_pos_def stamped_left_def stamped_slots_def
      RDTSC_SAMPLING_RATE_def)

lemma Thread_start_good:
  assumes "start_ok idx s"
  shows "\<exists>s'. Thread_start choice idx s = Inr s' \<and> body_good choice idx s'"
proof (cases "BODY_DYNBUF \<le> choice")
  case False
  with assms show ?thesis
    by (cases choice) (auto simp: Thread_start_def start_ok_def body_good_def lw_good_def)
next
  case True
  let ?s1 = "s\<lparr>lw_heap := (lw_heap s)(lw_next s \<mapsto> new_LocalBuffer), lw_next := Suc (lw_next s)\<rparr>"
  obtain tid s2 where tid: "lw_tid idx ?s1 = (tid, s2)" by (cases "lw_tid idx ?s1")
  then have "lw_heap s2 (lw_next s) = Some new_LocalBuffer"
    by (auto simp: lw_tid_def Let_def split: option.splits)
  let ?b = "new_LocalBuffer\<lparr>lb_tid := tid, lb_epoch := global_epoch s2\<rparr>"
  let ?s3 = "(lw_store (lw_next s) ?b s2)\<lparr>lw_log_buffer := (lw_log_buffer s2)(idx \<mapsto> lw_next s),
    threadLocalBufs := insert idx (threadLocalBufs s2)\<rparr>"
  have "Thread_start choice idx s = Inr ?s3"
    using assms tid True \<open>lw_heap s2 (lw_next s) = _\<close>
    by (simp add: Thread_start_def lw_allocBuffer_def lw_take_buffer_def start_ok_def)
  moreover have "body_good choice idx ?s3"
    using new_stamped [where i = tid and e = "global_epoch s2"]
    by (fastforce simp: body_good_def lw_good_def)
  ultimately show ?thesis by blast
qed

lemma for_loop_Run:
  assumes "total_log log good" and "good s" and "off + nat len \<le> length (arr_elems arr)"
    and "0 < iterations"
  shows "\<exists>s'. for_loop (\<lambda>_. logged_loop log line off len) 0 iterations (arr, s)
    = Inr (filled off (nat len) arr, s')"
proof -
  let ?P = "\<lambda>(k::nat) st. fst st = (if k = 0 then arr else filled off (nat len) arr) \<and> good (snd st)"
  have "\<exists>st. for_loop (\<lambda>_. logged_loop log line off len) 0 iterations (arr, s) = Inr st \<and> ?P iterations st"
  proof (rule for_loop_invariant [where P = ?P])
    show "?P 0 (arr, s)" using assms(2) by simp
  next
    fix k st
    assume st: "?P k st"
    then have "off + nat len \<le> length (arr_elems (fst st))" and "good (snd st)"
      using assms(3) by simp_all
    from logged_loop_ok [OF assms(1) this(2,1), of line] st
    show "\<exists>st'. logged_loop log line off len st = Inr st' \<and> ?P (Suc k) st'"
      using filled_twice [OF assms(3)] by (cases st) auto
  qed
  with assms(4) show ?thesis by auto
qed

text \<open>
  With every body of the earlier benchmark that stays in one buffer a thread runs without error
  for any number of iterations and leaves in the array what the uninstrumented loop leaves there.
\<close>

theorem Thread_transparent:
  assumes "in_one_buffer choice" and "start_ok idx s" and "0 < iterations"
    and "idx * nat len + nat len \<le> length (arr_elems arr)"
  shows "\<exists>arr' s'. Thread iter tsc choice iterations idx len (arr, s) = Some (Inr (arr', s'))
    \<and> run_noop (idx * nat len) len arr = Inr arr'"
proof -
  obtain s1 where s1: "Thread_start choice idx s = Inr s1" "body_good choice idx s1"
    using Thread_start_good [OF assms(2)] by blast
  have "Run (lw_write8 iter tsc choice idx) idx len
      = (\<lambda>st. Some (logged_loop (lw_write8_plain tsc choice idx) 416 (idx * nat len) len st))"
    by (rule ext, rule Run_logged_loop, rule lw_write8_returns)
      (use assms(1) in \<open>simp add: in_one_buffer_def\<close>)
  with for_loop_Run [OF body_total [OF assms(1)] s1(2) assms(4,3)] s1(1)
  show ?thesis by (simp add: Thread_def for_run_Some run_noop_filled [OF assms(4)])
qed

theorem Thread_transparent_witness:
  "\<exists>arr' s'. Thread (\<lambda>_. []) (\<lambda>_. 0) BODY_RDTSC kNumIter 1 2
     (\<lparr>arr_base = 4096, arr_elems = [7, 7, 7, 7]\<rparr>, init_bench) = Some (Inr (arr', s'))
   \<and> run_noop (1 * nat 2) 2 \<lparr>arr_base = 4096, arr_elems = [7, 7, 7, 7]\<rparr> = Inr arr'"
  by (rule Thread_transparent)
    (simp_all add: in_one_buffer_def start_ok_def init_bench_def kNumIter_def)

section \<open>Too many threads\<close>

text \<open>
  \<open>main\<close> accepts up to 32 threads, but with the bodies that use the static buffers every thread
  from the ninth on fails: \<open>at\<close> throws for its index.
\<close>

theorem too_many_threads:
  assumes "lw_main_plan [n, len] = Inr (n, len, n_elems)" and "8 < n"
    and "choice < BODY_DYNBUF"
  shows "n \<le> 32
    \<and> (\<forall>i. 8 \<le> i \<and> int i < n \<longrightarrow> Thread iter tsc choice iterations i len st = Some (Inl OutOfBounds))"
  using assms
  by (cases st) (auto simp: lw_main_plan_def and_then_Inr_iff Thread_def Thread_start_def split: if_splits)

theorem too_many_threads_witness:
  "Thread (\<lambda>_. []) (\<lambda>_. 0) BODY_ADDR 1 8 10 (\<lparr>arr_base = 0, arr_elems = replicate 90 0\<rparr>, init_bench)
     = Some (Inl OutOfBounds)"
  using too_many_threads [of 9 10 90 BODY_ADDR "\<lambda>_. []" "\<lambda>_. 0" 1
      "(\<lparr>arr_base = 0, arr_elems = replicate 90 0\<rparr>, init_bench)"]
  by (simp add: lw_main_plan_def int_mul_def)

end
