(* ===== verification/Schedules.thy ===== *)
theory Schedules
  imports RingLog
begin

text \<open>
  Tasks that take turns. A schedule is the list of tasks in the order in which they take a step; running
  it is \<open>log_all\<close> of the step function. The contracts of a step that every task can take, and of one that
  the other tasks do not notice, with what they say of a whole schedule; the threads of \<open>Main.cc\<close> and of
  \<open>local_writes_benchmarks.cc\<close> meet them.
\<close>

text \<open>
  \<open>progress x s\<close> is how many of its \<open>total\<close> steps task \<open>x\<close> has taken; one that has taken them all stays
  where it is.
\<close>

locale scheduled =
  fixes step :: "'x \<Rightarrow> 's \<Rightarrow> 's result"
    and tasks :: "'x set"
    and inv :: "'s \<Rightarrow> bool"
    and progress :: "'x \<Rightarrow> 's \<Rightarrow> nat"
    and total :: nat
  assumes bound: "inv s \<Longrightarrow> x \<in> tasks \<Longrightarrow> progress x s \<le> total"
    and ended: "inv s \<Longrightarrow> x \<in> tasks \<Longrightarrow> progress x s = total \<Longrightarrow> step x s = Inr s"
    and advance: "inv s \<Longrightarrow> x \<in> tasks \<Longrightarrow> progress x s < total \<Longrightarrow>
      \<exists>s'. step x s = Inr s' \<and> inv s'
        \<and> (\<forall>y \<in> tasks. progress y s' = progress y s + (if y = x then 1 else 0))"
begin

lemma step_ok:
  assumes "inv s" and "x \<in> tasks"
  shows "\<exists>s'. step x s = Inr s' \<and> inv s'
    \<and> (\<forall>y \<in> tasks. progress y s' = min total (progress y s + (if y = x then 1 else 0)))"
proof (cases "progress x s = total")
  case True
  have "progress y s = min total (progress y s + (if y = x then 1 else 0))" if "y \<in> tasks" for y
    using bound [OF assms(1) that] True by (simp add: min_def)
  with ended [OF assms True] assms(1) show ?thesis by blast
next
  case False
  with bound [OF assms] advance [OF assms] obtain s' where s': "step x s = Inr s'" "inv s'"
    "\<forall>y \<in> tasks. progress y s' = progress y s + (if y = x then 1 else 0)" by auto
  with bound [OF s'(2)] show ?thesis by (intro exI [of _ s']) force
qed

lemma schedule_ok:
  assumes "inv s" and "set xs \<subseteq> tasks"
  shows "\<exists>s'. log_all step xs s = Inr s' \<and> inv s'
    \<and> (\<forall>y \<in> tasks. progress y s' = min total (progress y s + count_list xs y))"
  using assms
proof (induction xs arbitrary: s)
  case Nil
  with bound [OF Nil(1)] show ?case by (simp add: min_absorb2)
next
  case (Cons x xs)
  from Cons.prems step_ok [of s x] obtain s1 where s1: "step x s = Inr s1" "inv s1"
    "\<forall>y \<in> tasks. progress y s1 = min total (progress y s + (if y = x then 1 else 0))" by auto
  from Cons.IH [OF s1(2)] Cons.prems(2) obtain s' where "log_all step xs s1 = Inr s'" "inv s'"
    "\<forall>y \<in> tasks. progress y s' = min total (progress y s1 + count_list xs y)" by auto
  moreover have "min total (min total a + b) = min total (a + b)" for a b :: nat by (simp add: min_def)
  ultimately show ?case using s1 by auto
qed

lemma schedule_ends:
  assumes "inv s" and "set xs \<subseteq> tasks" and "\<And>x. x \<in> tasks \<Longrightarrow> total \<le> progress x s + count_list xs x"
  shows "\<exists>s'. log_all step xs s = Inr s' \<and> inv s' \<and> (\<forall>x \<in> tasks. progress x s' = total)"
  using schedule_ok [OF assms(1,2)] assms(3) by (force simp: min_def)

end

text \<open>
  \<open>like x s r\<close>: the states \<open>s\<close> and \<open>r\<close> are the same as far as task \<open>x\<close> can see. The steps of the
  others are beyond its sight, and its own depend on what it sees.
\<close>

locale private_tasks = scheduled step tasks inv progress total
  for step :: "'x \<Rightarrow> 's \<Rightarrow> 's result" and tasks :: "'x set" and inv :: "'s \<Rightarrow> bool"
    and progress :: "'x \<Rightarrow> 's \<Rightarrow> nat" and total :: nat +
  fixes like :: "'x \<Rightarrow> 's \<Rightarrow> 's \<Rightarrow> bool"
  assumes like_refl: "inv s \<Longrightarrow> x \<in> tasks \<Longrightarrow> like x s s"
    and others: "inv s \<Longrightarrow> inv r \<Longrightarrow> x \<in> tasks \<Longrightarrow> y \<in> tasks \<Longrightarrow> x \<noteq> y \<Longrightarrow> like x s r \<Longrightarrow>
      step y s = Inr s' \<Longrightarrow> like x s' r"
    and own: "inv s \<Longrightarrow> inv r \<Longrightarrow> x \<in> tasks \<Longrightarrow> like x s r \<Longrightarrow> step x s = Inr s' \<Longrightarrow>
      step x r = Inr r' \<Longrightarrow> like x s' r'"
begin

lemma as_alone:
  assumes "inv s" and "set xs \<subseteq> tasks" and "x \<in> tasks"
  shows "\<exists>s' r. log_all step xs s = Inr s' \<and> inv s'
    \<and> log_all step (replicate (count_list xs x) x) s = Inr r \<and> inv r \<and> like x s' r"
  using assms(2)
proof (induction xs rule: rev_induct)
  case Nil
  then show ?case using assms(1,3) like_refl by simp
next
  case (snoc y xs)
  then obtain s1 r1 where IH: "log_all step xs s = Inr s1" "inv s1"
    "log_all step (replicate (count_list xs x) x) s = Inr r1" "inv r1" "like x s1 r1" by auto
  from snoc.prems step_ok [OF IH(2), of y] obtain s2 where s2: "step y s1 = Inr s2" "inv s2" by auto
  have run: "log_all step (xs @ [y]) s = Inr s2" using IH(1) s2(1) by (simp add: log_all_snoc)
  show ?case
  proof (cases "y = x")
    case True
    from step_ok [OF IH(4) assms(3)] obtain r2 where r2: "step x r1 = Inr r2" "inv r2" by blast
    have "replicate (count_list (xs @ [y]) x) x = replicate (count_list xs x) x @ [x]"
      using True by (simp add: replicate_append_same)
    with IH(3) r2(1) have "log_all step (replicate (count_list (xs @ [y]) x) x) s = Inr r2"
      by (simp only: log_all_snoc and_then.simps)
    with run s2 r2 own [OF IH(2,4) assms(3) IH(5)] True show ?thesis by blast
  next
    case False
    with run s2 IH others [OF IH(2,4) assms(3) _ _ IH(5) s2(1)] snoc.prems show ?thesis by auto
  qed
qed

end

end
