(* ===== verification/EarlierThreads.thy ===== *)
theory EarlierThreads
  imports EarlierMain Schedules
begin

text \<open>
  The threads of \<open>local_writes_benchmarks.cc\<close> in steps, with the bodies that stay in one buffer: a step
  is the start of a thread, one call of \<open>__tsan_write8\<close>, or one store into the array. Interleaved in any
  way they fill the array, and without a clock to share each of them logs what it logs alone.
\<close>

section \<open>Threads in steps\<close>

text \<open>
  \<open>LtCall i j\<close>: \<open>i\<close> calls of \<open>Run\<close> are done, before the \<open>j\<close>-th call of \<open>__tsan_write8\<close> in the next one.
  \<open>LtStore i j\<close>: before the store behind that call.
\<close>

datatype lt_pc = LtBegin | LtCall nat nat | LtStore nat nat | LtDone

record lt_state =
  lt_array :: int64_array
  lt_bench :: bench
  lt_pcs :: "nat \<Rightarrow> lt_pc"

definition lt_start :: "int64_array \<Rightarrow> lt_state" where
  "lt_start arr = \<lparr>lt_array = arr, lt_bench = init_bench, lt_pcs = (\<lambda>_. LtBegin)\<rparr>"

definition lt_moved :: "nat \<Rightarrow> lt_pc \<Rightarrow> int64_array \<Rightarrow> bench \<Rightarrow> lt_state \<Rightarrow> lt_state" where
  "lt_moved t pc arr b st = \<lparr>lt_array = arr, lt_bench = b, lt_pcs = (lt_pcs st)(t := pc)\<rparr>"

lemma lt_moved_simps [simp]:
  "lt_array (lt_moved t pc arr b st) = arr" "lt_bench (lt_moved t pc arr b st) = b"
  "lt_pcs (lt_moved t pc arr b st) = (lt_pcs st)(t := pc)"
  "lt_moved t pc' arr' b' (lt_moved t pc arr b st) = lt_moved t pc' arr' b' st"
  by (simp_all add: lt_moved_def)

definition lt_step ::
  "(nat \<Rightarrow> u64) \<Rightarrow> Instrument \<Rightarrow> nat \<Rightarrow> int \<Rightarrow> nat \<Rightarrow> lt_state \<Rightarrow> lt_state result" where
  "lt_step tsc choice iterations len t st =
     (let arr = lt_array st; b = lt_bench st in
      case lt_pcs st t of
        LtBegin \<Rightarrow>
          and_then (Thread_start choice t b) (\<lambda>b1. Inr (lt_moved t (LtCall 0 0) arr b1 st))
      | LtCall i j \<Rightarrow>
          if iterations \<le> i then Inr (lt_moved t LtDone arr b st)
          else if int j < len then
            and_then (lw_write8_plain tsc choice t
                        (416, elem_addr arr (t * nat len + j), of_nat j) b) (\<lambda>b1.
            Inr (lt_moved t (LtStore i j) arr b1 st))
          else Inr (lt_moved t (LtCall (Suc i) 0) arr b st)
      | LtStore i j \<Rightarrow>
          and_then (store_elem (t * nat len + j) (of_nat j) arr) (\<lambda>arr1.
          Inr (lt_moved t (LtCall i (Suc j)) arr1 b st))
      | LtDone \<Rightarrow> Inr st)"

text \<open>The number of steps of a thread, and how many it has taken.\<close>

definition lt_steps :: "nat \<Rightarrow> nat \<Rightarrow> nat" where
  "lt_steps iterations n = 2 + iterations * (2 * n + 1)"

fun lt_progress :: "nat \<Rightarrow> nat \<Rightarrow> lt_pc \<Rightarrow> nat" where
  "lt_progress iterations n LtBegin = 0"
| "lt_progress iterations n (LtCall i j) = 1 + i * (2 * n + 1) + 2 * j"
| "lt_progress iterations n (LtStore i j) = 2 + i * (2 * n + 1) + 2 * j"
| "lt_progress iterations n LtDone = lt_steps iterations n"

section \<open>Uninterrupted, the steps are the thread\<close>

abbreviation lt_alone ::
  "(nat \<Rightarrow> u64) \<Rightarrow> Instrument \<Rightarrow> nat \<Rightarrow> int \<Rightarrow> nat \<Rightarrow> nat \<Rightarrow> lt_state \<Rightarrow> lt_state result" where
  "lt_alone tsc choice iterations len t k \<equiv> log_all (lt_step tsc choice iterations len) (replicate k t)"

lemma lt_alone_add: "lt_alone tsc choice iterations len t (k + l) st =
    and_then (lt_alone tsc choice iterations len t k st) (lt_alone tsc choice iterations len t l)"
  by (simp add: replicate_add log_all_append)

lemma lt_round_steps:
  assumes "i < iterations"
  shows "j + k \<le> nat len \<Longrightarrow>
    lt_alone tsc choice iterations len t (2 * k) (lt_moved t (LtCall i j) arr b st)
    = and_then (for_loop (logged_store (lw_write8_plain tsc choice t) 416 (t * nat len)) j k (arr, b))
        (\<lambda>(arr1, b1). Inr (lt_moved t (LtCall i (j + k)) arr1 b1 st))"
proof (induction k arbitrary: j arr b)
  case 0
  then show ?case by simp
next
  case (Suc k)
  let ?e = "(416, elem_addr arr (t * nat len + j), of_nat j) :: access"
  have j: "int j < len" using Suc.prems by linarith
  note IH = Suc.IH [of "Suc j"]
  have "Suc j + k \<le> nat len" using Suc.prems by simp
  from Suc.IH [OF this] show ?case
    using assms j
    by (cases "lw_write8_plain tsc choice t ?e b"; cases "store_elem (t * nat len + j) (of_nat j) arr")
      (simp_all add: lt_step_def logged_store_def)
qed

lemma lt_rounds_steps:
  assumes "0 \<le> len"
  shows "i + k \<le> iterations \<Longrightarrow>
    lt_alone tsc choice iterations len t (k * (2 * nat len + 1)) (lt_moved t (LtCall i 0) arr b st)
    = and_then (for_loop (\<lambda>_. logged_loop (lw_write8_plain tsc choice t) 416 (t * nat len) len) i k (arr, b))
        (\<lambda>(arr1, b1). Inr (lt_moved t (LtCall (i + k) 0) arr1 b1 st))"
proof (induction k arbitrary: i arr b)
  case 0
  then show ?case by simp
next
  case (Suc k)
  let ?loop = "logged_loop (lw_write8_plain tsc choice t) 416 (t * nat len) len"
  have split: "Suc k * (2 * nat len + 1) = 2 * nat len + (1 + k * (2 * nat len + 1))" by simp
  have i: "i < iterations" "Suc i + k \<le> iterations" using Suc.prems by simp_all
  have last: "lt_step tsc choice iterations len t (lt_moved t (LtCall i (nat len)) arr1 b1 st)
      = Inr (lt_moved t (LtCall (Suc i) 0) arr1 b1 st)" for arr1 b1
    using i(1) assms by (simp add: lt_step_def)
  from lt_round_steps [OF i(1), of 0 "nat len" len tsc choice t arr b st] Suc.IH [OF i(2)] show ?case
    unfolding split lt_alone_add
    by (cases "?loop (arr, b)") (auto simp: logged_loop_def last split: prod.splits)
qed

text \<open>
  A thread that nobody interrupts does in \<open>lt_steps\<close> steps what \<open>Thread\<close> does, and fails where it fails.
\<close>

lemma Thread_in_steps:
  assumes "choice \<noteq> BODY_EPOCH" and "0 \<le> len" and "lt_pcs st t = LtBegin"
  shows "Thread iter tsc choice iterations t len (lt_array st, lt_bench st)
    = Some (and_then (lt_alone tsc choice iterations len t (lt_steps iterations (nat len)) st)
        (\<lambda>st1. Inr (lt_array st1, lt_bench st1)))"
proof -
  let ?n = "nat len" and ?arr = "lt_array st"
  have run: "Run (lw_write8 iter tsc choice t) t len
      = (\<lambda>st. Some (logged_loop (lw_write8_plain tsc choice t) 416 (t * ?n) len st))"
    by (rule ext, rule Run_logged_loop, rule lw_write8_returns [OF assms(1)])
  have split: "lt_steps iterations ?n = 1 + (iterations * (2 * ?n + 1) + 1)" by (simp add: lt_steps_def)
  have last: "lt_step tsc choice iterations len t (lt_moved t (LtCall iterations 0) arr1 b1 st)
      = Inr (lt_moved t LtDone arr1 b1 st)" for arr1 b1
    by (simp add: lt_step_def)
  show ?thesis
  proof (cases "Thread_start choice t (lt_bench st)")
    case (Inl e)
    then show ?thesis unfolding split lt_alone_add using assms(3) by (simp add: Thread_def lt_step_def)
  next
    case (Inr b)
    from lt_rounds_steps [OF assms(2), of 0 iterations iterations tsc choice t ?arr b st] Inr assms(3)
    show ?thesis
      unfolding split lt_alone_add
      by (cases "for_loop (\<lambda>_. logged_loop (lw_write8_plain tsc choice t) 416 (t * ?n) len) 0 iterations (?arr, b)")
        (auto simp: Thread_def lt_step_def run for_run_Some last lt_step_def [of _ _ _ _ _ st])
  qed
qed

section \<open>A thread and its buffer\<close>

text \<open>A change that leaves all buffers but the one of thread \<open>t\<close> alone.\<close>

definition lt_own :: "nat \<Rightarrow> bench \<Rightarrow> bench \<Rightarrow> bool" where
  "lt_own t b b' \<longleftrightarrow> lw_log_buffer b' = lw_log_buffer b \<and> lw_next b' = lw_next b
     \<and> lw_freeBufs b' = lw_freeBufs b \<and> (\<forall>a. lw_log_buffer b t \<noteq> Some a \<longrightarrow> lw_heap b' a = lw_heap b a)"

text \<open>What a thread has in its buffer, if it has one: the count and the words.\<close>

definition lt_content :: "nat \<Rightarrow> bench \<Rightarrow> (int \<times> (int \<Rightarrow> u64 option)) option" where
  "lt_content t b = (case lw_log_buffer b t of None \<Rightarrow> None
     | Some a \<Rightarrow> map_option (\<lambda>buf. (lb_events buf, lb_buf buf)) (lw_heap b a))"

lemma lt_own_refl [simp]: "lt_own t b b"
  by (simp add: lt_own_def)

lemma push_call:
  assumes "lw_log_buffer b t = Some a" and "lw_heap b a = Some buf"
    and "0 \<le> lb_events buf" and "lb_events buf < 1000"
  shows "lw_push full t w b = Inr (lw_store a (buf\<lparr>lb_buf := (lb_buf buf)(lb_events buf \<mapsto> w),
    lb_events := if full (lb_events buf + 1) then 0 else lb_events buf + 1\<rparr>) b)"
  using assms by (cases buf) (simp add: lw_push_def lb_sizes)

lemma lw_good_frame:
  assumes "lw_log_buffer b' t = lw_log_buffer b t" and "\<And>a. lw_log_buffer b t = Some a \<Longrightarrow> lw_heap b' a = lw_heap b a"
  shows "body_good choice t b \<Longrightarrow> body_good choice t b'" and "lt_content t b' = lt_content t b"
  using assms by (auto simp: body_good_def lw_good_def lt_content_def split: option.splits)

lemma body_call:
  assumes "in_one_buffer choice" and "body_good choice t b"
  shows "\<exists>b'. lw_write8_plain tsc choice t e b = Inr b' \<and> body_good choice t b' \<and> lt_own t b b'"
proof -
  obtain b' where b': "lw_write8_plain tsc choice t e b = Inr b'" "body_good choice t b'"
    using total_log.log_total [OF body_total [OF assms(1)] assms(2)] by blast
  have "lt_own t b b'"
  proof (cases "ring_word choice")
    case None
    with assms(1) consider "choice = BODY_EMPTY" | "choice = BODY_RDTSC"
      by (cases choice) (auto simp: in_one_buffer_def)
    then show ?thesis
    proof cases
      case 1
      with b'(1) show ?thesis by (auto simp: lw_write8_plain_def lw_write8_def split: prod.splits)
    next
      case 2
      with assms(2) obtain a buf n where "lw_log_buffer b t = Some a" "lw_heap b a = Some buf" "stamped n buf"
        by (auto simp: body_good_def)
      from rdtsc_body_call [OF this, of tsc e] this(1) b'(1) 2 show ?thesis by (auto simp: lt_own_def)
    qed
  next
    case (Some word)
    with assms(2) obtain a buf where "lw_log_buffer b t = Some a" "lw_heap b a = Some buf"
      "0 \<le> lb_events buf" "lb_events buf < 1000" by (auto simp: body_good_def lw_good_def)
    from push_call [OF this] this(1) b'(1) ring_body_cases [OF Some, of tsc t] show ?thesis
      by (auto simp: lt_own_def)
  qed
  with b' show ?thesis by blast
qed

text \<open>Without a clock to read, what a call leaves in the buffer depends on what was in it only.\<close>

lemma body_call_content:
  assumes "in_one_buffer choice" and "choice \<noteq> BODY_RDTSC"
    and "body_good choice t b" and "body_good choice t c" and "lt_content t b = lt_content t c"
    and "lw_write8_plain tsc choice t e b = Inr b'" and "lw_write8_plain tsc choice t e c = Inr c'"
  shows "lt_content t b' = lt_content t c'"
proof (cases "ring_word choice")
  case None
  with assms(1,2) have "choice = BODY_EMPTY" by (cases choice) (auto simp: in_one_buffer_def)
  with assms(5-7) show ?thesis by (auto simp: lw_write8_plain_def lw_write8_def split: prod.splits)
next
  case (Some word)
  from assms(3) Some obtain a x where b: "lw_log_buffer b t = Some a" "lw_heap b a = Some x"
    "0 \<le> lb_events x" "lb_events x < 1000" by (auto simp: body_good_def lw_good_def)
  from assms(4) Some obtain d y where c: "lw_log_buffer c t = Some d" "lw_heap c d = Some y"
    "0 \<le> lb_events y" "lb_events y < 1000" by (auto simp: body_good_def lw_good_def)
  from assms(5) b(1,2) c(1,2) have same: "lb_events y = lb_events x" "lb_buf y = lb_buf x"
    by (simp_all add: lt_content_def)
  from ring_body_cases [OF Some, of tsc t] push_call [OF b] push_call [OF c] assms(6,7) same b(1) c(1)
  show ?thesis by (auto simp: lt_content_def)
qed

lemma new_LocalBuffer_stamped: "stamped 0 new_LocalBuffer"
  by (simp add: stamped_def stamped_pos_def stamped_left_def stamped_slots_def RDTSC_SAMPLING_RATE_def)

text \<open>The start of a thread gives it a buffer of its own.\<close>

lemma Thread_start_ok:
  assumes "lw_freeBufs b = []" and "8 \<le> lw_next b"
    and "choice < BODY_DYNBUF \<Longrightarrow> t < 8 \<and> lw_heap b t = Some new_LocalBuffer"
  shows "\<exists>b' a buf. Thread_start choice t b = Inr b' \<and> lw_log_buffer b' = (lw_log_buffer b)(t \<mapsto> a)
    \<and> lw_heap b' = (lw_heap b)(a \<mapsto> buf) \<and> lb_events buf = 0 \<and> lb_buf buf = (\<lambda>_. None) \<and> stamped 0 buf
    \<and> lw_freeBufs b' = [] \<and> a < lw_next b' \<and> lw_next b \<le> lw_next b'
    \<and> a = (if choice < BODY_DYNBUF then t else lw_next b)"
proof (cases "BODY_DYNBUF \<le> choice")
  case False
  then have "choice < BODY_DYNBUF" by (simp only: not_le)
  with assms show ?thesis
    by (intro exI [of _ "b\<lparr>lw_log_buffer := (lw_log_buffer b)(t \<mapsto> t)\<rparr>"] exI [of _ t]
        exI [of _ new_LocalBuffer])
      (auto simp: Thread_start_def fun_upd_idem new_LocalBuffer_stamped simp del: less_Instrument_def less_eq_Instrument_def)
next
  case True
  let ?b1 = "b\<lparr>lw_heap := (lw_heap b)(lw_next b \<mapsto> new_LocalBuffer), lw_next := Suc (lw_next b)\<rparr>"
  obtain tid b2 where tid: "lw_tid t ?b1 = (tid, b2)" by (cases "lw_tid t ?b1")
  then have b2: "lw_heap b2 = lw_heap ?b1" "lw_log_buffer b2 = lw_log_buffer b" "lw_next b2 = lw_next ?b1"
    "lw_freeBufs b2 = lw_freeBufs b"
    by (auto simp: lw_tid_def Let_def split: option.splits)
  let ?buf = "new_LocalBuffer\<lparr>lb_tid := tid, lb_epoch := global_epoch b2\<rparr>"
  let ?b3 = "(lw_store (lw_next b) ?buf b2)\<lparr>lw_log_buffer := (lw_log_buffer b2)(t \<mapsto> lw_next b),
    threadLocalBufs := insert t (threadLocalBufs b2)\<rparr>"
  have "Thread_start choice t b = Inr ?b3"
    using assms(1) tid b2 True by (simp add: Thread_start_def lw_allocBuffer_def lw_take_buffer_def)
  moreover have "\<not> choice < BODY_DYNBUF" using True by (simp only: not_less)
  ultimately show ?thesis
    using assms(1) b2 new_stamped [of "global_epoch b2" tid]
    by (intro exI [of _ ?b3] exI [of _ "lw_next b"] exI [of _ ?buf]) simp
qed

section \<open>All threads\<close>

fun lt_pc_inv :: "Instrument \<Rightarrow> nat \<Rightarrow> nat \<Rightarrow> nat \<Rightarrow> int64_array \<Rightarrow> bench \<Rightarrow> lt_pc \<Rightarrow> bool" where
  "lt_pc_inv choice iterations n t arr b LtBegin \<longleftrightarrow>
     (choice < BODY_DYNBUF \<longrightarrow> t < 8 \<and> lw_heap b t = Some new_LocalBuffer)"
| "lt_pc_inv choice iterations n t arr b (LtCall i j) \<longleftrightarrow>
     (i < iterations \<and> j \<le> n \<or> i = iterations \<and> j = 0) \<and> body_good choice t b \<and> written (t * n) n i j arr"
| "lt_pc_inv choice iterations n t arr b (LtStore i j) \<longleftrightarrow>
     i < iterations \<and> j < n \<and> body_good choice t b \<and> written (t * n) n i j arr"
| "lt_pc_inv choice iterations n t arr b LtDone \<longleftrightarrow> body_good choice t b \<and> written (t * n) n iterations 0 arr"

definition lt_buffers :: "Instrument \<Rightarrow> nat \<Rightarrow> (nat \<Rightarrow> lt_pc) \<Rightarrow> bench \<Rightarrow> bool" where
  "lt_buffers choice m pcs b \<longleftrightarrow> lw_freeBufs b = [] \<and> 8 \<le> lw_next b
     \<and> (\<forall>t < m. pcs t \<noteq> LtBegin \<longrightarrow> (\<exists>a. lw_log_buffer b t = Some a \<and> a < lw_next b
          \<and> (choice < BODY_DYNBUF \<longrightarrow> a = t)
          \<and> (\<forall>u < m. u \<noteq> t \<longrightarrow> pcs u \<noteq> LtBegin \<longrightarrow> lw_log_buffer b u \<noteq> Some a)))"

definition lt_inv :: "Instrument \<Rightarrow> nat \<Rightarrow> nat \<Rightarrow> nat \<Rightarrow> lt_state \<Rightarrow> bool" where
  "lt_inv choice iterations n m st \<longleftrightarrow> length (arr_elems (lt_array st)) = m * n
     \<and> lt_buffers choice m (lt_pcs st) (lt_bench st)
     \<and> (\<forall>t < m. lt_pc_inv choice iterations n t (lt_array st) (lt_bench st) (lt_pcs st t))"

text \<open>What thread \<open>u\<close> can tell of a step: the place of the array, and its buffer.\<close>

definition unseen :: "nat \<Rightarrow> lt_state \<Rightarrow> int64_array \<Rightarrow> bench \<Rightarrow> bool" where
  "unseen u st arr b \<longleftrightarrow> arr_base arr = arr_base (lt_array st)
     \<and> (lt_pcs st u \<noteq> LtBegin \<longrightarrow> lt_content u b = lt_content u (lt_bench st))"

lemma lt_start_inv:
  assumes "length (arr_elems arr) = m * n" and "choice < BODY_DYNBUF \<Longrightarrow> m \<le> 8"
  shows "lt_inv choice iterations n m (lt_start arr)"
  using assms
  by (auto simp: lt_inv_def lt_buffers_def lt_start_def init_bench_def
      simp del: less_Instrument_def)

text \<open>A step of \<open>t\<close> that stores at most in its slice and leaves the others' buffers alone.\<close>

lemma lt_inv_moved:
  assumes inv: "lt_inv choice iterations n m st"
    and here: "lt_pc_inv choice iterations n t arr b pc"
    and arr: "length (arr_elems arr) = length (arr_elems (lt_array st))"
      "\<And>x. (\<And>k. k < n \<Longrightarrow> x \<noteq> t * n + k) \<Longrightarrow> arr_elems arr ! x = arr_elems (lt_array st) ! x"
    and buffers: "lt_buffers choice m ((lt_pcs st)(t := pc)) b"
    and others: "\<And>u. u < m \<Longrightarrow> u \<noteq> t \<Longrightarrow> lw_log_buffer b u = lw_log_buffer (lt_bench st) u"
      "\<And>u a. u < m \<Longrightarrow> u \<noteq> t \<Longrightarrow> lt_pcs st u \<noteq> LtBegin \<Longrightarrow> lw_log_buffer (lt_bench st) u = Some a \<Longrightarrow>
        lw_heap b a = lw_heap (lt_bench st) a"
      "\<And>u. u < m \<Longrightarrow> u \<noteq> t \<Longrightarrow> lt_pcs st u = LtBegin \<Longrightarrow> choice < BODY_DYNBUF \<Longrightarrow>
        lw_heap b u = lw_heap (lt_bench st) u"
  shows "lt_inv choice iterations n m (lt_moved t pc arr b st)"
proof -
  have "lt_pc_inv choice iterations n u arr b (lt_pcs st u)" if u: "u < m" "u \<noteq> t" for u
  proof -
    have written: "written (u * n) n i j arr = written (u * n) n i j (lt_array st)" for i j
      using arr(2) slices_apart [OF u(2)] by (simp add: written_def)
    from inv u(1) have old: "lt_pc_inv choice iterations n u (lt_array st) (lt_bench st) (lt_pcs st u)"
      by (simp add: lt_inv_def)
    show ?thesis
    proof (cases "lt_pcs st u = LtBegin")
      case True
      with old others(3) [OF u] show ?thesis by (simp del: less_Instrument_def)
    next
      case False
      note good = lw_good_frame(1) [of b u "lt_bench st" choice, OF others(1) [OF u] others(2) [OF u False]]
      from old False show ?thesis by (cases "lt_pcs st u") (auto simp: written intro: good)
    qed
  qed
  with inv here arr(1) buffers show ?thesis by (auto simp: lt_inv_def)
qed

lemma lt_own_step:
  assumes inv: "lt_inv choice iterations n m st" and t: "t < m" and "lt_pcs st t \<noteq> LtBegin" "pc \<noteq> LtBegin"
    and here: "lt_pc_inv choice iterations n t arr b pc" and own: "lt_own t (lt_bench st) b"
    and "length (arr_elems arr) = length (arr_elems (lt_array st))" "arr_base arr = arr_base (lt_array st)"
      "\<And>x. (\<And>k. k < n \<Longrightarrow> x \<noteq> t * n + k) \<Longrightarrow> arr_elems arr ! x = arr_elems (lt_array st) ! x"
  shows "lt_inv choice iterations n m (lt_moved t pc arr b st)"
    and "u < m \<Longrightarrow> u \<noteq> t \<Longrightarrow> unseen u st arr b"
proof -
  have bufs: "lt_buffers choice m (lt_pcs st) (lt_bench st)" using inv by (simp add: lt_inv_def)
  have same: "lw_log_buffer b = lw_log_buffer (lt_bench st)" using own by (simp add: lt_own_def)
  have apart: "lw_heap b a = lw_heap (lt_bench st) a"
    if "u < m" "u \<noteq> t" "lt_pcs st u \<noteq> LtBegin" "lw_log_buffer (lt_bench st) u = Some a" for u a
  proof -
    from bufs t assms(3) that have "lw_log_buffer (lt_bench st) t \<noteq> Some a"
      unfolding lt_buffers_def by metis
    with own show ?thesis by (simp add: lt_own_def)
  qed
  have static: "lw_heap b u = lw_heap (lt_bench st) u" if "u \<noteq> t" "choice < BODY_DYNBUF" for u
  proof -
    from bufs t assms(3) that(2) have "lw_log_buffer (lt_bench st) t = Some t" unfolding lt_buffers_def by blast
    with own that(1) show ?thesis by (simp add: lt_own_def)
  qed
  have "lt_buffers choice m ((lt_pcs st)(t := pc)) b"
    using bufs own assms(3,4) unfolding lt_buffers_def lt_own_def by (auto split: if_splits)
  with apart static same show "lt_inv choice iterations n m (lt_moved t pc arr b st)"
    by (intro lt_inv_moved [OF inv here assms(7,9)]) auto
  show "unseen u st arr b" if "u < m" "u \<noteq> t"
    using lw_good_frame(2) [of b u "lt_bench st"] apart that same assms(8) by (simp add: unseen_def)
qed

lemma lt_start_step:
  assumes inv: "lt_inv choice iterations n m st" and t: "t < m" and pc: "lt_pcs st t = LtBegin"
  shows "\<exists>b. Thread_start choice t (lt_bench st) = Inr b
    \<and> lt_inv choice iterations n m (lt_moved t (LtCall 0 0) (lt_array st) b st)
    \<and> lt_content t b = Some (0, \<lambda>_. None)
    \<and> (\<forall>u < m. u \<noteq> t \<longrightarrow> unseen u st (lt_array st) b)"
proof -
  let ?b = "lt_bench st"
  have bufs: "lt_buffers choice m (lt_pcs st) ?b" using inv by (simp add: lt_inv_def)
  from inv t have "lt_pc_inv choice iterations n t (lt_array st) ?b (lt_pcs st t)" by (simp add: lt_inv_def)
  then have static: "choice < BODY_DYNBUF \<Longrightarrow> t < 8 \<and> lw_heap ?b t = Some new_LocalBuffer"
    by (simp add: pc del: less_Instrument_def)
  have "lw_freeBufs ?b = []" "8 \<le> lw_next ?b" using bufs by (simp_all add: lt_buffers_def)
  from Thread_start_ok [OF this static] obtain b a buf where
    b: "Thread_start choice t ?b = Inr b" "lw_log_buffer b = (lw_log_buffer ?b)(t \<mapsto> a)"
      "lw_heap b = (lw_heap ?b)(a \<mapsto> buf)" "lb_events buf = 0" "lb_buf buf = (\<lambda>_. None)" "stamped 0 buf"
      "lw_freeBufs b = []" "a < lw_next b" "lw_next ?b \<le> lw_next b"
    and a: "a = (if choice < BODY_DYNBUF then t else lw_next ?b)" by blast
  have apart: "lw_log_buffer ?b u \<noteq> Some a" if u: "u < m" "u \<noteq> t" "lt_pcs st u \<noteq> LtBegin" for u
  proof -
    from bufs u(1,3) obtain x where "lw_log_buffer ?b u = Some x" "x < lw_next ?b" "choice < BODY_DYNBUF \<longrightarrow> x = u"
      unfolding lt_buffers_def by blast
    with a u(2) show ?thesis by (auto simp del: less_Instrument_def)
  qed
  have good: "body_good choice t b"
    using b(2-6) by (auto simp: body_good_def lw_good_def)
  have "lt_buffers choice m ((lt_pcs st)(t := LtCall 0 0)) b"
    unfolding lt_buffers_def
  proof (intro conjI allI impI)
    fix u
    assume u: "u < m" "((lt_pcs st)(t := LtCall 0 0)) u \<noteq> LtBegin"
    show "\<exists>x. lw_log_buffer b u = Some x \<and> x < lw_next b \<and> (choice < BODY_DYNBUF \<longrightarrow> x = u)
        \<and> (\<forall>v < m. v \<noteq> u \<longrightarrow> ((lt_pcs st)(t := LtCall 0 0)) v \<noteq> LtBegin \<longrightarrow> lw_log_buffer b v \<noteq> Some x)"
    proof (cases "u = t")
      case True
      with b(2,8) a apart show ?thesis by (intro exI [of _ a]) (auto simp del: less_Instrument_def)
    next
      case False
      with bufs u obtain x where "lw_log_buffer ?b u = Some x" "x < lw_next ?b" "choice < BODY_DYNBUF \<longrightarrow> x = u"
        "\<forall>v < m. v \<noteq> u \<longrightarrow> lt_pcs st v \<noteq> LtBegin \<longrightarrow> lw_log_buffer ?b v \<noteq> Some x"
        unfolding lt_buffers_def by (metis fun_upd_other)
      with False u b(2,9) apart [of u] show ?thesis
        by (intro exI [of _ x]) (auto simp del: less_Instrument_def split: if_splits)
    qed
  qed (use b(7,9) bufs in \<open>simp_all add: lt_buffers_def\<close>)
  moreover have "lw_heap b u = lw_heap ?b u" if "u \<noteq> t" "choice < BODY_DYNBUF" for u
    using that a b(3) by (simp del: less_Instrument_def)
  moreover have kept: "lw_heap b x = lw_heap ?b x"
    if "u < m" "u \<noteq> t" "lt_pcs st u \<noteq> LtBegin" "lw_log_buffer ?b u = Some x" for u x
    using apart that b(3) by fastforce
  ultimately have "lt_inv choice iterations n m (lt_moved t (LtCall 0 0) (lt_array st) b st)"
    using good b(2)
    by (intro lt_inv_moved [OF inv]) (auto simp: written_def simp del: less_Instrument_def)
  moreover have "unseen u st (lt_array st) b" if "u < m" "u \<noteq> t" for u
    using lw_good_frame(2) [of b u ?b] kept that b(2) by (simp add: unseen_def)
  moreover have "lt_content t b = Some (0, \<lambda>_. None)" using b(2-5) by (simp add: lt_content_def)
  ultimately show ?thesis using b(1) by blast
qed

text \<open>Every step of a thread that has not ended.\<close>

lemma lt_step_cases:
  assumes one: "in_one_buffer choice" and inv: "lt_inv choice iterations (nat len) m st" and t: "t < m"
    and busy: "lt_pcs st t \<noteq> LtDone"
  shows "\<exists>pc arr b. lt_step tsc choice iterations len t st = Inr (lt_moved t pc arr b st)
    \<and> lt_inv choice iterations (nat len) m (lt_moved t pc arr b st)
    \<and> lt_progress iterations (nat len) pc = Suc (lt_progress iterations (nat len) (lt_pcs st t))
    \<and> (\<forall>u < m. u \<noteq> t \<longrightarrow> unseen u st arr b)"
proof -
  let ?n = "nat len" and ?arr = "lt_array st" and ?b = "lt_bench st"
  have here: "lt_pc_inv choice iterations ?n t ?arr ?b (lt_pcs st t)" using inv t by (simp add: lt_inv_def)
  have go: ?thesis if "lt_step tsc choice iterations len t st = Inr (lt_moved t pc arr b st)"
    "lt_inv choice iterations ?n m (lt_moved t pc arr b st)"
    "lt_progress iterations ?n pc = Suc (lt_progress iterations ?n (lt_pcs st t))"
    "\<And>u. u < m \<Longrightarrow> u \<noteq> t \<Longrightarrow> unseen u st arr b" for pc arr b
    using that by blast
  note own = lt_own_step [OF inv t]
  show ?thesis
  proof (cases "lt_pcs st t")
    case LtBegin
    from lt_start_step [OF inv t LtBegin] obtain b where "Thread_start choice t ?b = Inr b"
      "lt_inv choice iterations ?n m (lt_moved t (LtCall 0 0) ?arr b st)"
      "\<forall>u < m. u \<noteq> t \<longrightarrow> unseen u st ?arr b" by blast
    with LtBegin show ?thesis by (intro go [of "LtCall 0 0" ?arr b]) (simp_all add: lt_step_def)
  next
    case (LtCall i j)
    consider "i = iterations" "j = 0" | "i < iterations" "j < ?n" | "i < iterations" "j = ?n"
      using here LtCall by force
    then show ?thesis
    proof cases
      case 1
      with own [of LtDone ?arr ?b] here LtCall show ?thesis
        by (intro go [of LtDone ?arr ?b]) (simp_all add: lt_step_def lt_steps_def)
    next
      case 2
      let ?e = "(416, elem_addr ?arr (t * ?n + j), of_nat j) :: access"
      from here LtCall have "body_good choice t ?b" by simp
      from body_call [OF one this, of tsc ?e] obtain b where
        "lw_write8_plain tsc choice t ?e ?b = Inr b" "body_good choice t b" "lt_own t ?b b" by blast
      with own [of "LtStore i j" ?arr b] here LtCall 2 show ?thesis
        by (intro go [of "LtStore i j" ?arr b])
          (simp_all add: lt_step_def zless_nat_eq_int_zless [symmetric])
    next
      case 3
      moreover have "written (t * ?n) ?n (Suc i) 0 ?arr" using here LtCall 3 by (auto simp: written_def)
      moreover have "Suc i < iterations \<or> Suc i = iterations" using 3(1) by linarith
      ultimately show ?thesis
        using own [of "LtCall (Suc i) 0" ?arr ?b] here LtCall
        by (intro go [of "LtCall (Suc i) 0" ?arr ?b])
          (simp_all add: lt_step_def zless_nat_eq_int_zless [symmetric])
    qed
  next
    case (LtStore i j)
    let ?arr1 = "?arr\<lparr>arr_elems := (arr_elems ?arr)[t * ?n + j := of_nat j]\<rparr>"
    have slice: "t * ?n + ?n \<le> length (arr_elems ?arr)"
      using inv t mult_le_mono1 [of "Suc t" m ?n] by (simp add: lt_inv_def)
    have j: "j < ?n" "i < iterations" using here LtStore by simp_all
    with slice have "store_elem (t * ?n + j) (of_nat j) ?arr = Inr ?arr1" by (simp add: store_elem_def)
    moreover have "arr_elems ?arr1 ! x = arr_elems ?arr ! x" if "\<And>k. k < ?n \<Longrightarrow> x \<noteq> t * ?n + k" for x
      using that [OF j(1)] by simp
    moreover have "lt_pc_inv choice iterations ?n t ?arr1 ?b (LtCall i (Suc j))"
      using here LtStore j slice by (auto intro: written_Suc)
    ultimately show ?thesis
      using own [of "LtCall i (Suc j)" ?arr1 ?b] LtStore
      by (intro go [of "LtCall i (Suc j)" ?arr1 ?b]) (simp_all add: lt_step_def)
  qed (use busy in simp)
qed

section \<open>Schedules\<close>

lemma lt_progress_bound:
  assumes "lt_pc_inv choice iterations n t arr b pc"
  shows "lt_progress iterations n pc \<le> lt_steps iterations n"
    and "lt_progress iterations n pc = lt_steps iterations n \<Longrightarrow> pc = LtDone"
proof -
  have round: "i * (2 * n + 1) + (2 * n + 1) \<le> iterations * (2 * n + 1)" if "i < iterations" for i
    using mult_le_mono1 [of "Suc i" iterations "2 * n + 1"] that by simp
  show "lt_progress iterations n pc \<le> lt_steps iterations n"
    using assms round by (cases pc) (force simp: lt_steps_def)+
  show "pc = LtDone" if "lt_progress iterations n pc = lt_steps iterations n"
    using assms that round by (cases pc) (force simp: lt_steps_def)+
qed

interpretation bench_threads: scheduled "lt_step tsc choice iterations len" "{..<m}"
  "\<lambda>st. in_one_buffer choice \<and> lt_inv choice iterations (nat len) m st"
  "\<lambda>t st. lt_progress iterations (nat len) (lt_pcs st t)" "lt_steps iterations (nat len)"
  for tsc choice iterations len m
proof unfold_locales
  fix st t
  assume st: "in_one_buffer choice \<and> lt_inv choice iterations (nat len) m st" and t: "t \<in> {..<m}"
  then have here: "lt_pc_inv choice iterations (nat len) t (lt_array st) (lt_bench st) (lt_pcs st t)"
    by (simp add: lt_inv_def)
  show "lt_progress iterations (nat len) (lt_pcs st t) \<le> lt_steps iterations (nat len)"
    by (rule lt_progress_bound(1) [OF here])
  show "lt_step tsc choice iterations len t st = Inr st"
    if "lt_progress iterations (nat len) (lt_pcs st t) = lt_steps iterations (nat len)"
    using lt_progress_bound(2) [OF here that] by (simp add: lt_step_def)
  show "\<exists>st'. lt_step tsc choice iterations len t st = Inr st'
      \<and> (in_one_buffer choice \<and> lt_inv choice iterations (nat len) m st')
      \<and> (\<forall>u \<in> {..<m}. lt_progress iterations (nat len) (lt_pcs st' u)
          = lt_progress iterations (nat len) (lt_pcs st u) + (if u = t then 1 else 0))"
    if "lt_progress iterations (nat len) (lt_pcs st t) < lt_steps iterations (nat len)"
  proof -
    from that have "lt_pcs st t \<noteq> LtDone" by auto
    with lt_step_cases [of choice iterations len m st t tsc] st t show ?thesis by fastforce
  qed
qed

definition lt_like :: "nat \<Rightarrow> lt_state \<Rightarrow> lt_state \<Rightarrow> bool" where
  "lt_like t st st' \<longleftrightarrow> lt_pcs st' t = lt_pcs st t \<and> arr_base (lt_array st') = arr_base (lt_array st)
     \<and> (lt_pcs st t \<noteq> LtBegin \<longrightarrow> lt_content t (lt_bench st') = lt_content t (lt_bench st))"

lemma lt_like_own:
  assumes quiet: "in_one_buffer choice" "choice \<noteq> BODY_RDTSC"
    and inv: "lt_inv choice iterations (nat len) m st" "lt_inv choice iterations (nat len) m r"
    and t: "t < m" and same: "lt_like t st r"
    and steps: "lt_step tsc choice iterations len t st = Inr st'"
      "lt_step tsc choice iterations len t r = Inr r'"
  shows "lt_like t st' r'"
proof -
  let ?n = "nat len"
  have pc: "lt_pcs r t = lt_pcs st t" and base: "arr_base (lt_array r) = arr_base (lt_array st)"
    using same by (simp_all add: lt_like_def)
  have here: "lt_pc_inv choice iterations ?n t (lt_array s) (lt_bench s) (lt_pcs s t)" if "s \<in> {st, r}" for s
    using inv t that by (auto simp: lt_inv_def)
  show ?thesis
  proof (cases "lt_pcs st t")
    case LtBegin
    with pc lt_start_step [OF inv(1) t] lt_start_step [OF inv(2) t] steps base show ?thesis
      by (auto simp: lt_step_def lt_like_def)
  next
    case (LtCall i j)
    with same have content: "lt_content t (lt_bench r) = lt_content t (lt_bench st)" by (simp add: lt_like_def)
    have good: "body_good choice t (lt_bench st)" "body_good choice t (lt_bench r)"
      using here LtCall pc by force+
    let ?e = "\<lambda>s. (416, elem_addr (lt_array s) (t * ?n + j), of_nat j) :: access"
    have "?e r = ?e st" using base by (simp add: elem_addr_def)
    with body_call_content [OF quiet good content [symmetric], of tsc "?e st"] steps LtCall pc base content
    show ?thesis by (auto simp: lt_step_def Let_def lt_like_def and_then_Inr_iff split: if_splits)
  next
    case (LtStore i j)
    with same have "lt_content t (lt_bench r) = lt_content t (lt_bench st)" by (simp add: lt_like_def)
    with steps LtStore pc base show ?thesis
      by (auto simp: lt_step_def Let_def lt_like_def store_elem_def and_then_Inr_iff split: if_splits)
  next
    case LtDone
    with same steps pc show ?thesis by (simp add: lt_step_def)
  qed
qed

interpretation bench_private: private_tasks "lt_step tsc choice iterations len" "{..<m}"
  "\<lambda>st. in_one_buffer choice \<and> choice \<noteq> BODY_RDTSC \<and> lt_inv choice iterations (nat len) m st"
  "\<lambda>t st. lt_progress iterations (nat len) (lt_pcs st t)" "lt_steps iterations (nat len)" lt_like
  for tsc choice iterations len m
proof unfold_locales
  fix st r t u st' r'
  let ?inv = "\<lambda>st. in_one_buffer choice \<and> choice \<noteq> BODY_RDTSC \<and> lt_inv choice iterations (nat len) m st"
  show "lt_like t st st" by (simp add: lt_like_def)
  show "lt_like t st' r'"
    if "?inv st" "?inv r" "t \<in> {..<m}" "lt_like t st r"
      "lt_step tsc choice iterations len t st = Inr st'" "lt_step tsc choice iterations len t r = Inr r'"
    using that by (auto intro: lt_like_own)
  show "lt_like t st' r"
    if "?inv st" "t \<in> {..<m}" "u \<in> {..<m}" "t \<noteq> u" "lt_like t st r"
      "lt_step tsc choice iterations len u st = Inr st'"
  proof (cases "lt_pcs st u = LtDone")
    case True
    with that(5,6) show ?thesis by (simp add: lt_step_def)
  next
    case False
    with lt_step_cases [of choice iterations len m st u tsc] that(1-4,6) obtain pc arr b where
      "st' = lt_moved u pc arr b st" "unseen t st arr b" by fastforce
    with that(4,5) show ?thesis by (auto simp: lt_like_def unseen_def)
  qed
  show "\<exists>st'. lt_step tsc choice iterations len t st = Inr st' \<and> ?inv st'
      \<and> (\<forall>u \<in> {..<m}. lt_progress iterations (nat len) (lt_pcs st' u)
          = lt_progress iterations (nat len) (lt_pcs st u) + (if u = t then 1 else 0))"
    if "?inv st" "t \<in> {..<m}" "lt_progress iterations (nat len) (lt_pcs st t) < lt_steps iterations (nat len)"
  proof -
    from that have "in_one_buffer choice \<and> lt_inv choice iterations (nat len) m st" by simp
    from bench_threads.advance [OF this that(2,3), of tsc] that(1) show ?thesis by blast
  qed
qed (use bench_threads.bound bench_threads.ended in \<open>blast+\<close>)

text \<open>What a thread alone leaves behind, however long one lets it run.\<close>

lemma count_list_replicate: "count_list (replicate k t) t = k"
  by (induction k) simp_all

lemma lt_alone_result:
  assumes body: "in_one_buffer choice" and inv: "lt_inv choice iterations (nat len) m (lt_start arr)" and t: "t < m"
    and run: "lt_alone tsc choice iterations len t (lt_steps iterations (nat len) + d) (lt_start arr) = Inr r"
    and len: "0 \<le> len"
  shows "Thread iter tsc choice iterations t len (arr, init_bench) = Some (Inr (lt_array r, lt_bench r))"
proof -
  let ?k = "lt_steps iterations (nat len)" and ?s0 = "lt_start arr"
  from run obtain r0 where r0: "lt_alone tsc choice iterations len t ?k ?s0 = Inr r0"
    "lt_alone tsc choice iterations len t d r0 = Inr r"
    unfolding lt_alone_add by (auto simp: and_then_Inr_iff)
  have "set (replicate ?k t) \<subseteq> {..<m}" using t by auto
  from bench_threads.schedule_ok [of choice iterations len m ?s0 "replicate ?k t" tsc] this inv body r0(1) t
  have "lt_inv choice iterations (nat len) m r0" "lt_progress iterations (nat len) (lt_pcs r0 t) = ?k"
    by (auto simp: lt_start_def count_list_replicate)
  with t have "lt_pcs r0 t = LtDone"
    using lt_progress_bound(2) [of choice iterations "nat len" t "lt_array r0" "lt_bench r0" "lt_pcs r0 t"]
    by (simp add: lt_inv_def)
  then have "lt_alone tsc choice iterations len t d r0 = Inr r0"
    by (induction d) (simp_all add: lt_step_def)
  with r0(2) have "r = r0" by simp
  moreover have "choice \<noteq> BODY_EPOCH" using body by (simp add: in_one_buffer_def)
  ultimately show ?thesis
    using Thread_in_steps [OF _ len, of choice ?s0 t iter tsc iterations] r0(1) by (simp add: lt_start_def)
qed

lemma lw_main_plan_Inr:
  assumes "lw_main_plan args = Inr (n, len, len_a)"
  shows "0 < n" and "0 \<le> len" and "len_a = n * len" and "nat len_a = nat n * nat len"
proof -
  from assms show n: "0 < n" and len_a: "len_a = n * len"
    by (auto simp: lw_main_plan_def and_then_Inr_iff int_mul_def assert_that_def
        split: list.splits if_splits)
  from assms have "0 \<le> len_a" by (auto simp: lw_main_plan_def and_then_Inr_iff split: if_splits)
  with n len_a show "0 \<le> len" by (simp add: zero_le_mult_iff)
  with n len_a show "nat len_a = nat n * nat len" by (simp add: nat_mult_distrib)
qed

text \<open>
  C38: the threads of the earlier benchmark may be interleaved in any way: with a body other than \<open>COUNT\<close>,
  whose counter can overflow, and \<open>EPOCH\<close>, and with at most 8 threads where the body takes the static buffers
  (those below \<open>DYNBUF\<close>), no step of any of them fails, each ends after \<open>lt_steps\<close> steps of its own, and when all have
  ended the array is filled. But for the body that reads the clock, each thread's buffer then holds
  what \<open>Thread\<close> alone leaves in it.
\<close>

theorem interleaved_bench:
  assumes plan: "lw_main_plan args = Inr (n, len, len_a)" and body: "in_one_buffer choice"
    and few: "choice < BODY_DYNBUF \<Longrightarrow> n \<le> 8" and "0 < iterations"
    and sched: "set sched \<subseteq> {..<nat n}" and "int (length (arr_elems arr)) = len_a"
  shows "\<exists>st. log_all (lt_step tsc choice iterations len) sched (lt_start arr) = Inr st
    \<and> ((\<forall>t < nat n. lt_steps iterations (nat len) \<le> count_list sched t) \<longrightarrow>
        (\<forall>t < nat n. lt_pcs st t = LtDone)
        \<and> (\<forall>k < length (arr_elems arr). arr_elems (lt_array st) ! k = of_nat (k mod nat len))
        \<and> (choice \<noteq> BODY_RDTSC \<longrightarrow> (\<forall>t < nat n. \<exists>arr' b.
            Thread iter tsc choice iterations t len (arr, init_bench) = Some (Inr (arr', b))
            \<and> lt_content t b = lt_content t (lt_bench st))))"
proof -
  let ?n = "nat len" and ?m = "nat n" and ?step = "lt_step tsc choice iterations len" and ?s0 = "lt_start arr"
  have elems: "length (arr_elems arr) = ?m * ?n" using lw_main_plan_Inr(4) [OF plan] assms(6) by simp
  have m: "choice < BODY_DYNBUF \<Longrightarrow> ?m \<le> 8" using few by linarith
  have inv: "lt_inv choice iterations ?n ?m ?s0" by (rule lt_start_inv [OF elems m])
  from bench_threads.schedule_ok [of choice iterations len ?m ?s0 sched tsc] inv body sched obtain st where
    st: "log_all ?step sched ?s0 = Inr st" "lt_inv choice iterations ?n ?m st"
    and prog: "\<forall>t < ?m. lt_progress iterations ?n (lt_pcs st t)
      = min (lt_steps iterations ?n) (count_list sched t)"
    by (auto simp: lt_start_def)
  have "(\<forall>t < ?m. lt_pcs st t = LtDone)
      \<and> (\<forall>k < length (arr_elems arr). arr_elems (lt_array st) ! k = of_nat (k mod ?n))
      \<and> (choice \<noteq> BODY_RDTSC \<longrightarrow> (\<forall>t < ?m. \<exists>arr' b.
          Thread iter tsc choice iterations t len (arr, init_bench) = Some (Inr (arr', b))
          \<and> lt_content t b = lt_content t (lt_bench st)))"
    if enough: "\<forall>t < ?m. lt_steps iterations ?n \<le> count_list sched t"
  proof (intro conjI allI impI)
    have here: "lt_pc_inv choice iterations ?n t (lt_array st) (lt_bench st) (lt_pcs st t)" if "t < ?m" for t
      using st(2) that by (simp add: lt_inv_def)
    show done_all: "lt_pcs st t = LtDone" if "t < ?m" for t
      using lt_progress_bound(2) [OF here [OF that]] prog enough that by simp
    show "arr_elems (lt_array st) ! k = of_nat (k mod ?n)" if "k < length (arr_elems arr)" for k
      using all_written [OF _ assms(4), of ?m ?n "lt_array st" k] here done_all that elems by auto
    fix t
    assume quiet: "choice \<noteq> BODY_RDTSC" and t: "t < ?m"
    from bench_private.as_alone [of choice iterations len ?m ?s0 sched t tsc] inv body quiet sched t st(1)
    obtain r where r: "lt_alone tsc choice iterations len t (count_list sched t) ?s0 = Inr r"
      "lt_inv choice iterations ?n ?m r" and same: "lt_like t st r" by auto
    from enough t obtain d where d: "count_list sched t = lt_steps iterations ?n + d"
      using le_Suc_ex by blast
    show "\<exists>arr' b. Thread iter tsc choice iterations t len (arr, init_bench) = Some (Inr (arr', b))
      \<and> lt_content t b = lt_content t (lt_bench st)"
      using lt_alone_result [OF body inv t r(1) [unfolded d] lw_main_plan_Inr(2) [OF plan], of iter] same
        done_all [OF t] by (auto simp: lt_like_def lt_start_def)
  qed
  with st(1) show ?thesis by blast
qed

theorem interleaved_bench_witness:
  "\<exists>st. log_all (lt_step (\<lambda>_. 0) BODY_DYNBUF 1 2) (concat (replicate 7 [1, 0]))
      (lt_start \<lparr>arr_base = 4096, arr_elems = [7, 7, 7, 7]\<rparr>) = Inr st
    \<and> lt_pcs st 0 = LtDone \<and> arr_elems (lt_array st) ! 3 = of_nat (3 mod nat 2)
    \<and> (\<exists>arr' b. Thread (\<lambda>_. []) (\<lambda>_. 0) BODY_DYNBUF 1 0 2
        (\<lparr>arr_base = 4096, arr_elems = [7, 7, 7, 7]\<rparr>, init_bench) = Some (Inr (arr', b))
      \<and> lt_content 0 b = lt_content 0 (lt_bench st))"
proof -
  let ?arr = "\<lparr>arr_base = 4096, arr_elems = [7, 7, 7, 7]\<rparr> :: int64_array"
  let ?sched = "concat (replicate 7 [1, 0]) :: nat list"
  have plan: "lw_main_plan [2, 2] = Inr (2, 2, 4)" by (simp add: lw_main_plan_def int_mul_def)
  have sched: "set ?sched \<subseteq> {..<nat 2}" by auto
  have enough: "\<forall>t < nat 2. lt_steps 1 (nat 2) \<le> count_list ?sched t"
    by (auto simp: lt_steps_def numeral_eq_Suc less_Suc_eq)
  from interleaved_bench [OF plan _ _ _ sched, of BODY_DYNBUF 1 ?arr "\<lambda>_. 0" "\<lambda>_. []"] enough
  show ?thesis
    by (auto simp: in_one_buffer_def simp del: log_all.simps)
qed

end
