(* ===== verification/EarlierConcurrent.thy ===== *)
theory EarlierConcurrent
  imports EarlierEpochs
begin

text \<open>
  The threads of \<open>local_writes_benchmarks.cc\<close> with the body that ends epochs, step by step: loads
  and stores of the pointers \<open>__log_buffer\<close>, every access of a call to the buffer it has loaded, the
  election, and the methods of \<open>EventBufferManager\<close> under \<open>epochMutex\<close>. Then the refinement of the
  sequential function \<open>lw_write8\<close>.
\<close>

section \<open>Where a thread is\<close>

text \<open>
  \<open>LwIdle\<close>: between two calls of \<open>__tsan_write8\<close>. \<open>LwLoaded\<close>: in a call, with the pointer it
  loaded. \<open>LwAppend\<close>, \<open>LwBump\<close>, \<open>LwPut\<close>: in \<open>buf[events++] = w\<close>, before it reads \<open>events\<close>, with the
  index read, and with \<open>events\<close> stored; \<open>w\<close> is an event or a timestamp. \<open>LwCount\<close>, \<open>LwDecrement\<close>:
  in \<open>eventsToRdtsc--\<close>. \<open>LwCounted\<close>: before the test of it. \<open>LwSlow\<close>: at the start of
  \<open>__tsan_mem_access_slow\<close>. \<open>LwSlowBuf\<close>: there, with a buffer. \<open>LwStamp\<close>: a timestamp is due.
  \<open>LwRestart\<close>: it is stored. \<open>LwTest\<close>: before the test for a full buffer. \<open>LwFull\<close>: the buffer is
  full. \<open>LwElect\<close>: with the epoch of it, before the \<open>compare_exchange\<close>. \<open>LwEnd\<close>: coordinator,
  before \<open>endEpoch\<close>. \<open>LwWait\<close>: in the loop of \<open>endEpoch\<close>, with \<open>stopTime\<close>. \<open>LwClear\<close>: behind that
  loop. \<open>LwReturn\<close>: in the loop over \<open>bufsInUse\<close>, before the buffer at a position. \<open>LwReset\<close>: in
  \<open>reset\<close> of it, before the store of one of its four members. \<open>LwPool\<close>: before it goes to the pool.
  \<open>LwNeed\<close>: before its call of \<open>allocBuffer\<close>, where every thread starts. \<open>LwTaken\<close>, \<open>LwNamed\<close>,
  \<open>LwDated\<close>, \<open>LwPublish\<close>: in that call, with a buffer, before it stores the number of the thread, reads
  the epoch, stores it, and stores the pointer. \<open>LwExited\<close>: the thread has returned, and its
  \<open>__log_buffer\<close> is gone.
\<close>

datatype entry = AccessEntry | StampEntry

datatype lw_pc =
    LwIdle
  | LwLoaded "nat option"
  | LwAppend nat u64 entry
  | LwBump nat u64 entry int
  | LwPut nat u64 entry int
  | LwCount nat
  | LwDecrement nat int
  | LwCounted nat
  | LwSlow
  | LwSlowBuf nat
  | LwStamp nat
  | LwRestart nat
  | LwTest nat
  | LwFull nat
  | LwElect int
  | LwEnd
  | LwWait u64
  | LwClear
  | LwReturn nat
  | LwReset nat nat nat
  | LwPool nat nat
  | LwNeed
  | LwTaken nat int
  | LwNamed nat
  | LwDated nat int
  | LwPublish nat
  | LwExited

record lw_system =
  lw_bench :: bench
  lw_pcs :: "nat \<Rightarrow> lw_pc"
  epochMutex :: "nat option"

definition init_lw_system :: lw_system where
  "init_lw_system = \<lparr>lw_bench = init_bench, lw_pcs = (\<lambda>_. LwNeed), epochMutex = None\<rparr>"

definition lw_goto :: "nat \<Rightarrow> lw_pc \<Rightarrow> bench \<Rightarrow> lw_system \<Rightarrow> lw_system" where
  "lw_goto t pc b s = s\<lparr>lw_bench := b, lw_pcs := (lw_pcs s)(t := pc)\<rparr>"

text \<open>
  \<open>threadLocalBufs\<close> holds addresses of thread-local pointers: to follow one whose thread has returned
  is a use after free.
\<close>

definition registered_live :: "lw_system \<Rightarrow> unit result" where
  "registered_live s =
     (if \<exists>u \<in> threadLocalBufs (lw_bench s). lw_pcs s u = LwExited then Inl UseAfterFree else Inr ())"

section \<open>Steps\<close>

text \<open>
  What a thread does with the buffer that it has at hand, one access to memory at a time, to a member of
  the buffer or to \<open>__global_epoch\<close>: while it logs, in \<open>reset\<close>, and in \<open>allocBuffer\<close>. \<open>None\<close> where the
  next step is not of this kind.
\<close>

fun after_put :: "entry \<Rightarrow> nat \<Rightarrow> lw_pc" where
  "after_put AccessEntry a = LwCount a"
| "after_put StampEntry a = LwRestart a"

text \<open>The stores of \<open>reset\<close>, in their order.\<close>

fun reset_member :: "nat \<Rightarrow> LocalBuffer \<Rightarrow> LocalBuffer" where
  "reset_member 0 buf = buf\<lparr>lb_tid := -1\<rparr>"
| "reset_member (Suc 0) buf = buf\<lparr>lb_epoch := -1\<rparr>"
| "reset_member (Suc (Suc 0)) buf = buf\<lparr>lb_events := 0\<rparr>"
| "reset_member _ buf = buf\<lparr>lb_eventsToRdtsc := RDTSC_SAMPLING_RATE\<rparr>"

definition lw_field :: "nat \<Rightarrow> (LocalBuffer \<Rightarrow> lw_pc) \<Rightarrow> bench \<Rightarrow> (lw_pc \<times> bench) result" where
  "lw_field a next b = and_then (lw_load a b) (\<lambda>buf. Inr (next buf, b))"

definition lw_assign ::
  "nat \<Rightarrow> (LocalBuffer \<Rightarrow> LocalBuffer) \<Rightarrow> lw_pc \<Rightarrow> bench \<Rightarrow> (lw_pc \<times> bench) result" where
  "lw_assign a f next b = and_then (lw_modify a f b) (\<lambda>b1. Inr (next, b1))"

fun lw_access :: "(nat \<Rightarrow> u64) \<Rightarrow> lw_pc \<Rightarrow> bench \<Rightarrow> (lw_pc \<times> bench) result option" where
  "lw_access tsc (LwAppend a w k) b = Some (lw_field a (\<lambda>buf. LwBump a w k (lb_events buf)) b)"
| "lw_access tsc (LwBump a w k i) b = Some (and_then (int_add i 1) (\<lambda>n.
     lw_assign a (\<lambda>buf. buf\<lparr>lb_events := n\<rparr>) (LwPut a w k i) b))"
| "lw_access tsc (LwPut a w k i) b = Some (
     if 0 \<le> i \<and> i < LB_LEN then
       lw_assign a (\<lambda>buf. buf\<lparr>lb_buf := (lb_buf buf)(i \<mapsto> w)\<rparr>)
         (after_put k a) b
     else Inl OutOfBounds)"
| "lw_access tsc (LwCount a) b = Some (lw_field a (\<lambda>buf. LwDecrement a (lb_eventsToRdtsc buf)) b)"
| "lw_access tsc (LwDecrement a r) b = Some (and_then (int_add r (-1)) (\<lambda>n.
     lw_assign a (\<lambda>buf. buf\<lparr>lb_eventsToRdtsc := n\<rparr>) (LwCounted a) b))"
| "lw_access tsc (LwCounted a) b =
     Some (lw_field a (\<lambda>buf. if lb_eventsToRdtsc buf = 0 then LwSlow else LwIdle) b)"
| "lw_access tsc (LwSlowBuf a) b =
     Some (lw_field a (\<lambda>buf. if lb_eventsToRdtsc buf = 0 then LwStamp a else LwIdle) b)"
| "lw_access tsc (LwStamp a) b =
     (let (time, b1) = lw_rdtsc tsc b in Some (Inr (LwAppend a (encode_rdtsc time) StampEntry, b1)))"
| "lw_access tsc (LwRestart a) b =
     Some (lw_assign a (\<lambda>buf. buf\<lparr>lb_eventsToRdtsc := RDTSC_SAMPLING_RATE\<rparr>) (LwTest a) b)"
| "lw_access tsc (LwTest a) b =
     Some (lw_field a (\<lambda>buf. if LB_MAX_EVENTS \<le> lb_events buf then LwFull a else LwIdle) b)"
| "lw_access tsc (LwFull a) b = Some (lw_field a (\<lambda>buf. LwElect (lb_epoch buf)) b)"
| "lw_access tsc (LwElect e) b = Some (and_then (int_add e 1) (\<lambda>n.
     if global_epoch b = e then Inr (LwEnd, b\<lparr>global_epoch := n\<rparr>) else Inr (LwNeed, b)))"
| "lw_access tsc (LwReset i a n) b =
     Some (lw_assign a (reset_member n) (if n < 3 then LwReset i a (Suc n) else LwPool i a) b)"
| "lw_access tsc (LwTaken a tid) b =
     Some (lw_assign a (\<lambda>buf. buf\<lparr>lb_tid := tid\<rparr>) (LwNamed a) b)"
| "lw_access tsc (LwNamed a) b = Some (Inr (LwDated a (global_epoch b), b))"
| "lw_access tsc (LwDated a e) b =
     Some (lw_assign a (\<lambda>buf. buf\<lparr>lb_epoch := e\<rparr>) (LwPublish a) b)"
| "lw_access tsc _ b = None"

text \<open>
  A rule's last argument is the outcome of the step. \<open>lw_collect\<close> is the part of \<open>endEpoch\<close> in front
  of its loop, \<open>lw_spin\<close> one test of the loop with the round that it allows; \<open>lw_take\<close> and
  \<open>lw_publish\<close> are the two ends of \<open>allocBuffer\<close>. What these do is seen by threads that hold
  \<open>epochMutex\<close> only.
\<close>

definition lw_collect :: "(nat set \<Rightarrow> nat list) \<Rightarrow> (nat \<Rightarrow> u64) \<Rightarrow> bench \<Rightarrow> u64 \<times> bench" where
  "lw_collect iter tsc b =
     (let (time, b1) = lw_rdtsc tsc
        (b\<lparr>bufsInUse := bufsInUse b @ map (lw_log_buffer b) (iter (threadLocalBufs b))\<rparr>)
      in (time + 1000, b1))"

definition lw_spin :: "(nat \<Rightarrow> u64) \<Rightarrow> u64 \<Rightarrow> bench \<Rightarrow> bool \<times> bench" where
  "lw_spin tsc stop b =
     (let (time, b1) = lw_rdtsc tsc b in
      if time < stop
        then (True, b1\<lparr>lw_log_buffer :=
                (\<lambda>t. if t \<in> threadLocalBufs b1 then None else lw_log_buffer b1 t)\<rparr>)
        else (False, b1))"

definition lw_clear :: "bench \<Rightarrow> bench" where
  "lw_clear b = b\<lparr>threadLocalBufs := {}\<rparr>"

definition lw_pool :: "nat \<Rightarrow> bench \<Rightarrow> bench" where
  "lw_pool a b = b\<lparr>lw_freeBufs := lw_freeBufs b @ [a]\<rparr>"

definition lw_take :: "nat \<Rightarrow> bench \<Rightarrow> lw_pc \<times> bench" where
  "lw_take t b =
     (let (a, b1) = lw_take_buffer b; (tid, b2) = lw_tid t b1 in (LwTaken a tid, b2))"

definition lw_publish :: "nat \<Rightarrow> nat \<Rightarrow> bench \<Rightarrow> bench" where
  "lw_publish t a b = b\<lparr>lw_log_buffer := (lw_log_buffer b)(t \<mapsto> a),
     threadLocalBufs := insert t (threadLocalBufs b)\<rparr>"

inductive lw_step ::
  "(nat set \<Rightarrow> nat list) \<Rightarrow> (nat \<Rightarrow> u64) \<Rightarrow> nat \<Rightarrow> lw_system \<Rightarrow> lw_system result \<Rightarrow> bool"
  for iter tsc t s where
  load: "lw_pcs s t = LwIdle \<Longrightarrow>
     lw_step iter tsc t s
       (Inr (lw_goto t (LwLoaded (lw_log_buffer (lw_bench s) t)) (lw_bench s) s))"
| event: "lw_pcs s t = LwLoaded (Some a) \<Longrightarrow>
     lw_step iter tsc t s
       (Inr (lw_goto t (LwAppend a (encode_bench pc addr val) AccessEntry) (lw_bench s) s))"
| access: "lw_access tsc (lw_pcs s t) (lw_bench s) = Some outcome \<Longrightarrow>
     lw_step iter tsc t s (and_then outcome (\<lambda>(pc, b). Inr (lw_goto t pc b s)))"
| no_buffer: "lw_pcs s t = LwLoaded None \<Longrightarrow>
     lw_step iter tsc t s (Inr (lw_goto t LwSlow (lw_bench s) s))"
| reload: "lw_pcs s t = LwSlow \<Longrightarrow>
     lw_step iter tsc t s
       (Inr (lw_goto t
         (case lw_log_buffer (lw_bench s) t of None \<Rightarrow> LwNeed | Some a \<Rightarrow> LwSlowBuf a)
         (lw_bench s) s))"
| collect: "lw_pcs s t = LwEnd \<Longrightarrow> epochMutex s = None \<Longrightarrow>
     lw_step iter tsc t s
       (and_then (registered_live s) (\<lambda>_.
        let (stop, b) = lw_collect iter tsc (lw_bench s) in
        Inr (lw_goto t (LwWait stop) b (s\<lparr>epochMutex := Some t\<rparr>))))"
| spin: "lw_pcs s t = LwWait stop \<Longrightarrow>
     lw_step iter tsc t s
       (let (again, b) = lw_spin tsc stop (lw_bench s) in
        if again then
          and_then (registered_live s) (\<lambda>_. Inr (lw_goto t (LwWait stop) b s))
        else Inr (lw_goto t LwClear b s))"
| clear: "lw_pcs s t = LwClear \<Longrightarrow>
     lw_step iter tsc t s (Inr (lw_goto t (LwReturn 0) (lw_clear (lw_bench s)) s))"
| next_buf: "lw_pcs s t = LwReturn i \<Longrightarrow> i < length (bufsInUse (lw_bench s)) \<Longrightarrow>
     lw_step iter tsc t s
       (and_then (not_null (bufsInUse (lw_bench s) ! i)) (\<lambda>a.
        Inr (lw_goto t (LwReset i a 0) (lw_bench s) s)))"
| pool: "lw_pcs s t = LwPool i a \<Longrightarrow>
     lw_step iter tsc t s (Inr (lw_goto t (LwReturn (Suc i)) (lw_pool a (lw_bench s)) s))"
| unlock: "lw_pcs s t = LwReturn i \<Longrightarrow> i \<ge> length (bufsInUse (lw_bench s)) \<Longrightarrow>
     lw_step iter tsc t s (Inr (lw_goto t LwNeed (lw_bench s) (s\<lparr>epochMutex := None\<rparr>)))"
| take: "lw_pcs s t = LwNeed \<Longrightarrow> epochMutex s = None \<Longrightarrow>
     lw_step iter tsc t s
       (let (pc, b) = lw_take t (lw_bench s) in
        Inr (lw_goto t pc b (s\<lparr>epochMutex := Some t\<rparr>)))"
| publish: "lw_pcs s t = LwPublish a \<Longrightarrow>
     lw_step iter tsc t s
       (Inr (lw_goto t LwIdle (lw_publish t a (lw_bench s)) (s\<lparr>epochMutex := None\<rparr>)))"
| exit: "lw_pcs s t = LwIdle \<Longrightarrow>
     lw_step iter tsc t s (Inr (lw_goto t LwExited (lw_bench s) s))"

inductive lw_reach ::
  "(nat set \<Rightarrow> nat list) \<Rightarrow> (nat \<Rightarrow> u64) \<Rightarrow> lw_system \<Rightarrow> lw_system \<Rightarrow> bool"
  for iter tsc s where
  here: "lw_reach iter tsc s s"
| more: "lw_reach iter tsc s s1 \<Longrightarrow> lw_step iter tsc t s1 (Inr s2) \<Longrightarrow> lw_reach iter tsc s s2"

lemma lw_reach_trans [trans]:
  assumes "lw_reach iter tsc s s1" and "lw_reach iter tsc s1 s2"
  shows "lw_reach iter tsc s s2"
  using assms(2,1) by induction (auto intro: lw_reach.more)

lemma lw_reach_step: "lw_step iter tsc t s (Inr s1) \<Longrightarrow> lw_reach iter tsc s s1"
  by (rule lw_reach.more [OF lw_reach.here])

lemma lw_goto_simps [simp]:
  "lw_bench (lw_goto t pc b s) = b" "lw_pcs (lw_goto t pc b s) = (lw_pcs s)(t := pc)"
  "epochMutex (lw_goto t pc b s) = epochMutex s"
  "lw_goto t pc' b' (lw_goto t pc b s) = lw_goto t pc' b' s"
  "(lw_goto t pc b s)\<lparr>epochMutex := m\<rparr> = lw_goto t pc b (s\<lparr>epochMutex := m\<rparr>)"
  by (simp_all add: lw_goto_def)

lemma registered_live_Inr_iff:
  "registered_live s = Inr u \<longleftrightarrow> (\<forall>v \<in> threadLocalBufs (lw_bench s). lw_pcs s v \<noteq> LwExited)"
  by (simp add: registered_live_def)

lemma registered_live_Inl_iff:
  "registered_live s = Inl e \<longleftrightarrow>
     e = UseAfterFree \<and> (\<exists>v \<in> threadLocalBufs (lw_bench s). lw_pcs s v = LwExited)"
  by (auto simp: registered_live_def)

text \<open>The steps that succeed, one rule for each way to go on.\<close>

lemma access_step:
  assumes "lw_access tsc (lw_pcs s t) (lw_bench s) = Some (Inr (pc, b))"
  shows "lw_step iter tsc t s (Inr (lw_goto t pc b s))"
  using lw_step.access [OF assms, of iter] by simp

lemma access_reach:
  assumes "lw_access tsc pc b = Some (Inr (pc1, b1))"
    and "lw_reach iter tsc s0 (lw_goto t pc b s)"
  shows "lw_reach iter tsc s0 (lw_goto t pc1 b1 s)"
  using lw_reach.more [OF assms(2) access_step [of tsc "lw_goto t pc b s" t pc1 b1 iter]] assms(1)
  by simp

lemma collect_step:
  assumes "lw_pcs s t = LwEnd" and "epochMutex s = None" and "registered_live s = Inr ()"
    and "lw_collect iter tsc (lw_bench s) = (stop, b)"
  shows "lw_step iter tsc t s (Inr (lw_goto t (LwWait stop) b (s\<lparr>epochMutex := Some t\<rparr>)))"
  using lw_step.collect [OF assms(1,2), of iter tsc] assms(3,4) by simp

lemma spin_again_step:
  assumes "lw_pcs s t = LwWait stop" and "registered_live s = Inr ()"
    and "lw_spin tsc stop (lw_bench s) = (True, b)"
  shows "lw_step iter tsc t s (Inr (lw_goto t (LwWait stop) b s))"
  using lw_step.spin [OF assms(1), of iter tsc] assms(2,3) by simp

lemma spin_over_step:
  assumes "lw_pcs s t = LwWait stop" and "lw_spin tsc stop (lw_bench s) = (False, b)"
  shows "lw_step iter tsc t s (Inr (lw_goto t LwClear b s))"
  using lw_step.spin [OF assms(1), of iter tsc] assms(2) by simp

text \<open>
  What a thread does to a buffer leaves the manager alone, and so does the election, the epoch apart.
\<close>

definition lw_frame :: "bench \<Rightarrow> bench \<Rightarrow> bool" where
  "lw_frame b b' \<longleftrightarrow> dom (lw_heap b') = dom (lw_heap b) \<and> lw_next b' = lw_next b
     \<and> lw_log_buffer b' = lw_log_buffer b \<and> lw_freeBufs b' = lw_freeBufs b
     \<and> bufsInUse b' = bufsInUse b \<and> threadLocalBufs b' = threadLocalBufs b"

lemmas lw_ops_def = lw_append_def lw_count_down_def lw_timestamp_def lw_rdtsc_def lw_modify_def
  inc_global_epoch_def

lemmas lw_Inr_iff = and_then_Inr_iff lw_load_Inr_iff int_add_Inr_iff

lemma lw_frame_refl: "lw_frame b b"
  by (simp add: lw_frame_def)

lemma field_Inr: "lw_field a next b = Inr (pc, b') \<longleftrightarrow>
    b' = b \<and> (\<exists>buf. lw_heap b a = Some buf \<and> pc = next buf)"
  by (auto simp: lw_field_def lw_Inr_iff)

lemma assign_Inr: "lw_assign a f next b = Inr (pc, b') \<longleftrightarrow>
    pc = next \<and> (\<exists>buf. lw_heap b a = Some buf \<and> b' = lw_store a (f buf) b)"
  by (auto simp: lw_assign_def lw_modify_def lw_Inr_iff)

lemmas access_Inr_iff = lw_Inr_iff field_Inr assign_Inr

lemma count_down_frame:
  "lw_count_down a w b = Inr b' \<Longrightarrow> lw_frame b b' \<and> global_epoch b' = global_epoch b"
  by (auto simp: lw_ops_def lw_Inr_iff lw_frame_def split: if_splits)

lemma timestamp_frame:
  "lw_timestamp tsc a b = Inr b' \<Longrightarrow> lw_frame b b' \<and> global_epoch b' = global_epoch b"
  by (auto simp: lw_ops_def lw_Inr_iff lw_frame_def split: if_splits)

lemma election_frame:
  "inc_global_epoch a b = Inr (won, b') \<Longrightarrow>
     lw_frame b b' \<and> global_epoch b' = global_epoch b + (if won then 1 else 0)"
  by (auto simp: lw_ops_def lw_Inr_iff lw_frame_def split: if_splits)

lemma return_bufs_frame:
  "return_bufs bufs b = Inr b' \<Longrightarrow>
     dom (lw_heap b') = dom (lw_heap b) \<and> lw_next b' = lw_next b \<and> lw_log_buffer b' = lw_log_buffer b
     \<and> map Some (lw_freeBufs b') = map Some (lw_freeBufs b) @ bufs \<and> bufsInUse b' = bufsInUse b
     \<and> threadLocalBufs b' = threadLocalBufs b \<and> global_epoch b' = global_epoch b"
proof (induction bufs arbitrary: b)
  case Nil
  then show ?case by simp
next
  case (Cons buf bufs)
  from Cons.prems obtain a buf0 where buf: "buf = Some a" "lw_heap b a = Some buf0"
    "return_bufs bufs ((lw_store a (LocalBuffer_reset buf0) b)\<lparr>lw_freeBufs := lw_freeBufs b @ [a]\<rparr>)
       = Inr b'"
    by (cases buf) (auto simp: lw_modify_def lw_Inr_iff)
  moreover from buf(2) have "dom ((lw_heap b)(a \<mapsto> LocalBuffer_reset buf0)) = dom (lw_heap b)" by auto
  ultimately show ?case using Cons.IH [OF buf(3)] by (simp del: fun_upd_apply)
qed

lemma reclaim_frame:
  "reclaim tsc stop b = Some b' \<Longrightarrow>
     lw_heap b' = lw_heap b \<and> lw_next b' = lw_next b \<and> lw_freeBufs b' = lw_freeBufs b
     \<and> bufsInUse b' = bufsInUse b \<and> threadLocalBufs b' = threadLocalBufs b
     \<and> global_epoch b' = global_epoch b"
proof (induction rule: reclaim.raw_induct [rotated, consumes 1, case_names round])
  case (round rec tsc stop b b')
  show ?case
  proof (cases "tsc (lw_reads b) < stop")
    case False
    with round.hyps show ?thesis by (auto simp: lw_rdtsc_def)
  next
    case True
    with round.hyps have "rec tsc stop (b\<lparr>lw_reads := Suc (lw_reads b),
      lw_log_buffer := nulled (threadLocalBufs b) (lw_log_buffer b)\<rparr>) = Some b'"
      by (simp add: lw_rdtsc_def nulled_def cong: if_cong)
    from round.IH [OF this] show ?thesis by simp
  qed
qed

lemma endEpoch_epoch: "endEpoch iter tsc b = Some (Inr b') \<Longrightarrow> global_epoch b' = global_epoch b"
  by (auto simp: endEpoch_def Let_def lw_rdtsc_def split: option.splits
      dest!: reclaim_frame return_bufs_frame)

section \<open>A call is a run of steps\<close>

text \<open>The accesses that make up \<open>buf[events++] = w\<close>, an event, a timestamp and an election.\<close>

lemma append_reach:
  assumes "lw_append a w b = Inr b'" and "lw_reach iter tsc s (lw_goto t (LwAppend a w k) b s)"
  shows "lw_reach iter tsc s (lw_goto t (after_put k a) b' s)"
proof -
  from assms(1) obtain buf where buf: "lw_heap b a = Some buf" "0 \<le> lb_events buf" "lb_events buf < LB_LEN"
    "int_add (lb_events buf) 1 = Inr (lb_events buf + 1)"
    "b' = lw_store a (buf\<lparr>lb_buf := (lb_buf buf)(lb_events buf \<mapsto> w), lb_events := lb_events buf + 1\<rparr>) b"
    by (auto simp: lw_append_def lw_Inr_iff split: if_splits)
  let ?b1 = "lw_store a (buf\<lparr>lb_events := lb_events buf + 1\<rparr>) b" and ?i = "lb_events buf"
  have "lw_reach iter tsc s (lw_goto t (LwBump a w k ?i) b s)"
    by (rule access_reach [OF _ assms(2)]) (simp add: field_Inr buf(1))
  then have "lw_reach iter tsc s (lw_goto t (LwPut a w k ?i) ?b1 s)"
    by (rule access_reach [rotated]) (simp add: assign_Inr buf(1,4))
  then show ?thesis
    by (rule access_reach [rotated]) (cases k; cases buf; use buf in \<open>simp add: assign_Inr\<close>)
qed

lemma event_reach:
  assumes "lw_pcs s t = LwLoaded (Some a)"
    and "lw_count_down a (encode_bench pc addr val) (lw_bench s) = Inr b" and "lw_heap b a = Some buf"
  shows "lw_reach iter tsc s (lw_goto t (if lb_eventsToRdtsc buf = 0 then LwSlow else LwIdle) b s)"
proof -
  let ?w = "encode_bench pc addr val"
  from assms(2) obtain b1 buf1 where b1: "lw_append a ?w (lw_bench s) = Inr b1" "lw_heap b1 a = Some buf1"
    "int_add (lb_eventsToRdtsc buf1) (-1) = Inr (lb_eventsToRdtsc buf1 - 1)"
    "b = lw_store a (buf1\<lparr>lb_eventsToRdtsc := lb_eventsToRdtsc buf1 - 1\<rparr>) b1"
    by (auto simp: lw_count_down_def lw_Inr_iff)
  have "lw_reach iter tsc s (lw_goto t (LwAppend a ?w AccessEntry) (lw_bench s) s)"
    by (rule lw_reach_step [OF lw_step.event [OF assms(1)]])
  from append_reach [OF b1(1) this] have "lw_reach iter tsc s (lw_goto t (LwCount a) b1 s)" by simp
  then have "lw_reach iter tsc s (lw_goto t (LwDecrement a (lb_eventsToRdtsc buf1)) b1 s)"
    by (rule access_reach [rotated]) (simp add: field_Inr b1(2))
  then have "lw_reach iter tsc s (lw_goto t (LwCounted a) b s)"
    by (rule access_reach [rotated]) (simp add: assign_Inr b1(2-4))
  then show ?thesis
    by (rule access_reach [rotated]) (simp add: field_Inr assms(3))
qed

lemma no_timestamp_reach:
  assumes "lw_pcs s t = LwSlowBuf a" and "lw_heap (lw_bench s) a = Some buf"
    and "lb_eventsToRdtsc buf \<noteq> 0"
  shows "lw_reach iter tsc s (lw_goto t LwIdle (lw_bench s) s)"
  by (rule lw_reach_step [OF access_step]) (simp add: assms field_Inr)

lemma timestamp_reach:
  assumes "lw_pcs s t = LwSlowBuf a" and "lw_heap (lw_bench s) a = Some buf"
    and "lb_eventsToRdtsc buf = 0" and "lw_timestamp tsc a (lw_bench s) = Inr b"
    and "lw_heap b a = Some buf1"
  shows "lw_reach iter tsc s
    (lw_goto t (if LB_MAX_EVENTS \<le> lb_events buf1 then LwFull a else LwIdle) b s)"
proof -
  obtain time b1 where read: "lw_rdtsc tsc (lw_bench s) = (time, b1)" by (cases "lw_rdtsc tsc (lw_bench s)")
  from assms(4) read obtain b2 buf2 where b2: "lw_append a (encode_rdtsc time) b1 = Inr b2"
    "lw_heap b2 a = Some buf2" "b = lw_store a (buf2\<lparr>lb_eventsToRdtsc := RDTSC_SAMPLING_RATE\<rparr>) b2"
    by (auto simp: lw_timestamp_def lw_modify_def lw_Inr_iff)
  have "lw_reach iter tsc s (lw_goto t (LwStamp a) (lw_bench s) s)"
    by (rule lw_reach_step [OF access_step]) (simp add: assms(1-3) field_Inr)
  then have "lw_reach iter tsc s (lw_goto t (LwAppend a (encode_rdtsc time) StampEntry) b1 s)"
    by (rule access_reach [rotated]) (simp add: read)
  from append_reach [OF b2(1) this] have "lw_reach iter tsc s (lw_goto t (LwRestart a) b2 s)" by simp
  then have "lw_reach iter tsc s (lw_goto t (LwTest a) b s)"
    by (rule access_reach [rotated]) (simp add: assign_Inr b2(2,3))
  then show ?thesis
    by (rule access_reach [rotated]) (simp add: field_Inr assms(5))
qed

lemma election_reach:
  assumes "lw_pcs s t = LwFull a" and "inc_global_epoch a (lw_bench s) = Inr (won, b)"
  shows "lw_reach iter tsc s (lw_goto t (if won then LwEnd else LwNeed) b s)"
proof -
  from assms(2) obtain buf where buf: "lw_heap (lw_bench s) a = Some buf"
    by (auto simp: inc_global_epoch_def lw_Inr_iff)
  have "lw_reach iter tsc s (lw_goto t (LwElect (lb_epoch buf)) (lw_bench s) s)"
    by (rule lw_reach_step [OF access_step]) (simp add: assms(1) field_Inr buf)
  then show ?thesis
    by (rule access_reach [rotated])
      (use assms(2) buf in \<open>auto simp: inc_global_epoch_def lw_Inr_iff split: if_splits\<close>)
qed

lemma reclaim_reach:
  assumes "reclaim tsc stop b = Some b'"
  shows "lw_pcs s t = LwWait stop \<Longrightarrow> lw_bench s = b \<Longrightarrow> registered_live s = Inr () \<Longrightarrow>
    lw_reach iter tsc s (lw_goto t LwClear b' s)"
  using assms
proof (induction arbitrary: s rule: reclaim.raw_induct [rotated, consumes 1, case_names round])
  case (round rec tsc stop b b')
  obtain time b1 where read: "lw_rdtsc tsc b = (time, b1)" by (cases "lw_rdtsc tsc b")
  let ?b2 = "b1\<lparr>lw_log_buffer := (\<lambda>t. if t \<in> threadLocalBufs b1 then None else lw_log_buffer b1 t)\<rparr>"
  have b1: "threadLocalBufs b1 = threadLocalBufs b" using read by (auto simp: lw_rdtsc_def)
  show ?case
  proof (cases "time < stop")
    case False
    then have "lw_spin tsc stop (lw_bench s) = (False, b1)" and "b' = b1"
      using round.hyps round.prems(2) read by (simp_all add: lw_spin_def)
    from lw_reach_step [OF spin_over_step [OF round.prems(1) this(1)]] this(2) b1 show ?thesis by simp
  next
    case True
    let ?s1 = "lw_goto t (LwWait stop) ?b2 s"
    have "lw_spin tsc stop (lw_bench s) = (True, ?b2)" "rec tsc stop ?b2 = Some b'"
      using True round.hyps round.prems(2) read by (simp_all add: lw_spin_def)
    note first = lw_reach_step [OF spin_again_step [OF round.prems(1,3) this(1)]] and rec = this(2)
    have "registered_live ?s1 = Inr ()"
      using round.prems b1 by (auto simp: registered_live_Inr_iff)
    from round.IH [OF rec, of ?s1] this b1 first show ?thesis
      by (auto intro: lw_reach_trans)
  qed
qed

lemma mutex_same [simp]: "epochMutex s = m \<Longrightarrow> s\<lparr>epochMutex := m\<rparr> = s"
  by (cases s) simp

text \<open>The loop over \<open>bufsInUse\<close>, and \<open>allocBuffer\<close>.\<close>

lemma reset_reach:
  assumes "lw_heap b a = Some buf" and "lw_reach iter tsc s0 (lw_goto t (LwReset i a 0) b s)"
  shows "lw_reach iter tsc s0 (lw_goto t (LwPool i a) (lw_store a (LocalBuffer_reset buf) b) s)"
proof -
  let ?buf1 = "reset_member 0 buf"
  let ?buf2 = "reset_member 1 ?buf1"
  let ?buf3 = "reset_member 2 ?buf2"
  have "lw_reach iter tsc s0 (lw_goto t (LwReset i a 1) (lw_store a ?buf1 b) s)"
    by (rule access_reach [OF _ assms(2)]) (simp add: assign_Inr assms(1))
  then have "lw_reach iter tsc s0 (lw_goto t (LwReset i a 2) (lw_store a ?buf2 b) s)"
    by (rule access_reach [rotated]) (simp add: assign_Inr numeral_2_eq_2)
  then have "lw_reach iter tsc s0 (lw_goto t (LwReset i a 3) (lw_store a ?buf3 b) s)"
    by (rule access_reach [rotated]) (simp add: assign_Inr numeral_3_eq_3)
  then show ?thesis
    by (rule access_reach [rotated])
      (cases buf; simp add: assign_Inr numeral_2_eq_2 numeral_3_eq_3 LocalBuffer_reset_def)
qed

lemma return_reach:
  "return_bufs bufs b = Inr b' \<Longrightarrow> bufsInUse b = pre @ bufs \<Longrightarrow>
     lw_reach iter tsc s0 (lw_goto t (LwReturn (length pre)) b s) \<Longrightarrow>
     lw_reach iter tsc s0 (lw_goto t (LwReturn (length (bufsInUse b))) b' s)"
proof (induction bufs arbitrary: pre b)
  case Nil
  then show ?case by simp
next
  case (Cons buf0 bufs)
  from Cons.prems(1) obtain a buf where buf: "buf0 = Some a" "lw_heap b a = Some buf"
    and rest: "return_bufs bufs (lw_pool a (lw_store a (LocalBuffer_reset buf) b)) = Inr b'"
    by (cases buf0) (auto simp: lw_modify_def lw_Inr_iff lw_pool_def)
  let ?i = "length pre" and ?b1 = "lw_store a (LocalBuffer_reset buf) b"
  have "lw_step iter tsc t (lw_goto t (LwReturn ?i) b s) (Inr (lw_goto t (LwReset ?i a 0) b s))"
    using lw_step.next_buf [of "lw_goto t (LwReturn ?i) b s" t ?i iter tsc] Cons.prems(2) buf(1) by simp
  with Cons.prems(3) have "lw_reach iter tsc s0 (lw_goto t (LwReset ?i a 0) b s)"
    by (rule lw_reach.more)
  then have "lw_reach iter tsc s0 (lw_goto t (LwPool ?i a) ?b1 s)"
    by (rule reset_reach [OF buf(2)])
  moreover have "lw_step iter tsc t (lw_goto t (LwPool ?i a) ?b1 s)
      (Inr (lw_goto t (LwReturn (Suc ?i)) (lw_pool a ?b1) s))"
    using lw_step.pool [of "lw_goto t (LwPool ?i a) ?b1 s" t ?i a iter tsc] by simp
  ultimately have "lw_reach iter tsc s0 (lw_goto t (LwReturn (length (pre @ [buf0]))) (lw_pool a ?b1) s)"
    by (simp add: lw_reach.more)
  from Cons.IH [OF rest _ this] Cons.prems(2) show ?case by (simp add: lw_pool_def)
qed

lemma alloc_reach:
  assumes "lw_pcs s t = LwNeed" and "epochMutex s = None" and "lw_allocBuffer t (lw_bench s) = Inr b"
  shows "lw_reach iter tsc s (lw_goto t LwIdle b s)"
proof -
  obtain a b1 where take: "lw_take_buffer (lw_bench s) = (a, b1)" by (cases "lw_take_buffer (lw_bench s)")
  obtain tid b2 where tid: "lw_tid t b1 = (tid, b2)" by (cases "lw_tid t b1")
  let ?s = "s\<lparr>epochMutex := Some t\<rparr>" and ?e = "global_epoch b2"
  from assms(3) take tid obtain buf where buf: "lw_heap b2 a = Some buf"
    and b: "b = lw_publish t a (lw_store a (buf\<lparr>lb_tid := tid, lb_epoch := ?e\<rparr>) b2)"
    by (auto simp: lw_allocBuffer_def lw_modify_def lw_Inr_iff lw_publish_def)
  let ?b3 = "lw_store a (buf\<lparr>lb_tid := tid\<rparr>) b2"
    and ?b4 = "lw_store a (buf\<lparr>lb_tid := tid, lb_epoch := ?e\<rparr>) b2"
  have "lw_reach iter tsc s (lw_goto t (LwTaken a tid) b2 ?s)"
    using lw_step.take [OF assms(1,2), of iter tsc] take tid
    by (auto intro: lw_reach_step simp: lw_take_def)
  then have "lw_reach iter tsc s (lw_goto t (LwNamed a) ?b3 ?s)"
    by (rule access_reach [rotated]) (simp add: assign_Inr buf)
  then have "lw_reach iter tsc s (lw_goto t (LwDated a ?e) ?b3 ?s)"
    by (rule access_reach [rotated]) simp
  then have "lw_reach iter tsc s (lw_goto t (LwPublish a) ?b4 ?s)"
    by (rule access_reach [rotated]) (simp add: assign_Inr)
  moreover have "lw_step iter tsc t (lw_goto t (LwPublish a) ?b4 ?s) (Inr (lw_goto t LwIdle b s))"
    using lw_step.publish [of "lw_goto t (LwPublish a) ?b4 ?s" t a iter tsc] assms(2) b by simp
  ultimately show ?thesis by (rule lw_reach.more)
qed

lemma live_goto:
  "registered_live s = Inr () \<Longrightarrow> threadLocalBufs b \<subseteq> threadLocalBufs (lw_bench s) \<Longrightarrow>
     pc \<noteq> LwExited \<Longrightarrow> registered_live (lw_goto t pc b s) = Inr ()"
  by (auto simp: registered_live_Inr_iff)

lemma endEpoch_reach:
  assumes "endEpoch iter tsc b = Some (Inr b')"
    and "lw_pcs s t = LwEnd" and "lw_bench s = b" and "epochMutex s = None"
    and "registered_live s = Inr ()"
  shows "lw_reach iter tsc s (lw_goto t LwNeed b' s)"
proof -
  obtain stop b1 where collect: "lw_collect iter tsc b = (stop, b1)" by (cases "lw_collect iter tsc b")
  then have b1: "threadLocalBufs b1 = threadLocalBufs b"
    by (auto simp: lw_collect_def lw_rdtsc_def)
  from assms(1) collect obtain b2 where
    b2: "reclaim tsc stop b1 = Some b2" "return_bufs (bufsInUse b2) (b2\<lparr>threadLocalBufs := {}\<rparr>) = Inr b'"
    by (auto simp: endEpoch_def lw_collect_def Let_def lw_rdtsc_def split: option.splits)
  let ?s1 = "lw_goto t (LwWait stop) b1 (s\<lparr>epochMutex := Some t\<rparr>)"
  have live: "registered_live ?s1 = Inr ()"
    using assms(3,5) b1 by (auto simp: registered_live_Inr_iff)
  note first = lw_reach_step [OF collect_step [OF assms(2,4,5), unfolded assms(3), OF collect]]
  from reclaim_reach [OF b2(1), of ?s1 t iter] live
  have wait: "lw_reach iter tsc ?s1 (lw_goto t LwClear b2 ?s1)"
    by simp
  also have "lw_reach iter tsc \<dots> (lw_goto t (LwReturn 0) (lw_clear b2) ?s1)"
    using lw_step.clear [of "lw_goto t LwClear b2 ?s1" t iter tsc] by (auto intro: lw_reach_step)
  finally have "lw_reach iter tsc ?s1 (lw_goto t (LwReturn (length (bufsInUse b2))) b' ?s1)"
    using return_reach [of "bufsInUse b2" "lw_clear b2" b' "[]" iter tsc ?s1 t ?s1] b2(2)
    by (simp add: lw_clear_def)
  moreover have "bufsInUse b' = bufsInUse b2" using return_bufs_frame [OF b2(2)] by simp
  then have "lw_step iter tsc t (lw_goto t (LwReturn (length (bufsInUse b2))) b' ?s1)
      (Inr (lw_goto t LwNeed b' s))"
    using lw_step.unlock [of "lw_goto t (LwReturn (length (bufsInUse b2))) b' ?s1" t _ iter tsc] assms(4)
    by simp
  ultimately show ?thesis using first by (blast intro: lw_reach_trans lw_reach.more)
qed

lemma allocBuffer_epoch: "lw_allocBuffer t b = Inr b' \<Longrightarrow> global_epoch b' = global_epoch b"
  by (auto simp: lw_allocBuffer_def lw_take_buffer_def lw_tid_def Let_def lw_modify_def lw_Inr_iff
      split: prod.splits if_splits option.splits)

lemma slow_reach:
  assumes "tsan_mem_access_slow iter tsc t b = Some (Inr b')"
    and "lw_pcs s t = LwSlow" and "lw_bench s = b" and "epochMutex s = None"
    and "global_epoch b' \<noteq> global_epoch b \<Longrightarrow> registered_live s = Inr ()"
  shows "lw_reach iter tsc s (lw_goto t LwIdle b' s)"
proof (cases "lw_log_buffer b t")
  case None
  let ?s1 = "lw_goto t LwNeed b s"
  have "lw_reach iter tsc s ?s1"
    using lw_step.reload [OF assms(2), of iter tsc] assms(3) None by (auto intro: lw_reach_step)
  moreover have "lw_reach iter tsc ?s1 (lw_goto t LwIdle b' s)"
    using alloc_reach [of ?s1 t b' iter tsc] assms(1,4) None
    by (simp add: tsan_mem_access_slow_def)
  ultimately show ?thesis by (rule lw_reach_trans)
next
  case (Some a)
  let ?s1 = "lw_goto t (LwSlowBuf a) b s"
  have reload: "lw_reach iter tsc s ?s1"
    using lw_step.reload [OF assms(2), of iter tsc] assms(3) Some by (auto intro: lw_reach_step)
  from assms(1) Some obtain buf where buf: "lw_heap b a = Some buf"
    by (auto simp: tsan_mem_access_slow_def run_then_Inr_iff lw_load_Inr_iff)
  show ?thesis
  proof (cases "lb_eventsToRdtsc buf = 0")
    case False
    then have "b' = b" using assms(1) Some buf by (simp add: tsan_mem_access_slow_def)
    with no_timestamp_reach [of ?s1 t a buf iter tsc] buf False reload show ?thesis
      by (auto intro: lw_reach_trans lw_reach_step)
  next
    case True
    with assms(1) Some buf obtain b1 buf1 where b1: "lw_timestamp tsc a b = Inr b1"
      "lw_heap b1 a = Some buf1" and rest: "(if LB_MAX_EVENTS \<le> lb_events buf1 then
          run_then (Some (inc_global_epoch a b1)) (\<lambda>(won, s2).
          run_then (if won then endEpoch iter tsc s2 else Some (Inr s2)) (\<lambda>s3.
          Some (lw_allocBuffer t s3)))
        else Some (Inr b1)) = Some (Inr b')"
      by (auto simp: tsan_mem_access_slow_def run_then_Inr_iff lw_load_Inr_iff)
    note frame1 = timestamp_frame [OF b1(1)]
    note stamp = timestamp_reach [of ?s1 t a buf, OF _ _ True _ b1(2), of tsc iter]
    show ?thesis
    proof (cases "LB_MAX_EVENTS \<le> lb_events buf1")
      case False
      with rest stamp b1(1) buf reload show ?thesis by (auto intro: lw_reach_trans lw_reach_step)
    next
      case True
      let ?s2 = "lw_goto t (LwFull a) b1 s"
      have full: "lw_reach iter tsc s ?s2"
        using stamp True b1(1) buf reload by (auto intro: lw_reach_trans lw_reach_step)
      from rest True obtain won b2 b3 where won: "inc_global_epoch a b1 = Inr (won, b2)"
        and b3: "(if won then endEpoch iter tsc b2 else Some (Inr b2)) = Some (Inr b3)"
        and alloc: "lw_allocBuffer t b3 = Inr b'"
        by (auto simp: run_then_Inr_iff split: prod.splits)
      note frame2 = election_frame [OF won]
      let ?s3 = "lw_goto t (if won then LwEnd else LwNeed) b2 s"
      have elected: "lw_reach iter tsc ?s2 ?s3"
        using election_reach [of ?s2 t a won b2 iter tsc] won by (auto intro: lw_reach_step)
      have "lw_reach iter tsc ?s3 (lw_goto t LwNeed b3 s)"
      proof (cases won)
        case False
        with b3 show ?thesis by (simp add: lw_reach.here)
      next
        case True
        with b3 have epoch: "endEpoch iter tsc b2 = Some (Inr b3)" by simp
        have pc: "lw_pcs ?s3 t = LwEnd" using True by simp
        note ends = endEpoch_reach [OF epoch pc]
        have live: "registered_live ?s3 = Inr ()" if "registered_live s = Inr ()"
          using that frame1 frame2 assms(3) True by (intro live_goto) (simp_all add: lw_frame_def)
        have "global_epoch b' \<noteq> global_epoch b"
          using frame1 frame2 True endEpoch_epoch [OF epoch] allocBuffer_epoch [OF alloc] by simp
        with live assms(4,5) ends show ?thesis by (simp add: True)
      qed
      moreover have "lw_reach iter tsc (lw_goto t LwNeed b3 s) (lw_goto t LwIdle b' s)"
        using alloc_reach [of "lw_goto t LwNeed b3 s" t b' iter tsc] assms(4) alloc
        by simp
      ultimately show ?thesis using full elected by (blast intro: lw_reach_trans)
    qed
  qed
qed

lemma write8_reach:
  assumes "lw_write8 iter tsc BODY_EPOCH t e (lw_bench s) = Some (Inr b')"
    and "lw_pcs s t = LwIdle" and "epochMutex s = None"
    and "global_epoch b' \<noteq> global_epoch (lw_bench s) \<Longrightarrow> registered_live s = Inr ()"
  shows "lw_reach iter tsc s (lw_goto t LwIdle b' s)"
proof -
  obtain pc addr val where e: "e = (pc, addr, val)" by (cases e)
  let ?b = "lw_bench s" and ?s1 = "lw_goto t (LwLoaded (lw_log_buffer (lw_bench s) t)) (lw_bench s) s"
  have load: "lw_reach iter tsc s ?s1"
    by (rule lw_reach_step [OF lw_step.load [OF assms(2)]])
  show ?thesis
  proof (cases "lw_log_buffer ?b t")
    case None
    let ?s2 = "lw_goto t LwSlow ?b s"
    have "lw_reach iter tsc ?s1 ?s2"
      using lw_step.no_buffer [of ?s1 t iter tsc] None by (auto intro: lw_reach_step)
    moreover have "lw_reach iter tsc ?s2 (lw_goto t LwIdle b' s)"
      using slow_reach [of iter tsc t ?b b' ?s2] assms(1,3,4) None live_goto [of s ?b LwSlow t]
      by (simp add: e lw_write8_def lw_epoch_body_def)
    ultimately show ?thesis using load by (blast intro: lw_reach_trans)
  next
    case (Some a)
    with assms(1) obtain b1 buf where b1: "lw_count_down a (encode_bench pc addr val) ?b = Inr b1"
      "lw_heap b1 a = Some buf" and rest: "(if lb_eventsToRdtsc buf = 0
        then tsan_mem_access_slow iter tsc t b1 else Some (Inr b1)) = Some (Inr b')"
      by (auto simp: e lw_write8_def lw_epoch_body_def run_then_Inr_iff lw_load_Inr_iff)
    note frame = count_down_frame [OF b1(1)]
    let ?s2 = "lw_goto t (if lb_eventsToRdtsc buf = 0 then LwSlow else LwIdle) b1 s"
    have event: "lw_reach iter tsc ?s1 ?s2"
      using event_reach [of ?s1 t a pc addr val b1 buf iter tsc] b1 Some by (auto intro: lw_reach_step)
    have "lw_reach iter tsc ?s2 (lw_goto t LwIdle b' s)"
    proof (cases "lb_eventsToRdtsc buf = 0")
      case False
      with rest show ?thesis by (simp add: lw_reach.here)
    next
      case True
      with rest frame slow_reach [of iter tsc t b1 b' ?s2] assms(3,4) live_goto [of s b1 LwSlow t]
      show ?thesis by (simp add: lw_frame_def)
    qed
    with load event show ?thesis by (blast intro: lw_reach_trans)
  qed
qed

end
