(* ===== verification/EarlierInvariant.thy ===== *)
theory EarlierInvariant
  imports EarlierConcurrent
begin

text \<open>
  What every interleaving of \<open>EarlierConcurrent\<close> keeps: the invariant of the manager, and the positions
  at which threads store. Then the errors that remain, and the thread that loses the election.
\<close>

section \<open>What the manager keeps\<close>

text \<open>The buffer that a thread has at hand, whatever its \<open>__log_buffer\<close> has become since.\<close>

fun pc_buf :: "lw_pc \<Rightarrow> nat option" where
  "pc_buf (LwLoaded buf) = buf"
| "pc_buf (LwAppend a w k) = Some a"
| "pc_buf (LwBump a w k i) = Some a"
| "pc_buf (LwPut a w k i) = Some a"
| "pc_buf (LwCount a) = Some a"
| "pc_buf (LwDecrement a r) = Some a"
| "pc_buf (LwCounted a) = Some a"
| "pc_buf (LwSlowBuf a) = Some a"
| "pc_buf (LwStamp a) = Some a"
| "pc_buf (LwRestart a) = Some a"
| "pc_buf (LwTest a) = Some a"
| "pc_buf (LwFull a) = Some a"
| "pc_buf (LwReset i a n) = Some a"
| "pc_buf (LwPool i a) = Some a"
| "pc_buf (LwTaken a tid) = Some a"
| "pc_buf (LwNamed a) = Some a"
| "pc_buf (LwDated a e) = Some a"
| "pc_buf (LwPublish a) = Some a"
| "pc_buf _ = None"

text \<open>The buffers that some thread or the manager can still reach.\<close>

definition lw_known :: "lw_system \<Rightarrow> nat set" where
  "lw_known s = set (lw_freeBufs (lw_bench s)) \<union> {a. Some a \<in> set (bufsInUse (lw_bench s))}
     \<union> {a. \<exists>t. lw_log_buffer (lw_bench s) t = Some a} \<union> {a. \<exists>t. pc_buf (lw_pcs s t) = Some a}"

text \<open>What a thread does under \<open>epochMutex\<close>, if anything.\<close>

datatype lock_use = Without | Spinning | Returning | Allocating

fun pc_lock :: "lw_pc \<Rightarrow> lock_use" where
  "pc_lock (LwWait stop) = Spinning"
| "pc_lock LwClear = Spinning"
| "pc_lock (LwReturn i) = Returning"
| "pc_lock (LwReset i a n) = Returning"
| "pc_lock (LwPool i a) = Returning"
| "pc_lock (LwTaken a tid) = Allocating"
| "pc_lock (LwNamed a) = Allocating"
| "pc_lock (LwDated a e) = Allocating"
| "pc_lock (LwPublish a) = Allocating"
| "pc_lock _ = Without"

definition lw_invariant :: "lw_system \<Rightarrow> bool" where
  "lw_invariant s \<longleftrightarrow>
     dom (lw_heap (lw_bench s)) = {..< lw_next (lw_bench s)}
     \<and> lw_known s \<subseteq> {..< lw_next (lw_bench s)}
     \<and> None \<notin> set (bufsInUse (lw_bench s))
     \<and> (\<forall>t. pc_lock (lw_pcs s t) \<noteq> Without \<longleftrightarrow> epochMutex s = Some t)
     \<and> (\<forall>t. pc_lock (lw_pcs s t) = Returning \<longrightarrow> threadLocalBufs (lw_bench s) = {})
     \<and> ((\<forall>t. pc_lock (lw_pcs s t) \<noteq> Spinning) \<longrightarrow>
          (\<forall>t \<in> threadLocalBufs (lw_bench s). lw_log_buffer (lw_bench s) t \<noteq> None))"

inductive_cases lw_step_InrE: "lw_step iter tsc t s (Inr s')"

lemmas lw_step_rules = lw_step_InrE [consumes 1, case_names load event access no_buffer reload
  collect spin clear next_buf pool unlock take publish exit]

text \<open>An access leaves the manager alone, and the thread with the buffer that it had.\<close>

lemma after_put_simps [simp]: "pc_buf (after_put k a) = Some a" "pc_lock (after_put k a) = Without"
  by (cases k; simp)+

lemma access_frame:
  assumes "lw_access tsc pc b = Some (Inr (pc', b'))"
  shows "lw_frame b b'" "pc_lock pc' = pc_lock pc" "pc_buf pc' = Some a \<Longrightarrow> pc_buf pc = Some a"
  using assms
  by (cases pc; auto simp: access_Inr_iff lw_rdtsc_def lw_frame_def split: if_splits)+

lemma in_lw_known:
  "a \<in> set (lw_freeBufs (lw_bench s)) \<Longrightarrow> a \<in> lw_known s"
  "Some a \<in> set (bufsInUse (lw_bench s)) \<Longrightarrow> a \<in> lw_known s"
  "lw_log_buffer (lw_bench s) t = Some a \<Longrightarrow> a \<in> lw_known s"
  "pc_buf (lw_pcs s t) = Some a \<Longrightarrow> a \<in> lw_known s"
  by (auto simp: lw_known_def)

lemma known_goto:
  assumes "set (lw_freeBufs b) \<subseteq> lw_known s \<union> A"
    and "\<And>a. Some a \<in> set (bufsInUse b) \<Longrightarrow> a \<in> lw_known s"
    and "\<And>a u. lw_log_buffer b u = Some a \<Longrightarrow> a \<in> lw_known s \<union> A"
    and "\<And>a. pc_buf pc = Some a \<Longrightarrow> a \<in> lw_known s \<union> A"
  shows "lw_known (lw_goto t pc b s) \<subseteq> lw_known s \<union> A"
  using assms by (auto simp: lw_known_def split: if_splits)

lemma known_frame:
  assumes "lw_frame (lw_bench s) b" and "\<And>a. pc_buf pc = Some a \<Longrightarrow> a \<in> lw_known s"
  shows "lw_known (lw_goto t pc b s) \<subseteq> lw_known s"
  using known_goto [of b s "{}" pc t] assms in_lw_known by (auto simp: lw_frame_def)

lemma known_mutex [simp]: "lw_known (lw_goto t pc b (s\<lparr>epochMutex := m\<rparr>)) = lw_known (lw_goto t pc b s)"
  by (simp add: lw_known_def)

lemma lw_take_buffer_cases:
  assumes "lw_take_buffer b = (a, b')"
  obtains "lw_freeBufs b = []" "a = lw_next b"
      "b' = b\<lparr>lw_heap := (lw_heap b)(a \<mapsto> new_LocalBuffer), lw_next := Suc a\<rparr>"
    | "lw_freeBufs b \<noteq> []" "a = last (lw_freeBufs b)" "b' = b\<lparr>lw_freeBufs := butlast (lw_freeBufs b)\<rparr>"
  using assms by (auto simp: lw_take_buffer_def split: if_splits)

text \<open>What \<open>allocBuffer\<close> does to the manager.\<close>

lemma allocBuffer_Inr:
  assumes "lw_allocBuffer t b = Inr b'"
  obtains a where "lw_log_buffer b' = (lw_log_buffer b)(t \<mapsto> a)" "bufsInUse b' = bufsInUse b"
    "threadLocalBufs b' = insert t (threadLocalBufs b)"
    "(lw_freeBufs b = [] \<and> a = lw_next b \<and> lw_next b' = Suc a \<and> dom (lw_heap b') = insert a (dom (lw_heap b))
      \<and> lw_freeBufs b' = [])
     \<or> (lw_freeBufs b = lw_freeBufs b' @ [a] \<and> lw_next b' = lw_next b \<and> dom (lw_heap b') = dom (lw_heap b))"
proof -
  obtain a b1 where take: "lw_take_buffer b = (a, b1)" by (cases "lw_take_buffer b")
  obtain tid b2 where tid: "lw_tid t b1 = (tid, b2)" by (cases "lw_tid t b1")
  then have b2: "lw_heap b2 = lw_heap b1" "lw_next b2 = lw_next b1" "lw_log_buffer b2 = lw_log_buffer b1"
    "lw_freeBufs b2 = lw_freeBufs b1" "bufsInUse b2 = bufsInUse b1"
    "threadLocalBufs b2 = threadLocalBufs b1"
    by (auto simp: lw_tid_def Let_def split: option.splits)
  from assms take tid obtain buf where buf: "lw_heap b2 a = Some buf" and
    b': "b' = (lw_store a (buf\<lparr>lb_tid := tid, lb_epoch := global_epoch b2\<rparr>) b2)
      \<lparr>lw_log_buffer := (lw_log_buffer b2)(t \<mapsto> a), threadLocalBufs := insert t (threadLocalBufs b2)\<rparr>"
    by (auto simp: lw_allocBuffer_def lw_modify_def lw_Inr_iff)
  have heap: "dom (lw_heap b') = dom (lw_heap b1)" using buf b2(1) by (auto simp: b')
  from take show ?thesis
    by (cases rule: lw_take_buffer_cases) (rule that [of a]; use heap b2 in \<open>auto simp: b'\<close>)+
qed

text \<open>The steps by what they do to the manager: most do nothing to it.\<close>

lemma lw_step_kinds [consumes 1, case_names local collect spin clear pool unlock take publish]:
  assumes "lw_step iter tsc t s (Inr s')"
  obtains pc b where "s' = lw_goto t pc b s" "lw_frame (lw_bench s) b"
      "\<And>a. pc_buf pc = Some a \<Longrightarrow> a \<in> lw_known s" "pc_lock pc = pc_lock (lw_pcs s t)"
    | stop b where "lw_pcs s t = LwEnd" "epochMutex s = None" "registered_live s = Inr ()"
      "lw_collect iter tsc (lw_bench s) = (stop, b)"
      "s' = lw_goto t (LwWait stop) b (s\<lparr>epochMutex := Some t\<rparr>)"
    | stop again b where "lw_pcs s t = LwWait stop" "lw_spin tsc stop (lw_bench s) = (again, b)"
      "s' = lw_goto t (if again then LwWait stop else LwClear) b s"
    | "lw_pcs s t = LwClear" "s' = lw_goto t (LwReturn 0) (lw_clear (lw_bench s)) s"
    | i a where "lw_pcs s t = LwPool i a"
      "s' = lw_goto t (LwReturn (Suc i)) (lw_pool a (lw_bench s)) s"
    | i where "lw_pcs s t = LwReturn i" "s' = lw_goto t LwNeed (lw_bench s) (s\<lparr>epochMutex := None\<rparr>)"
    | pc b where "lw_pcs s t = LwNeed" "epochMutex s = None" "lw_take t (lw_bench s) = (pc, b)"
      "s' = lw_goto t pc b (s\<lparr>epochMutex := Some t\<rparr>)"
    | a where "lw_pcs s t = LwPublish a"
      "s' = lw_goto t LwIdle (lw_publish t a (lw_bench s)) (s\<lparr>epochMutex := None\<rparr>)"
proof -
  note digest = eq_commute [of "Inr s'"] and_then_Inr_iff
  from assms show ?thesis
  proof (cases rule: lw_step_rules)
    case load
    show ?thesis
      by (rule that(1)) (use load in \<open>auto intro: lw_frame_refl in_lw_known\<close>)
  next
    case (event a pc addr val)
    show ?thesis
      by (rule that(1)) (use event in_lw_known(4) [of s t a] in \<open>auto intro: lw_frame_refl\<close>)
  next
    case (access outcome)
    then obtain pc b where s': "outcome = Inr (pc, b)" "s' = lw_goto t pc b s"
      by (auto simp: digest split: prod.splits)
    note local = access_frame [OF access(2) [unfolded s'(1)]]
    show ?thesis
      by (rule that(1) [OF s'(2) local(1)]) (use local(2-3) in \<open>auto intro: in_lw_known\<close>)
  next
    case no_buffer
    show ?thesis by (rule that(1)) (use no_buffer in \<open>auto intro: lw_frame_refl\<close>)
  next
    case reload
    show ?thesis
      by (rule that(1))
        (use reload in \<open>auto intro: lw_frame_refl in_lw_known split: option.splits\<close>)
  next
    case collect
    then show ?thesis by (auto simp: digest split: prod.splits intro: that(2))
  next
    case (spin stop)
    then show ?thesis by (auto simp: digest split: prod.splits if_splits intro: that(3))
  next
    case clear
    then show ?thesis by (auto intro: that(4))
  next
    case (next_buf i)
    then obtain a where a: "bufsInUse (lw_bench s) ! i = Some a"
      "s' = lw_goto t (LwReset i a 0) (lw_bench s) s"
      by (cases "bufsInUse (lw_bench s) ! i") (auto simp: digest)
    with next_buf(3) have "Some a \<in> set (bufsInUse (lw_bench s))" by (metis nth_mem)
    with a(2) next_buf(2) show ?thesis
      by (intro that(1)) (auto intro: lw_frame_refl in_lw_known)
  next
    case (pool i a)
    then show ?thesis by (auto intro: that(5))
  next
    case (unlock i)
    then show ?thesis by (auto intro: that(6))
  next
    case take
    then show ?thesis by (auto simp: digest split: prod.splits intro: that(7))
  next
    case (publish a)
    then show ?thesis by (auto intro: that(8))
  next
    case exit
    show ?thesis by (rule that(1)) (use exit in \<open>auto intro: lw_frame_refl\<close>)
  qed
qed

lemma collect_Inr:
  assumes "lw_collect iter tsc b = (stop, b')"
  shows "b' = b\<lparr>bufsInUse := bufsInUse b @ map (lw_log_buffer b) (iter (threadLocalBufs b)),
    lw_reads := Suc (lw_reads b)\<rparr>"
  using assms by (auto simp: lw_collect_def lw_rdtsc_def)

lemma spin_Inr:
  assumes "lw_spin tsc stop b = (again, b')"
  shows "b' = b\<lparr>lw_log_buffer := (if again then nulled (threadLocalBufs b) (lw_log_buffer b)
      else lw_log_buffer b), lw_reads := Suc (lw_reads b)\<rparr>"
  using assms by (cases b) (auto simp: lw_spin_def lw_rdtsc_def nulled_def fun_eq_iff split: if_splits)

lemma take_Inr:
  assumes "lw_take t b = (pc, b')"
  obtains a tid where "pc = LwTaken a tid" "lw_log_buffer b' = lw_log_buffer b"
    "bufsInUse b' = bufsInUse b" "threadLocalBufs b' = threadLocalBufs b"
    "(lw_freeBufs b = [] \<and> a = lw_next b \<and> lw_next b' = Suc a
      \<and> lw_heap b' = (lw_heap b)(a \<mapsto> new_LocalBuffer) \<and> lw_freeBufs b' = [])
     \<or> (lw_freeBufs b = lw_freeBufs b' @ [a] \<and> lw_next b' = lw_next b \<and> lw_heap b' = lw_heap b)"
proof -
  obtain a b1 where take: "lw_take_buffer b = (a, b1)" by (cases "lw_take_buffer b")
  obtain tid b2 where tid: "lw_tid t b1 = (tid, b2)" by (cases "lw_tid t b1")
  then have same: "lw_heap b2 = lw_heap b1" "lw_next b2 = lw_next b1"
    "lw_log_buffer b2 = lw_log_buffer b1" "lw_freeBufs b2 = lw_freeBufs b1"
    "bufsInUse b2 = bufsInUse b1" "threadLocalBufs b2 = threadLocalBufs b1"
    by (auto simp: lw_tid_def Let_def split: option.splits)
  have pc: "pc = LwTaken a tid" "b' = b2" using assms take tid by (simp_all add: lw_take_def)
  from take show ?thesis
    by (cases rule: lw_take_buffer_cases) (rule that [of a tid]; use same pc in simp)+
qed

definition lw_fresh :: "lw_system \<Rightarrow> lw_system \<Rightarrow> nat set" where
  "lw_fresh s s' = {lw_next (lw_bench s) ..< lw_next (lw_bench s')}"

lemma lw_step_known:
  assumes "lw_step iter tsc t s (Inr s')"
  shows "lw_known s' \<subseteq> lw_known s \<union> lw_fresh s s'
    \<and> dom (lw_heap (lw_bench s')) = dom (lw_heap (lw_bench s)) \<union> lw_fresh s s'
    \<and> lw_next (lw_bench s) \<le> lw_next (lw_bench s')"
  using assms
proof (cases rule: lw_step_kinds)
  case (local pc b)
  from known_frame [OF local(2,3)] local(1,2) show ?thesis by (auto simp: lw_frame_def lw_fresh_def)
next
  case (collect stop b)
  note b = collect_Inr [OF collect(4)]
  have "lw_known (lw_goto t (LwWait stop) b s) \<subseteq> lw_known s \<union> {}"
    by (rule known_goto) (auto simp: b intro: in_lw_known)
  with collect(5) b show ?thesis by (simp add: lw_fresh_def)
next
  case (spin stop again b)
  note b = spin_Inr [OF spin(2)]
  have "lw_known s' \<subseteq> lw_known s \<union> {}"
    unfolding spin(3) by (rule known_goto) (auto simp: b nulled_def intro: in_lw_known split: if_splits)
  with spin(3) b show ?thesis by (simp add: lw_fresh_def)
next
  case clear
  have "lw_known s' \<subseteq> lw_known s \<union> {}"
    unfolding clear(2) by (rule known_goto) (auto simp: lw_clear_def intro: in_lw_known)
  with clear(2) show ?thesis by (simp add: lw_fresh_def lw_clear_def)
next
  case (pool i a)
  have "lw_known s' \<subseteq> lw_known s \<union> {}"
    unfolding pool(2)
    by (rule known_goto)
      (use in_lw_known(4) [of s t a] pool(1) in \<open>auto simp: lw_pool_def intro: in_lw_known\<close>)
  with pool(2) show ?thesis by (simp add: lw_fresh_def lw_pool_def)
next
  case (unlock i)
  have "lw_known (lw_goto t LwNeed (lw_bench s) s) \<subseteq> lw_known s \<union> {}"
    by (rule known_goto) (auto intro: in_lw_known)
  with unlock(2) show ?thesis by (simp add: lw_fresh_def)
next
  case (take pc b)
  from take(3) show ?thesis
  proof (cases rule: take_Inr)
    case (1 a tid)
    have "lw_known (lw_goto t pc b s) \<subseteq> lw_known s \<union> lw_fresh s s'"
      by (rule known_goto) (use 1 take(4) in \<open>auto simp: lw_fresh_def intro: in_lw_known\<close>)
    with 1 take(4) show ?thesis by (auto simp: lw_fresh_def)
  qed
next
  case (publish a)
  have "lw_known (lw_goto t LwIdle (lw_publish t a (lw_bench s)) s) \<subseteq> lw_known s \<union> {}"
    by (rule known_goto)
      (use in_lw_known(4) [of s t a] publish(1) in
        \<open>auto simp: lw_publish_def intro: in_lw_known split: if_splits\<close>)
  with publish(2) show ?thesis by (simp add: lw_fresh_def lw_publish_def)
qed

text \<open>Where the lock is free nobody is in a section under it, and otherwise the holder only.\<close>

lemma invariant_lock:
  assumes "lw_invariant s"
  shows "epochMutex s = None \<Longrightarrow> pc_lock (lw_pcs s u) = Without"
    and "pc_lock (lw_pcs s t) \<noteq> Without \<Longrightarrow> u \<noteq> t \<Longrightarrow> pc_lock (lw_pcs s u) = Without"
  using assms unfolding lw_invariant_def by (metis option.distinct(1), metis option.inject)

lemma invariant_registered:
  assumes "lw_invariant s" and "\<And>u. pc_lock (lw_pcs s u) \<noteq> Spinning"
    and "u \<in> threadLocalBufs (lw_bench s)"
  shows "lw_log_buffer (lw_bench s) u \<noteq> None"
  using assms unfolding lw_invariant_def by blast

lemma lw_invariant_step:
  assumes "lw_step iter tsc t s (Inr s')" and "lw_invariant s"
    and "set (iter (threadLocalBufs (lw_bench s))) \<subseteq> threadLocalBufs (lw_bench s)"
  shows "lw_invariant s'"
proof -
  note inv = assms(2) [unfolded lw_invariant_def]
  have used: "None \<notin> set (bufsInUse (lw_bench s))"
    and lock: "pc_lock (lw_pcs s u) \<noteq> Without \<longleftrightarrow> epochMutex s = Some u"
    and returning: "pc_lock (lw_pcs s u) = Returning \<Longrightarrow> threadLocalBufs (lw_bench s) = {}" for u
    using inv by blast+
  note free = invariant_lock(1) [OF assms(2)] and others = invariant_lock(2) [OF assms(2)]
    and registered = invariant_registered [OF assms(2)]
  note step = lw_step_known [OF assms(1)]
  then have fresh: "{..< lw_next (lw_bench s)} \<union> lw_fresh s s' = {..< lw_next (lw_bench s')}"
    by (auto simp: lw_fresh_def)
  have known: "dom (lw_heap (lw_bench s')) = {..< lw_next (lw_bench s')}"
    "lw_known s' \<subseteq> {..< lw_next (lw_bench s')}"
    unfolding fresh [symmetric] using step inv by auto
  have "None \<notin> set (bufsInUse (lw_bench s'))
    \<and> (\<forall>u. pc_lock (lw_pcs s' u) \<noteq> Without \<longleftrightarrow> epochMutex s' = Some u)
    \<and> (\<forall>u. pc_lock (lw_pcs s' u) = Returning \<longrightarrow> threadLocalBufs (lw_bench s') = {})
    \<and> ((\<forall>u. pc_lock (lw_pcs s' u) \<noteq> Spinning) \<longrightarrow>
         (\<forall>u \<in> threadLocalBufs (lw_bench s'). lw_log_buffer (lw_bench s') u \<noteq> None))"
    using assms(1)
  proof (cases rule: lw_step_kinds)
    case (local pc b)
    then have same: "pc_lock (lw_pcs s' u) = pc_lock (lw_pcs s u)" "epochMutex s' = epochMutex s"
      "bufsInUse (lw_bench s') = bufsInUse (lw_bench s)"
      "threadLocalBufs (lw_bench s') = threadLocalBufs (lw_bench s)"
      "lw_log_buffer (lw_bench s') = lw_log_buffer (lw_bench s)" for u
      by (simp_all add: lw_frame_def)
    show ?thesis unfolding same using inv by blast
  next
    case (collect stop b)
    note b = collect_Inr [OF collect(4)]
    from free [OF collect(2)] registered assms(3)
    have "None \<notin> lw_log_buffer (lw_bench s) ` set (iter (threadLocalBufs (lw_bench s)))"
      by fastforce
    with free [OF collect(2)] used show ?thesis by (auto simp: collect(5) b)
  next
    case (spin stop again b)
    then have "pc_lock (lw_pcs s t) = Spinning" by simp
    with lock [of t] others [of t] used spin(3) spin_Inr [OF spin(2)] show ?thesis by auto
  next
    case clear
    then have "pc_lock (lw_pcs s t) = Spinning" by simp
    with lock [of t] others [of t] used show ?thesis by (auto simp: clear(2) lw_clear_def)
  next
    case (pool i a)
    then have "pc_lock (lw_pcs s t) = Returning" by simp
    with lock [of t] others [of t] used returning [of t] show ?thesis
      by (auto simp: pool(2) lw_pool_def)
  next
    case (unlock i)
    then have "pc_lock (lw_pcs s t) = Returning" by simp
    with others [of t] used returning [of t] show ?thesis by (auto simp: unlock(2))
  next
    case (take pc b)
    note idle = free [OF take(2)]
    from take(3) show ?thesis
      by (cases rule: take_Inr) (use idle registered used in \<open>auto simp: take(4)\<close>)
  next
    case (publish a)
    then have "pc_lock (lw_pcs s t) = Allocating" by simp
    moreover from this others [of t] have "pc_lock (lw_pcs s u) \<noteq> Spinning" for u
      by (cases "u = t") auto
    ultimately show ?thesis
      using others [of t] used registered by (auto simp: publish(2) lw_publish_def)
  qed
  with known show ?thesis by (simp add: lw_invariant_def)
qed

lemma lw_invariant_init: "lw_invariant init_lw_system"
  by (auto simp: lw_invariant_def init_lw_system_def init_bench_def lw_known_def split: if_splits)

lemma lw_reach_invariant:
  assumes "lw_reach iter tsc s s'" and "lw_invariant s" and "\<And>T. set (iter T) \<subseteq> T"
  shows "lw_invariant s'"
  using assms by induction (auto intro: lw_invariant_step)

section \<open>Positions in a buffer\<close>

text \<open>The index that a thread has read and stores at.\<close>

fun pc_index :: "lw_pc \<Rightarrow> int option" where
  "pc_index (LwBump a w k i) = Some i"
| "pc_index (LwPut a w k i) = Some i"
| "pc_index _ = None"

definition counts_up :: "bench \<Rightarrow> bool" where
  "counts_up b \<longleftrightarrow> (\<forall>a buf. lw_heap b a = Some buf \<longrightarrow> 0 \<le> lb_events buf)"

definition lw_positions :: "lw_system \<Rightarrow> bool" where
  "lw_positions s \<longleftrightarrow> counts_up (lw_bench s) \<and> (\<forall>t i. pc_index (lw_pcs s t) = Some i \<longrightarrow> 0 \<le> i)"

lemma counts_up_store: "counts_up b \<Longrightarrow> 0 \<le> lb_events buf \<Longrightarrow> counts_up (lw_store a buf b)"
  by (simp add: counts_up_def)

lemma counts_up_fields [simp]:
  "counts_up (b\<lparr>lw_log_buffer := p\<rparr>) = counts_up b"
  "counts_up (b\<lparr>lw_freeBufs := free\<rparr>) = counts_up b"
  "counts_up (b\<lparr>bufsInUse := used\<rparr>) = counts_up b"
  "counts_up (b\<lparr>threadLocalBufs := T\<rparr>) = counts_up b"
  "counts_up (b\<lparr>lw_reads := r\<rparr>) = counts_up b"
  "counts_up (b\<lparr>global_epoch := e\<rparr>) = counts_up b"
  by (simp_all add: counts_up_def)

lemma counts_upD: "counts_up b \<Longrightarrow> lw_heap b a = Some buf \<Longrightarrow> 0 \<le> lb_events buf"
  by (simp add: counts_up_def)

lemma after_put_index [simp]: "pc_index (after_put k a) = None"
  by (cases k) simp_all

lemma reset_member_events: "0 \<le> lb_events buf \<Longrightarrow> 0 \<le> lb_events (reset_member n buf)"
  by (cases "(n, buf)" rule: reset_member.cases) simp_all

lemma access_counts:
  assumes "lw_access tsc pc b = Some (Inr (pc', b'))" and "counts_up b"
    and "\<And>i. pc_index pc = Some i \<Longrightarrow> 0 \<le> i"
  shows "counts_up b'" and "pc_index pc' = Some i \<Longrightarrow> 0 \<le> i"
proof -
  have up: "0 \<le> lb_events buf" if "lw_heap b a = Some buf" for a buf
    using assms(2) that by (rule counts_upD)
  from assms up show "counts_up b'"
    by (cases pc) (auto simp: access_Inr_iff lw_rdtsc_def reset_member_events intro!: counts_up_store
        split: if_splits)
  from assms(1,3) up show "pc_index pc' = Some i \<Longrightarrow> 0 \<le> i"
    by (cases pc) (auto simp: access_Inr_iff lw_rdtsc_def split: if_splits)
qed

lemma take_counts:
  assumes "lw_take t b = (pc, b')" and "counts_up b"
  shows "counts_up b' \<and> pc_index pc = None"
  using assms(1)
proof (cases rule: take_Inr)
  case (1 a tid)
  with assms(2) show ?thesis by (auto simp: counts_up_def split: if_splits)
qed

lemma lw_positions_goto:
  "lw_positions s \<Longrightarrow> counts_up b \<Longrightarrow> (\<And>i. pc_index pc = Some i \<Longrightarrow> 0 \<le> i) \<Longrightarrow>
     lw_positions (lw_goto t pc b s)"
  by (simp add: lw_positions_def)

lemma lw_positions_mutex [simp]: "lw_positions (lw_goto t pc b (s\<lparr>epochMutex := m\<rparr>)) = lw_positions (lw_goto t pc b s)"
  by (simp add: lw_positions_def)

lemma lw_positions_step:
  assumes "lw_step iter tsc t s (Inr s')" and "lw_positions s"
  shows "lw_positions s'"
proof -
  note digest = eq_commute [of "Inr s'"] and_then_Inr_iff
  have up: "counts_up (lw_bench s)" and index: "pc_index (lw_pcs s t) = Some i \<Longrightarrow> 0 \<le> i" for i
    using assms(2) by (simp_all add: lw_positions_def)
  note goto = lw_positions_goto [OF assms(2)]
  from assms(1) show ?thesis
  proof (cases rule: lw_step_rules)
    case (access outcome)
    then obtain pc b where s': "outcome = Inr (pc, b)" "s' = lw_goto t pc b s"
      by (auto simp: digest split: prod.splits)
    from access_counts [OF access(2) [unfolded s'(1)] up index] show ?thesis
      unfolding s'(2) by (rule goto)
  next
    case collect
    then show ?thesis
      by (auto simp: digest split: prod.splits intro!: goto up dest!: collect_Inr)
  next
    case (spin stop)
    then show ?thesis
      by (auto simp: digest split: prod.splits if_splits intro!: goto up dest!: spin_Inr)
  next
    case take
    then obtain pc b where "lw_take t (lw_bench s) = (pc, b)"
      and s': "s' = lw_goto t pc b (s\<lparr>epochMutex := Some t\<rparr>)"
      by (auto simp: digest split: prod.splits)
    with take_counts [OF this(1) up] goto [of b pc] show ?thesis by simp
  next
    case (next_buf i)
    then show ?thesis by (auto simp: digest intro!: goto up)
  qed (auto simp: lw_clear_def lw_pool_def lw_publish_def intro!: goto up split: option.splits)
qed

lemma lw_reach_positions:
  assumes "lw_reach iter tsc s s'" and "lw_positions s"
  shows "lw_positions s'"
  using assms by induction (auto intro: lw_positions_step)

lemma lw_positions_init: "lw_positions init_lw_system"
  by (simp add: lw_positions_def counts_up_def init_lw_system_def init_bench_def)

section \<open>The errors that remain\<close>

lemma field_Inl: "lw_heap b a = Some buf \<Longrightarrow> lw_field a next b \<noteq> Inl e"
  by (simp add: lw_field_def)

lemma assign_Inl: "lw_heap b a = Some buf \<Longrightarrow> lw_assign a f next b \<noteq> Inl e"
  by (simp add: lw_assign_def)

lemma access_error:
  assumes "lw_access tsc pc b = Some (Inl e)"
    and "\<And>a. pc_buf pc = Some a \<Longrightarrow> \<exists>buf. lw_heap b a = Some buf"
    and "\<And>i. pc_index pc = Some i \<Longrightarrow> 0 \<le> i"
  shows "e = SignedOverflow \<or> e = OutOfBounds \<and> (\<exists>a w k i. pc = LwPut a w k i \<and> LB_LEN \<le> i)"
  using assms(1)
proof (cases "pc_buf pc")
  case None
  with assms(1) show ?thesis
    by (cases pc) (auto simp: and_then_Inl_iff int_add_Inl_iff split: if_splits)
next
  case (Some a)
  with assms(2) obtain buf where "lw_heap b a = Some buf" by blast
  note heap = field_Inl [OF this] assign_Inl [OF this]
  from assms(1,3) Some heap show ?thesis
    by (cases pc) (auto simp: and_then_Inl_iff int_add_Inl_iff lw_rdtsc_def split: if_splits)
qed

lemma alloc_ok:
  assumes "set (lw_freeBufs b) \<subseteq> dom (lw_heap b)"
  shows "\<exists>b'. lw_allocBuffer t b = Inr b'"
proof -
  obtain a b1 where take: "lw_take_buffer b = (a, b1)" by (cases "lw_take_buffer b")
  obtain tid b2 where tid: "lw_tid t b1 = (tid, b2)" by (cases "lw_tid t b1")
  from take assms have "a \<in> dom (lw_heap b1)"
    by (cases rule: lw_take_buffer_cases) (auto dest!: last_in_set)
  moreover have "lw_heap b2 = lw_heap b1"
    using tid by (auto simp: lw_tid_def Let_def split: option.splits)
  ultimately show ?thesis using take tid by (auto simp: lw_allocBuffer_def)
qed

lemma frame_heap: "lw_frame b b' \<Longrightarrow> lw_heap b a = Some buf \<Longrightarrow> \<exists>buf'. lw_heap b' a = Some buf'"
  unfolding lw_frame_def by blast

inductive_cases lw_step_InlE: "lw_step iter tsc t s (Inl e)"

lemmas lw_error_rules = lw_step_InlE [consumes 1, case_names access collect spin next_buf
  take]

lemma known_heap:
  assumes "lw_invariant s" and "a \<in> lw_known s"
  obtains buf where "lw_heap (lw_bench s) a = Some buf"
  using assms unfolding lw_invariant_def by blast

lemma lw_step_error:
  assumes "lw_step iter tsc t s (Inl e)" and "lw_invariant s" and "lw_positions s"
  shows "e = SignedOverflow
    \<or> e = OutOfBounds \<and> (\<exists>a w k i. lw_pcs s t = LwPut a w k i \<and> LB_LEN \<le> i)
    \<or> e = UseAfterFree \<and> (\<exists>u \<in> threadLocalBufs (lw_bench s). lw_pcs s u = LwExited)"
proof -
  note digest = eq_commute [of "Inl e"] and_then_Inl_iff
  note inv = assms(2) [unfolded lw_invariant_def]
  from assms(1) show ?thesis
  proof (cases rule: lw_error_rules)
    case (access outcome)
    then have "lw_access tsc (lw_pcs s t) (lw_bench s) = Some (Inl e)"
      by (auto simp: digest split: prod.splits)
    moreover have "\<exists>buf. lw_heap (lw_bench s) a = Some buf" if "pc_buf (lw_pcs s t) = Some a" for a
      using known_heap [OF assms(2) in_lw_known(4) [OF that]] by blast
    moreover have "0 \<le> i" if "pc_index (lw_pcs s t) = Some i" for i
      using assms(3) that by (simp add: lw_positions_def)
    ultimately show ?thesis using access_error by blast
  next
    case collect
    then show ?thesis by (auto simp: digest registered_live_Inl_iff split: prod.splits)
  next
    case (spin stop)
    then show ?thesis by (auto simp: digest registered_live_Inl_iff split: prod.splits if_splits)
  next
    case (next_buf i)
    then have "None \<in> set (bufsInUse (lw_bench s))"
      by (cases "bufsInUse (lw_bench s) ! i") (auto simp: digest dest: nth_mem)
    with inv show ?thesis by blast
  next
    case take
    then show ?thesis by (simp split: prod.splits)
  qed
qed

section \<open>The thread that loses the election\<close>

lemma lw_reach_unknown:
  assumes "lw_reach iter tsc s s'" and "a < lw_next (lw_bench s)" and "a \<notin> lw_known s"
  shows "a < lw_next (lw_bench s') \<and> a \<notin> lw_known s'"
  using assms
proof induction
  case here
  then show ?case by simp
next
  case (more s1 t s2)
  with lw_step_known [OF more.hyps(2)] show ?case by (force simp: lw_fresh_def)
qed

lemma losing_thread:
  assumes "lw_invariant s" and "epochMutex s = None"
    and "lw_pcs s t = LwFull a" and "lw_heap (lw_bench s) a = Some buf"
    and "lb_epoch buf \<noteq> global_epoch (lw_bench s)" and "INT_MIN \<le> lb_epoch buf" and "lb_epoch buf < INT_MAX"
    and "a \<notin> set (lw_freeBufs (lw_bench s))" and "Some a \<notin> set (bufsInUse (lw_bench s))"
    and "\<And>u. u \<noteq> t \<Longrightarrow> lw_log_buffer (lw_bench s) u \<noteq> Some a \<and> pc_buf (lw_pcs s u) \<noteq> Some a"
  shows "\<exists>s'. lw_reach iter tsc s s' \<and> lw_pcs s' t = LwIdle \<and> a < lw_next (lw_bench s') \<and> a \<notin> lw_known s'"
proof -
  let ?b = "lw_bench s" and ?s1 = "lw_goto t LwNeed (lw_bench s) s"
  note inv = assms(1) [unfolded lw_invariant_def]
  have lost: "inc_global_epoch a ?b = Inr (False, ?b)"
    using assms(4-7) by (simp add: inc_global_epoch_def int_add_def)
  have elected: "lw_reach iter tsc s ?s1"
    using election_reach [OF assms(3) lost, of iter tsc] by simp
  have "set (lw_freeBufs ?b) \<subseteq> dom (lw_heap ?b)" using inv in_lw_known(1) by blast
  then obtain b' where alloc: "lw_allocBuffer t ?b = Inr b'" using alloc_ok by blast
  let ?s2 = "lw_goto t LwIdle b' s"
  have "lw_reach iter tsc ?s1 ?s2"
    using alloc_reach [of ?s1 t b' iter tsc] alloc assms(2) by simp
  moreover have "a < lw_next b' \<and> a \<notin> lw_known ?s2"
  proof -
    have a: "a < lw_next ?b" using inv in_lw_known(4) [of s t a] assms(3) by auto
    from alloc show ?thesis
      by (cases rule: allocBuffer_Inr) (use a assms(8-10) in \<open>auto simp: lw_known_def\<close>)
  qed
  ultimately show ?thesis using elected lw_reach_trans by fastforce
qed

end
