(* ===== verification/EarlierRaces.thy ===== *)
theory EarlierRaces
  imports EarlierInvariant
begin

text \<open>
  What happens when threads of \<open>local_writes_benchmarks.cc\<close> meet at the end of an epoch: runs of
  \<open>EarlierConcurrent\<close> in which two threads fill their buffers, share one, or return; and the properties
  of the interleaved benchmark.
\<close>

section \<open>Runs with two threads\<close>

lemma calls_reach:
  assumes "calls (lw_write8 iter tsc BODY_EPOCH t) es b = Some (Inr b')"
    and "lw_bench s = b" and "lw_pcs s t = LwIdle" and "epochMutex s = None"
    and "\<And>u. lw_pcs s u \<noteq> LwExited"
  shows "lw_reach iter tsc s (lw_goto t LwIdle b' s)"
  using assms
proof (induction es arbitrary: b s)
  case Nil
  then have "lw_goto t LwIdle b' s = s" by (cases s) (auto simp: lw_goto_def)
  then show ?case by (simp add: lw_reach.here)
next
  case (Cons e es)
  from Cons.prems(1) obtain b1 where b1: "lw_write8 iter tsc BODY_EPOCH t e b = Some (Inr b1)"
    "calls (lw_write8 iter tsc BODY_EPOCH t) es b1 = Some (Inr b')" by (auto simp: run_then_Inr_iff)
  let ?s1 = "lw_goto t LwIdle b1 s"
  have "lw_reach iter tsc s ?s1"
    using write8_reach [of iter tsc t e s b1] b1(1) Cons.prems(2-5) by (simp add: registered_live_def)
  moreover have "lw_reach iter tsc ?s1 (lw_goto t LwIdle b' ?s1)"
    by (rule Cons.IH [OF b1(2)]) (use Cons.prems(4,5) in simp_all)
  ultimately show ?case by (auto intro: lw_reach_trans)
qed

text \<open>The 1024th event of a buffer, up to the point where the thread would end the epoch.\<close>

lemma last_event_reach:
  assumes "lw_pcs s t = LwIdle" and "lw_log_buffer (lw_bench s) t = Some a"
    and "lw_heap (lw_bench s) a = Some buf" and "stamped 1023 buf"
  shows "\<exists>buf'. lw_reach iter tsc s (lw_goto t (LwFull a)
      (lw_store a buf' ((lw_bench s)\<lparr>lw_reads := Suc (lw_reads (lw_bench s))\<rparr>)) s)
    \<and> lb_events buf' = 1032 \<and> lb_epoch buf' = lb_epoch buf"
proof -
  let ?b = "lw_bench s"
  have pos: "stamped_pos 1023 = 1030" "stamped_left 1023 = 1"
    by (simp_all add: stamped_pos_def stamped_left_def)
  let ?buf1 = "buf\<lparr>lb_buf := (lb_buf buf)(1030 \<mapsto> encode_bench 0 0 0), lb_events := 1031,
    lb_eventsToRdtsc := 0\<rparr>"
  let ?b1 = "lw_store a ?buf1 ?b"
  let ?buf2 = "?buf1\<lparr>lb_buf := (lb_buf ?buf1)(1031 \<mapsto> encode_rdtsc (tsc (lw_reads ?b))),
    lb_events := 1032, lb_eventsToRdtsc := 128\<rparr>"
  let ?b2 = "lw_store a ?buf2 (?b\<lparr>lw_reads := Suc (lw_reads ?b)\<rparr>)"
  let ?at = "\<lambda>pc b. lw_goto t pc b s"
  have count: "lw_count_down a (encode_bench 0 0 0) ?b = Inr ?b1"
    using count_down_call [OF assms(3,4)] by (simp add: pos)
  have stamp: "lw_timestamp tsc a ?b1 = Inr ?b2"
    using timestamp_call [of ?b1 a ?buf1 tsc] by (cases buf) (simp add: lb_sizes lw_store_def)
  have "lw_reach iter tsc s (?at (LwLoaded (Some a)) ?b)"
    using lw_step.load [OF assms(1), of iter tsc] assms(2) by (auto intro: lw_reach_step)
  also have "lw_reach iter tsc (?at (LwLoaded (Some a)) ?b) (?at LwSlow ?b1)"
    using event_reach [of "?at (LwLoaded (Some a)) ?b" t a 0 0 0 ?b1 ?buf1 iter tsc] count
    by simp
  also have "lw_reach iter tsc (?at LwSlow ?b1) (?at (LwSlowBuf a) ?b1)"
    using lw_step.reload [of "?at LwSlow ?b1" t iter tsc] assms(2) by (auto intro: lw_reach_step)
  also have "lw_reach iter tsc (?at (LwSlowBuf a) ?b1) (?at (LwFull a) ?b2)"
    using timestamp_reach [of "?at (LwSlowBuf a) ?b1" t a ?buf1 tsc ?b2 ?buf2 iter] stamp
    by (simp add: lb_sizes)
  finally show ?thesis by (intro exI [of _ ?buf2]) simp
qed

lemma fill_reach:
  assumes "lw_pcs s t = LwIdle" and "epochMutex s = None" and "\<And>u. lw_pcs s u \<noteq> LwExited"
    and "lw_log_buffer (lw_bench s) t = Some a" and "lw_heap (lw_bench s) a = Some buf" and "stamped 0 buf"
  shows "\<exists>buf' r. lw_reach iter tsc s
      (lw_goto t (LwFull a) (lw_store a buf' ((lw_bench s)\<lparr>lw_reads := r\<rparr>)) s)
    \<and> lb_events buf' = 1032 \<and> lb_epoch buf' = lb_epoch buf"
proof -
  obtain buf1 r where buf1: "calls (lw_write8 iter tsc BODY_EPOCH t) (replicate 1023 (0, 0, 0)) (lw_bench s)
      = Some (Inr (lw_store a buf1 ((lw_bench s)\<lparr>lw_reads := r\<rparr>)))" "stamped 1023 buf1"
    "lb_epoch buf1 = lb_epoch buf"
    using epoch_calls [OF assms(4-6), of "replicate 1023 (0, 0, 0)" iter tsc] by auto
  let ?s1 = "lw_goto t LwIdle (lw_store a buf1 ((lw_bench s)\<lparr>lw_reads := r\<rparr>)) s"
  have first: "lw_reach iter tsc s ?s1"
    by (rule calls_reach [OF buf1(1)]) (use assms(1-3) in simp_all)
  obtain buf2 where "lw_reach iter tsc ?s1 (lw_goto t (LwFull a)
      (lw_store a buf2 ((lw_bench ?s1)\<lparr>lw_reads := Suc (lw_reads (lw_bench ?s1))\<rparr>)) ?s1)"
    "lb_events buf2 = 1032" "lb_epoch buf2 = lb_epoch buf1"
    using last_event_reach [of ?s1 t a buf1 iter tsc] buf1(2) assms(4) by auto
  with first buf1(3) show ?thesis
    by (intro exI [of _ buf2] exI [of _ "Suc r"]) (auto intro: lw_reach_trans simp: lw_store_def)
qed

text \<open>
  Two threads have started and have buffers 8 and 9, with \<open>pc0\<close> and \<open>pc1\<close> where they are and \<open>e\<close>
  the epoch.
\<close>

definition lw_two_threads :: "lw_pc \<Rightarrow> lw_pc \<Rightarrow> int \<Rightarrow> lw_system \<Rightarrow> bool" where
  "lw_two_threads pc0 pc1 e s \<longleftrightarrow>
     epochMutex s = None \<and> lw_pcs s = (\<lambda>_. LwNeed)(0 := pc0, 1 := pc1)
     \<and> lw_log_buffer (lw_bench s) = [0 \<mapsto> 8, 1 \<mapsto> 9] \<and> threadLocalBufs (lw_bench s) = {0, 1}
     \<and> lw_freeBufs (lw_bench s) = [] \<and> bufsInUse (lw_bench s) = [] \<and> global_epoch (lw_bench s) = e"

lemma lw_two_threads_goto:
  assumes "lw_two_threads pc0 pc1 e s" and "lw_frame (lw_bench s) b" and "global_epoch b = e'"
  shows "lw_two_threads pc pc1 e' (lw_goto 0 pc b s)" and "lw_two_threads pc0 pc e' (lw_goto 1 pc b s)"
  using assms by (auto simp: lw_two_threads_def lw_frame_def fun_eq_iff)

lemma lw_two_threads_pcs:
  assumes "lw_two_threads pc0 pc1 e s"
  shows "lw_pcs s 0 = pc0" "lw_pcs s 1 = pc1" "epochMutex s = None"
    "lw_log_buffer (lw_bench s) 0 = Some 8" "lw_log_buffer (lw_bench s) 1 = Some 9"
  using assms by (auto simp: lw_two_threads_def)

lemma lw_two_threads_live:
  "lw_two_threads pc0 pc1 e s \<Longrightarrow> pc0 \<noteq> LwExited \<Longrightarrow> pc1 \<noteq> LwExited \<Longrightarrow> lw_pcs s u \<noteq> LwExited"
  by (auto simp: lw_two_threads_def)

lemma two_started:
  "\<exists>s buf0 buf1. lw_reach iter tsc init_lw_system s \<and> lw_two_threads LwIdle LwIdle 0 s
     \<and> lw_heap (lw_bench s) 8 = Some buf0 \<and> stamped 0 buf0 \<and> lb_epoch buf0 = 0
     \<and> lw_heap (lw_bench s) 9 = Some buf1 \<and> stamped 0 buf1 \<and> lb_epoch buf1 = 0"
proof -
  define b0 where "b0 = projr (lw_allocBuffer 0 init_bench)"
  define b1 where "b1 = projr (lw_allocBuffer 1 b0)"
  note run = lw_allocBuffer_def lw_take_buffer_def lw_tid_def init_bench_def Let_def
  have b0: "lw_allocBuffer 0 init_bench = Inr b0" by (simp add: b0_def run)
  have b1: "lw_allocBuffer 1 b0 = Inr b1" by (simp add: b1_def b0_def run)
  let ?s0 = "lw_goto 0 LwIdle b0 init_lw_system"
  let ?s1 = "lw_goto 1 LwIdle b1 ?s0"
  have "lw_reach iter tsc init_lw_system ?s0"
    using alloc_reach [of init_lw_system 0 b0 iter tsc] b0
    by (simp add: init_lw_system_def)
  also have "lw_reach iter tsc ?s0 ?s1"
    using alloc_reach [of ?s0 1 b1 iter tsc] b1 by (simp add: init_lw_system_def)
  finally have reach: "lw_reach iter tsc init_lw_system ?s1" .
  have "lw_two_threads LwIdle LwIdle 0 ?s1"
    by (simp add: lw_two_threads_def init_lw_system_def b1_def b0_def run insert_commute)
  moreover have "\<exists>buf. lw_heap b1 a = Some buf \<and> stamped 0 buf \<and> lb_epoch buf = 0" if "a \<in> {8, 9}" for a
    using that by (auto simp: b1_def b0_def run stamped_def stamped_pos_def stamped_left_def
        stamped_slots_def RDTSC_SAMPLING_RATE_def)
  ultimately show ?thesis using reach by (metis insertCI lw_goto_simps(1))
qed

lemma store_frame: "lw_heap b a \<noteq> None \<Longrightarrow> lw_frame b (lw_store a buf (b\<lparr>lw_reads := r\<rparr>))"
  by (auto simp: lw_frame_def)

lemma one_full:
  "\<exists>s buf0 buf1. lw_reach iter tsc init_lw_system s \<and> lw_two_threads (LwFull 8) LwIdle 0 s
     \<and> lw_heap (lw_bench s) 8 = Some buf0 \<and> lb_epoch buf0 = 0
     \<and> lw_heap (lw_bench s) 9 = Some buf1 \<and> stamped 0 buf1 \<and> lb_epoch buf1 = 0"
proof -
  obtain s buf0 buf1 where s: "lw_reach iter tsc init_lw_system s" "lw_two_threads LwIdle LwIdle 0 s"
    "lw_heap (lw_bench s) 8 = Some buf0" "stamped 0 buf0" "lb_epoch buf0 = 0"
    "lw_heap (lw_bench s) 9 = Some buf1" "stamped 0 buf1" "lb_epoch buf1 = 0"
    using two_started [of iter tsc] by blast
  note pcs = lw_two_threads_pcs [OF s(2)]
  have "lw_pcs s u \<noteq> LwExited" for u by (rule lw_two_threads_live [OF s(2)]) simp_all
  from fill_reach [OF pcs(1,3) this pcs(4) s(3,4), of iter tsc] obtain buf r where
    full: "lw_reach iter tsc s (lw_goto 0 (LwFull 8) (lw_store 8 buf ((lw_bench s)\<lparr>lw_reads := r\<rparr>)) s)"
    "lb_epoch buf = lb_epoch buf0" by blast
  let ?b = "lw_store 8 buf ((lw_bench s)\<lparr>lw_reads := r\<rparr>)"
  have "lw_two_threads (LwFull 8) LwIdle 0 (lw_goto 0 (LwFull 8) ?b s)"
    by (rule lw_two_threads_goto(1) [OF s(2) store_frame]) (use s(2,3) in \<open>simp_all add: lw_two_threads_def\<close>)
  with lw_reach_trans [OF s(1) full(1)] full(2) s(5-8) show ?thesis
    by (intro exI [of _ "lw_goto 0 (LwFull 8) ?b s"] exI [of _ buf] exI [of _ buf1]) simp
qed

lemma two_full:
  "\<exists>s buf0 buf1. lw_reach iter tsc init_lw_system s \<and> lw_two_threads (LwFull 8) (LwFull 9) 0 s
     \<and> lw_heap (lw_bench s) 8 = Some buf0 \<and> lb_epoch buf0 = 0
     \<and> lw_heap (lw_bench s) 9 = Some buf1 \<and> lb_events buf1 = 1032 \<and> lb_epoch buf1 = 0"
proof -
  obtain s buf0 buf1 where s: "lw_reach iter tsc init_lw_system s" "lw_two_threads (LwFull 8) LwIdle 0 s"
    "lw_heap (lw_bench s) 8 = Some buf0" "lb_epoch buf0 = 0"
    "lw_heap (lw_bench s) 9 = Some buf1" "stamped 0 buf1" "lb_epoch buf1 = 0"
    using one_full [of iter tsc] by blast
  note pcs = lw_two_threads_pcs [OF s(2)]
  have "lw_pcs s u \<noteq> LwExited" for u by (rule lw_two_threads_live [OF s(2)]) simp_all
  from fill_reach [OF pcs(2,3) this pcs(5) s(5,6), of iter tsc] obtain buf r where
    full: "lw_reach iter tsc s (lw_goto 1 (LwFull 9) (lw_store 9 buf ((lw_bench s)\<lparr>lw_reads := r\<rparr>)) s)"
    "lb_events buf = 1032" "lb_epoch buf = lb_epoch buf1" by blast
  let ?b = "lw_store 9 buf ((lw_bench s)\<lparr>lw_reads := r\<rparr>)"
  have "lw_two_threads (LwFull 8) (LwFull 9) 0 (lw_goto 1 (LwFull 9) ?b s)"
    by (rule lw_two_threads_goto(2) [OF s(2) store_frame]) (use s(2,5) in \<open>simp_all add: lw_two_threads_def\<close>)
  with lw_reach_trans [OF s(1) full(1)] full(2,3) s(3,4,7) show ?thesis
    by (intro exI [of _ "lw_goto 1 (LwFull 9) ?b s"] exI [of _ buf0] exI [of _ buf]) simp
qed

text \<open>The first thread wins the election.\<close>

lemma elect_first:
  assumes "lw_two_threads (LwFull 8) pc1 0 s" and "lw_heap (lw_bench s) 8 = Some buf0" and "lb_epoch buf0 = 0"
  shows "lw_reach iter tsc s (lw_goto 0 LwEnd ((lw_bench s)\<lparr>global_epoch := 1\<rparr>) s)"
    and "lw_two_threads LwEnd pc1 1 (lw_goto 0 LwEnd ((lw_bench s)\<lparr>global_epoch := 1\<rparr>) s)"
proof -
  have "inc_global_epoch 8 (lw_bench s) = Inr (True, (lw_bench s)\<lparr>global_epoch := 1\<rparr>)"
    using assms by (simp add: inc_global_epoch_def int_add_def lw_two_threads_def)
  from election_reach [OF lw_two_threads_pcs(1) [OF assms(1)] this]
  show "lw_reach iter tsc s (lw_goto 0 LwEnd ((lw_bench s)\<lparr>global_epoch := 1\<rparr>) s)" by simp
  show "lw_two_threads LwEnd pc1 1 (lw_goto 0 LwEnd ((lw_bench s)\<lparr>global_epoch := 1\<rparr>) s)"
    by (rule lw_two_threads_goto(1) [OF assms(1)]) (simp_all add: lw_frame_def)
qed

lemma one_elected:
  "\<exists>s buf. lw_reach iter tsc init_lw_system s \<and> lw_two_threads LwEnd (LwFull 9) 1 s
     \<and> lw_heap (lw_bench s) 9 = Some buf \<and> lb_events buf = 1032 \<and> lb_epoch buf = 0"
proof -
  obtain s buf0 buf1 where s: "lw_reach iter tsc init_lw_system s" "lw_two_threads (LwFull 8) (LwFull 9) 0 s"
    "lw_heap (lw_bench s) 8 = Some buf0" "lb_epoch buf0 = 0"
    "lw_heap (lw_bench s) 9 = Some buf1" "lb_events buf1 = 1032" "lb_epoch buf1 = 0"
    using two_full [of iter tsc] by blast
  let ?s1 = "lw_goto 0 LwEnd ((lw_bench s)\<lparr>global_epoch := 1\<rparr>) s"
  from lw_reach_trans [OF s(1) elect_first(1) [OF s(2-4)]] elect_first(2) [OF s(2-4)] s(5-7)
  show ?thesis by (intro exI [of _ ?s1] exI [of _ buf1]) simp
qed

text \<open>A thread that returns leaves its pointer registered.\<close>

lemma exited_registered:
  "\<exists>s. lw_reach iter tsc init_lw_system s \<and> lw_two_threads LwEnd LwExited 1 s"
proof -
  obtain s buf0 where s: "lw_reach iter tsc init_lw_system s" "lw_two_threads (LwFull 8) LwIdle 0 s"
    "lw_heap (lw_bench s) 8 = Some buf0" "lb_epoch buf0 = 0"
    using one_full [of iter tsc] by blast
  let ?s1 = "lw_goto 1 LwExited (lw_bench s) s"
  have exit: "lw_reach iter tsc s ?s1"
    by (rule lw_reach_step [OF lw_step.exit [OF lw_two_threads_pcs(2) [OF s(2)]]])
  have two: "lw_two_threads (LwFull 8) LwExited 0 ?s1"
    by (rule lw_two_threads_goto(2) [OF s(2) lw_frame_refl]) (use s(2) in \<open>simp add: lw_two_threads_def\<close>)
  have "lw_heap (lw_bench ?s1) 8 = Some buf0" using s(3) by simp
  note elect = elect_first [OF two this s(4)]
  from lw_reach_trans [OF s(1) lw_reach_trans [OF exit elect(1)]] elect(2) show ?thesis by blast
qed

section \<open>Past the end of a buffer\<close>

lemma count_down_Some:
  assumes "lw_heap b a = Some buf" and "0 \<le> lb_events buf" and "lb_events buf < LB_LEN"
    and "INT_MIN < lb_eventsToRdtsc buf" and "lb_eventsToRdtsc buf \<le> INT_MAX"
  shows "lw_count_down a w b = Inr (lw_store a (buf\<lparr>lb_buf := (lb_buf buf)(lb_events buf \<mapsto> w),
    lb_events := lb_events buf + 1, lb_eventsToRdtsc := lb_eventsToRdtsc buf - 1\<rparr>) b)"
  using assms by (simp add: lw_count_down_def int_add_def)

text \<open>A countdown that has missed 0 never ends the buffer: the thread fills it to its last slot.\<close>

lemma runaway_reach:
  assumes "lw_pcs s t = LwIdle" and "lw_log_buffer (lw_bench s) t = Some a"
    and "lw_heap (lw_bench s) a = Some buf" and "0 \<le> lb_events buf" and "lb_eventsToRdtsc buf < 0"
  shows "lb_events buf + int k \<le> LB_LEN \<Longrightarrow> INT_MIN \<le> lb_eventsToRdtsc buf - int k \<Longrightarrow>
    \<exists>buf'. lw_reach iter tsc s (lw_goto t LwIdle (lw_store a buf' (lw_bench s)) s)
      \<and> lb_events buf' = lb_events buf + int k \<and> lb_eventsToRdtsc buf' = lb_eventsToRdtsc buf - int k"
proof (induction k)
  case 0
  have "lw_goto t LwIdle (lw_store a buf (lw_bench s)) s = s"
    using assms(1,3) by (cases s) (auto simp: lw_goto_def lw_store_same)
  then show ?case by (intro exI [of _ buf]) (simp add: lw_reach.here)
next
  case (Suc k)
  then obtain buf1 where buf1: "lw_reach iter tsc s (lw_goto t LwIdle (lw_store a buf1 (lw_bench s)) s)"
    "lb_events buf1 = lb_events buf + int k" "lb_eventsToRdtsc buf1 = lb_eventsToRdtsc buf - int k"
    by auto
  let ?b1 = "lw_store a buf1 (lw_bench s)"
  let ?s1 = "lw_goto t LwIdle ?b1 s" and ?s2 = "lw_goto t (LwLoaded (Some a)) ?b1 s"
  let ?buf2 = "buf1\<lparr>lb_buf := (lb_buf buf1)(lb_events buf1 \<mapsto> encode_bench 0 0 0),
    lb_events := lb_events buf1 + 1, lb_eventsToRdtsc := lb_eventsToRdtsc buf1 - 1\<rparr>"
  have "lw_reach iter tsc ?s1 ?s2"
    using lw_step.load [of ?s1 t iter tsc] assms(2) by (auto intro: lw_reach_step)
  moreover have "lw_count_down a (encode_bench 0 0 0) ?b1 = Inr (lw_store a ?buf2 (lw_bench s))"
    using count_down_Some [of ?b1 a buf1] buf1(2,3) assms(4,5) Suc.prems by simp
  then have "lw_reach iter tsc ?s2 (lw_goto t LwIdle (lw_store a ?buf2 (lw_bench s)) s)"
    using event_reach [of ?s2 t a 0 0 0 "lw_store a ?buf2 (lw_bench s)" ?buf2 iter tsc] buf1(3) assms(5)
    by simp
  ultimately show ?case
    using buf1 by (intro exI [of _ ?buf2]) (auto intro: lw_reach_trans)
qed

lemma runaway_error:
  assumes "lw_pcs s t = LwIdle" and "lw_log_buffer (lw_bench s) t = Some a"
    and "lw_heap (lw_bench s) a = Some buf" and "0 \<le> lb_events buf" and "lb_events buf \<le> LB_LEN"
    and "lb_eventsToRdtsc buf < 0" and "-1000000 \<le> lb_eventsToRdtsc buf"
  shows "\<exists>s' w buf'. lw_reach iter tsc s s' \<and> lw_pcs s' t = LwPut a w AccessEntry LB_LEN
    \<and> lw_log_buffer (lw_bench s') t = Some a \<and> lw_heap (lw_bench s') a = Some buf'
    \<and> lb_events buf' = LB_LEN + 1 \<and> lb_eventsToRdtsc buf' < 0
    \<and> lw_step iter tsc t s' (Inl OutOfBounds)"
proof -
  define k where "k = nat (LB_LEN - lb_events buf)"
  have k: "lb_events buf + int k = LB_LEN" using assms(5) by (simp add: k_def)
  moreover have "INT_MIN \<le> lb_eventsToRdtsc buf - int k"
    using k assms(4,7) by (simp add: lb_sizes)
  ultimately obtain buf' where buf': "lw_reach iter tsc s (lw_goto t LwIdle (lw_store a buf' (lw_bench s)) s)"
    "lb_events buf' = LB_LEN" "lb_eventsToRdtsc buf' < 0"
    using runaway_reach [OF assms(1-4,6), of k iter tsc] assms(6) by auto
  let ?b = "lw_store a buf' (lw_bench s)"
  let ?b1 = "lw_store a (buf'\<lparr>lb_events := LB_LEN + 1\<rparr>) (lw_bench s)"
    and ?w = "encode_bench 0 0 0"
  let ?s1 = "lw_goto t LwIdle ?b s" and ?s2 = "lw_goto t (LwLoaded (Some a)) ?b s"
    and ?s3 = "lw_goto t (LwPut a ?w AccessEntry LB_LEN) ?b1 s"
  note buf'(1)
  also have "lw_reach iter tsc ?s1 ?s2"
    using lw_step.load [of ?s1 t iter tsc] assms(2) by (auto intro: lw_reach_step)
  also have "lw_reach iter tsc ?s2 (lw_goto t (LwAppend a ?w AccessEntry) ?b s)"
    using lw_step.event [of ?s2 t a iter tsc 0 0 0] by (auto intro: lw_reach_step)
  finally have "lw_reach iter tsc s (lw_goto t (LwBump a ?w AccessEntry LB_LEN) ?b s)"
    by (rule access_reach [rotated]) (simp add: field_Inr buf'(2))
  then have "lw_reach iter tsc s ?s3"
    by (rule access_reach [rotated]) (simp add: assign_Inr int_add_def lb_sizes)
  moreover have "lw_step iter tsc t ?s3 (Inl OutOfBounds)"
    using lw_step.access [of tsc ?s3 t "Inl OutOfBounds" iter] by simp
  ultimately show ?thesis
    using assms(2) buf'(3)
    by (intro exI [of _ ?s3] exI [of _ ?w] exI [of _ "buf'\<lparr>lb_events := LB_LEN + 1\<rparr>"]) simp
qed

text \<open>
  Two threads that log to one buffer miss the 0: the second one's event comes between the two tests
  that the first one makes.
\<close>

lemma missed_zero_reach:
  assumes "lw_pcs s t = LwIdle" and "lw_pcs s u = LwIdle" and "t \<noteq> u"
    and "lw_log_buffer (lw_bench s) t = Some a" and "lw_log_buffer (lw_bench s) u = Some a"
    and "lw_heap (lw_bench s) a = Some buf" and "lb_events buf = 127" and "lb_eventsToRdtsc buf = 1"
  obtains s1 s2 buf1 buf2 where "lw_reach iter tsc s s1"
    "lw_pcs s1 t = LwSlow" "lw_pcs s1 u = LwLoaded (Some a)"
    "lw_heap (lw_bench s1) a = Some buf1" "lb_eventsToRdtsc buf1 = 0"
    "lw_reach iter tsc s1 s2" "lw_pcs s2 t = LwSlowBuf a" "lw_pcs s2 u = LwIdle"
    "lw_heap (lw_bench s2) a = Some buf2" "lb_events buf2 = 129" "lb_eventsToRdtsc buf2 = -1"
    "lw_reach iter tsc s2 (lw_goto u LwIdle (lw_store a buf2 (lw_bench s)) s)"
proof -
  let ?b = "lw_bench s" and ?w = "encode_bench 0 0 0"
  let ?buf1 = "buf\<lparr>lb_buf := (lb_buf buf)(127 \<mapsto> ?w), lb_events := 128, lb_eventsToRdtsc := 0\<rparr>"
  let ?buf2 = "?buf1\<lparr>lb_buf := (lb_buf ?buf1)(128 \<mapsto> ?w), lb_events := 129, lb_eventsToRdtsc := -1\<rparr>"
  let ?b1 = "lw_store a ?buf1 ?b" and ?b2 = "lw_store a ?buf2 ?b"
  let ?at = "\<lambda>pct pcu b. lw_goto u pcu b (lw_goto t pct b s)"
  note step = lw_reach_step
  have c1: "lw_count_down a ?w ?b = Inr ?b1"
    using count_down_Some [OF assms(6)] assms(7,8) by (simp add: lb_sizes)
  have c2: "lw_count_down a ?w ?b1 = Inr ?b2"
    using count_down_Some [of ?b1 a ?buf1] by (simp add: lb_sizes)
  have same: "?at LwIdle LwIdle b = lw_goto u LwIdle b s" for b
    using assms(1-3) by (cases s) (auto simp: lw_goto_def fun_eq_iff)
  have swap: "?at p q b = lw_goto t p b (lw_goto u q b s)" for p q b
    using assms(3) by (simp add: lw_goto_def fun_upd_twist)
  have "?at LwIdle LwIdle ?b = s"
    using assms(1-2) by (cases s) (auto simp: lw_goto_def fun_eq_iff)
  then have "lw_reach iter tsc s (?at LwIdle LwIdle ?b)" by (simp add: lw_reach.here)
  also have "lw_reach iter tsc (?at LwIdle LwIdle ?b) (?at (LwLoaded (Some a)) LwIdle ?b)"
    using lw_step.load [of "?at LwIdle LwIdle ?b" t iter tsc] assms(3,4)
    by (intro step) (simp add: swap)
  also have "lw_reach iter tsc \<dots> (?at (LwLoaded (Some a)) (LwLoaded (Some a)) ?b)"
    using lw_step.load [of "?at (LwLoaded (Some a)) LwIdle ?b" u iter tsc] assms(5)
    by (intro step) simp
  also have "lw_reach iter tsc \<dots> (?at LwSlow (LwLoaded (Some a)) ?b1)"
    using event_reach [of "?at (LwLoaded (Some a)) (LwLoaded (Some a)) ?b" t a 0 0 0 ?b1 ?buf1 iter tsc]
      c1 assms(3) by (simp add: lw_goto_def fun_upd_twist)
  finally have first: "lw_reach iter tsc s (?at LwSlow (LwLoaded (Some a)) ?b1)" .
  have "lw_reach iter tsc (?at LwSlow (LwLoaded (Some a)) ?b1) (?at LwSlow LwIdle ?b2)"
    using event_reach [of "?at LwSlow (LwLoaded (Some a)) ?b1" u a 0 0 0 ?b2 ?buf2 iter tsc] c2
    by (simp add: lw_goto_def)
  also have "lw_reach iter tsc \<dots> (?at (LwSlowBuf a) LwIdle ?b2)"
    using lw_step.reload [of "?at LwSlow LwIdle ?b2" t iter tsc] assms(3,4)
    by (intro step) (simp add: lw_goto_def fun_upd_twist)
  finally have between: "lw_reach iter tsc (?at LwSlow (LwLoaded (Some a)) ?b1) (?at (LwSlowBuf a) LwIdle ?b2)" .
  have "lw_reach iter tsc (?at (LwSlowBuf a) LwIdle ?b2) (?at LwIdle LwIdle ?b2)"
    using no_timestamp_reach [of "?at (LwSlowBuf a) LwIdle ?b2" t a ?buf2 iter tsc] assms(3)
    by (simp add: lw_goto_def fun_upd_twist)
  with first between assms(3) show ?thesis
    by (intro that [of "?at LwSlow (LwLoaded (Some a)) ?b1" ?buf1 "?at (LwSlowBuf a) LwIdle ?b2" ?buf2])
      (simp_all add: same)
qed

text \<open>After two epochs of the first thread, the second one is given its buffer.\<close>

lemma shared_reach:
  assumes "0 < d" and "d < 1000" and "iter {0} = [0]"
  shows "\<exists>s buf. lw_reach iter (steady d) init_lw_system s \<and> epochMutex s = None
    \<and> lw_pcs s = (\<lambda>_. LwNeed)(0 := LwIdle, 1 := LwIdle)
    \<and> lw_log_buffer (lw_bench s) 0 = Some 8 \<and> lw_log_buffer (lw_bench s) 1 = Some 8
    \<and> lw_heap (lw_bench s) 8 = Some buf \<and> stamped 0 buf"
proof -
  let ?tsc = "steady d" and ?es = "replicate 2048 (0, 0, 0) :: access list"
  obtain b0 where b0: "lw_allocBuffer 0 init_bench = Inr b0" "epoch_start 0 8 0 b0"
    using start_epoch_start [of 0] by (auto simp: Thread_start_def split: if_splits)
  let ?s0 = "lw_goto 0 LwIdle b0 init_lw_system"
  have start: "lw_reach iter ?tsc init_lw_system ?s0"
    using alloc_reach [of init_lw_system 0 b0 iter ?tsc] b0
    by (simp add: init_lw_system_def)
  obtain b1 where b1: "calls (lw_write8 iter ?tsc BODY_EPOCH 0) ?es b0 = Some (Inr b1)"
    "epoch_start 0 8 2 b1"
    using epochs [of 0 8 b0 d iter 2 ?es, OF b0(2) assms] by auto
  have log: "lw_reach iter ?tsc ?s0 (lw_goto 0 LwIdle b1 ?s0)"
    by (rule calls_reach [OF b1(1)]) (auto simp: init_lw_system_def)
  from b1(2) obtain buf where buf: "lw_heap b1 8 = Some buf" "stamped 0 buf" "lw_freeBufs b1 = [8]"
    "lw_log_buffer b1 0 = Some 8" by (auto simp: epoch_start_def)
  obtain tid b2 where "lw_tid 1 (b1\<lparr>lw_freeBufs := []\<rparr>) = (tid, b2)"
    by (cases "lw_tid 1 (b1\<lparr>lw_freeBufs := []\<rparr>)")
  moreover from this have b2: "lw_heap b2 = lw_heap b1" "lw_log_buffer b2 = lw_log_buffer b1"
    by (auto simp: lw_tid_def Let_def split: option.splits)
  ultimately obtain b3 where b3: "lw_allocBuffer 1 b1 = Inr b3"
    "lw_log_buffer b3 = (lw_log_buffer b1)(1 \<mapsto> 8)"
    "lw_heap b3 8 = Some (buf\<lparr>lb_tid := tid, lb_epoch := global_epoch b2\<rparr>)"
    using buf by (simp add: lw_allocBuffer_def lw_take_buffer_def)
  let ?s3 = "lw_goto 1 LwIdle b3 (lw_goto 0 LwIdle b1 init_lw_system)"
  have "lw_reach iter ?tsc (lw_goto 0 LwIdle b1 ?s0) ?s3"
    using alloc_reach [of "lw_goto 0 LwIdle b1 ?s0" 1 b3 iter ?tsc] b3(1)
    by (simp add: init_lw_system_def)
  with start log have "lw_reach iter ?tsc init_lw_system ?s3" by (blast intro: lw_reach_trans)
  moreover have "stamped 0 (buf\<lparr>lb_tid := tid, lb_epoch := global_epoch b2\<rparr>)"
    using buf(2) by (simp add: stamped_def)
  ultimately show ?thesis
    using b3(2,3) buf(4) by (intro exI [of _ ?s3] exI [of _ "buf\<lparr>lb_tid := tid, lb_epoch := global_epoch b2\<rparr>"])
      (simp add: init_lw_system_def)
qed

text \<open>
  Two threads that read the same count store at the same slot: the countdown has seen two events, the
  buffer holds one.
\<close>

lemma same_slot_reach:
  assumes "lw_pcs s t = LwIdle" and "lw_pcs s u = LwIdle" and "t \<noteq> u"
    and "lw_log_buffer (lw_bench s) t = Some a" and "lw_log_buffer (lw_bench s) u = Some a"
    and "lw_heap (lw_bench s) a = Some buf" and "lb_events buf = 0" and "lb_eventsToRdtsc buf = 128"
  shows "\<exists>buf'. lw_reach iter tsc s (lw_goto t LwIdle (lw_store a buf' (lw_bench s)) s)
    \<and> lb_events buf' = 1 \<and> lb_eventsToRdtsc buf' = 126"
proof -
  let ?b = "lw_bench s" and ?w = "encode_bench 0 0 0"
  let ?s1 = "lw_goto t (LwLoaded (Some a)) ?b s" and ?s2 = "lw_goto t (LwAppend a ?w AccessEntry) ?b s"
    and ?s3 = "lw_goto t (LwBump a ?w AccessEntry 0) ?b s"
  let ?buf1 = "buf\<lparr>lb_buf := (lb_buf buf)(0 \<mapsto> ?w), lb_events := 1, lb_eventsToRdtsc := 127\<rparr>"
  let ?b1 = "lw_store a ?buf1 ?b"
  let ?s4 = "lw_goto u LwIdle ?b1 ?s3"
  let ?buf2 = "buf\<lparr>lb_buf := (lb_buf buf)(0 \<mapsto> ?w), lb_events := 1, lb_eventsToRdtsc := 126\<rparr>"
  have "lw_reach iter tsc s ?s1"
    using lw_step.load [OF assms(1), of iter tsc] assms(4) by (auto intro: lw_reach_step)
  also have "lw_reach iter tsc ?s1 ?s2"
    using lw_step.event [of ?s1 t a iter tsc 0 0 0] by (auto intro: lw_reach_step)
  finally have "lw_reach iter tsc s ?s3"
    by (rule access_reach [rotated]) (simp add: field_Inr assms(6,7))
  also have "lw_reach iter tsc ?s3 (lw_goto u (LwLoaded (Some a)) ?b ?s3)"
    using lw_step.load [of ?s3 u iter tsc] assms(2,3,5) by (auto intro: lw_reach_step)
  also have "lw_reach iter tsc \<dots> ?s4"
    using event_reach [of "lw_goto u (LwLoaded (Some a)) ?b ?s3" u a 0 0 0 ?b1 ?buf1 iter tsc]
      count_down_Some [OF assms(6), of ?w] assms(7,8) by (simp add: lb_sizes)
  finally have "lw_reach iter tsc s ?s4" .
  moreover have "lw_goto t pc b ?s4 = lw_goto t pc b s" for pc b
    using assms(2,3) by (auto simp: lw_goto_def fun_eq_iff)
  moreover have "?s4 = lw_goto t (LwBump a ?w AccessEntry 0) ?b1 s"
    using assms(2,3) by (auto simp: lw_goto_def fun_eq_iff)
  ultimately have "lw_reach iter tsc s (lw_goto t (LwBump a ?w AccessEntry 0) ?b1 s)" by simp
  then have "lw_reach iter tsc s (lw_goto t (LwPut a ?w AccessEntry 0) ?b1 s)"
    by (rule access_reach [rotated]) (cases buf; simp add: assign_Inr int_add_def)
  then have "lw_reach iter tsc s (lw_goto t (LwCount a) ?b1 s)"
    by (rule access_reach [rotated]) (cases buf; simp add: assign_Inr lb_sizes)
  then have "lw_reach iter tsc s (lw_goto t (LwDecrement a 127) ?b1 s)"
    by (rule access_reach [rotated]) (simp add: field_Inr)
  then have "lw_reach iter tsc s (lw_goto t (LwCounted a) (lw_store a ?buf2 ?b) s)"
    by (rule access_reach [rotated]) (simp add: assign_Inr int_add_def)
  then have "lw_reach iter tsc s (lw_goto t LwIdle (lw_store a ?buf2 ?b) s)"
    by (rule access_reach [rotated]) (simp add: field_Inr)
  then show ?thesis by (intro exI [of _ ?buf2]) simp
qed

text \<open>
  Two threads that have been given one buffer can lose an event without any error: both have logged, and
  the buffer counts one event.
\<close>

theorem shared_buffer_loses_event:
  assumes "0 < d" and "d < 1000" and "iter {0} = [0]"
  shows "\<exists>s s' buf buf'. lw_reach iter (steady d) init_lw_system s \<and> lw_reach iter (steady d) s s'
    \<and> (\<forall>t \<in> {0, 1}. lw_pcs s t = LwIdle \<and> lw_pcs s' t = LwIdle \<and> lw_log_buffer (lw_bench s) t = Some 8)
    \<and> lw_heap (lw_bench s) 8 = Some buf \<and> lb_events buf = 0 \<and> lb_eventsToRdtsc buf = 128
    \<and> lw_heap (lw_bench s') 8 = Some buf' \<and> lb_events buf' = 1 \<and> lb_eventsToRdtsc buf' = 126"
proof -
  obtain s buf where s: "lw_reach iter (steady d) init_lw_system s" "epochMutex s = None"
    "lw_pcs s = (\<lambda>_. LwNeed)(0 := LwIdle, 1 := LwIdle)"
    "lw_log_buffer (lw_bench s) 0 = Some 8" "lw_log_buffer (lw_bench s) 1 = Some 8"
    "lw_heap (lw_bench s) 8 = Some buf" "stamped 0 buf"
    using shared_reach [of d iter, OF assms] by blast
  have buf: "lb_events buf = 0" "lb_eventsToRdtsc buf = 128"
    using s(7) by (simp_all add: stamped_def stamped_pos_def stamped_left_def)
  obtain buf' where "lw_reach iter (steady d) s (lw_goto 0 LwIdle (lw_store 8 buf' (lw_bench s)) s)"
    "lb_events buf' = 1" "lb_eventsToRdtsc buf' = 126"
    using same_slot_reach [of s 0 1 8 buf iter "steady d"] s(3-6) buf by auto
  with s buf show ?thesis
    by (intro exI [of _ s] exI [of _ "lw_goto 0 LwIdle (lw_store 8 buf' (lw_bench s)) s"]
        exI [of _ buf] exI [of _ buf']) simp
qed

lemma out_of_bounds_reach:
  assumes "0 < d" and "d < 1000" and "iter {0} = [0]"
  obtains s0 s1 s2 s3 buf1 buf2 buf3 w where "lw_reach iter (steady d) init_lw_system s0"
    "lw_log_buffer (lw_bench s0) 0 = Some 8" "lw_log_buffer (lw_bench s0) 1 = Some 8"
    "lw_reach iter (steady d) s0 s1" "lw_pcs s1 0 = LwSlow" "lw_pcs s1 1 = LwLoaded (Some 8)"
    "lw_heap (lw_bench s1) 8 = Some buf1" "lb_eventsToRdtsc buf1 = 0"
    "lw_reach iter (steady d) s1 s2" "lw_pcs s2 0 = LwSlowBuf 8"
    "lw_heap (lw_bench s2) 8 = Some buf2" "lb_eventsToRdtsc buf2 = -1"
    "lw_reach iter (steady d) s2 s3" "lw_pcs s3 1 = LwPut 8 w AccessEntry LB_LEN"
    "lw_log_buffer (lw_bench s3) 1 = Some 8" "lw_heap (lw_bench s3) 8 = Some buf3"
    "lb_events buf3 = LB_LEN + 1" "lb_eventsToRdtsc buf3 < 0"
    "lw_step iter (steady d) 1 s3 (Inl OutOfBounds)"
proof -
  let ?tsc = "steady d"
  obtain s buf where s: "lw_reach iter ?tsc init_lw_system s" "epochMutex s = None"
    "lw_pcs s = (\<lambda>_. LwNeed)(0 := LwIdle, 1 := LwIdle)"
    "lw_log_buffer (lw_bench s) 0 = Some 8" "lw_log_buffer (lw_bench s) 1 = Some 8"
    "lw_heap (lw_bench s) 8 = Some buf" "stamped 0 buf"
    using shared_reach [of d iter, OF assms] by blast
  obtain buf1 where
    buf1: "calls (lw_write8 iter ?tsc BODY_EPOCH 0) (replicate 127 (0, 0, 0)) (lw_bench s)
      = Some (Inr (lw_store 8 buf1 (lw_bench s)))" "stamped 127 buf1"
    using epoch_calls [OF s(4,6,7), of "replicate 127 (0, 0, 0)" iter ?tsc] by auto
  let ?s1 = "lw_goto 0 LwIdle (lw_store 8 buf1 (lw_bench s)) s"
  have fill: "lw_reach iter ?tsc s ?s1"
    by (rule calls_reach [OF buf1(1)]) (use s(2,3) in \<open>auto split: if_splits\<close>)
  have "lw_pcs ?s1 0 = LwIdle" "lw_pcs ?s1 1 = LwIdle" "(0 :: nat) \<noteq> 1"
    "lw_log_buffer (lw_bench ?s1) 0 = Some 8" "lw_log_buffer (lw_bench ?s1) 1 = Some 8"
    "lw_heap (lw_bench ?s1) 8 = Some buf1" "lb_events buf1 = 127" "lb_eventsToRdtsc buf1 = 1"
    using s(3-5) buf1(2) by (simp_all add: stamped_def stamped_pos_def stamped_left_def)
  then obtain r1 r2 c1 c2 where mid: "lw_reach iter ?tsc ?s1 r1"
    "lw_pcs r1 0 = LwSlow" "lw_pcs r1 1 = LwLoaded (Some 8)"
    "lw_heap (lw_bench r1) 8 = Some c1" "lb_eventsToRdtsc c1 = 0"
    "lw_reach iter ?tsc r1 r2" "lw_pcs r2 0 = LwSlowBuf 8"
    "lw_heap (lw_bench r2) 8 = Some c2" "lb_events c2 = 129" "lb_eventsToRdtsc c2 = -1"
    "lw_reach iter ?tsc r2 (lw_goto 1 LwIdle (lw_store 8 c2 (lw_bench ?s1)) ?s1)"
    by (rule missed_zero_reach)
  let ?s2 = "lw_goto 1 LwIdle (lw_store 8 c2 (lw_bench ?s1)) ?s1"
  obtain s' w buf' where s': "lw_reach iter ?tsc ?s2 s'" "lw_pcs s' 1 = LwPut 8 w AccessEntry LB_LEN"
    "lw_log_buffer (lw_bench s') 1 = Some 8" "lw_heap (lw_bench s') 8 = Some buf'"
    "lb_events buf' = LB_LEN + 1" "lb_eventsToRdtsc buf' < 0" "lw_step iter ?tsc 1 s' (Inl OutOfBounds)"
    using runaway_error [of ?s2 1 8 c2 iter ?tsc] s(5) mid(9,10) by (auto simp: lb_sizes)
  show ?thesis
    by (rule that [OF s(1,4,5) lw_reach_trans [OF fill mid(1)] mid(2-8,10)
          lw_reach_trans [OF mid(11) s'(1)] s'(2-7)])
qed

section \<open>Properties\<close>

text \<open>
  C32: where \<open>__tsan_write8\<close> with epochs returns, its effect as a whole is one of the interleavings: a
  run of steps of the calling thread that starts between two calls and ends there.
\<close>

theorem write8_run_of_steps:
  assumes "lw_write8 iter tsc BODY_EPOCH t e (lw_bench s) = Some (Inr b')"
    and "lw_pcs s t = LwIdle" and "epochMutex s = None"
    and "\<forall>u \<in> threadLocalBufs (lw_bench s). lw_pcs s u \<noteq> LwExited"
  shows "lw_reach iter tsc s (lw_goto t LwIdle b' s)"
  using assms by (intro write8_reach) (simp_all add: registered_live_Inr_iff)

theorem write8_run_of_steps_witness:
  "\<exists>s b'. lw_reach sorted_list_of_set (steady 40) init_lw_system s
     \<and> lw_write8 sorted_list_of_set (steady 40) BODY_EPOCH 0 (1, 2, 3) (lw_bench s) = Some (Inr b')
     \<and> lw_reach sorted_list_of_set (steady 40) s (lw_goto 0 LwIdle b' s)"
proof -
  let ?iter = "sorted_list_of_set" and ?tsc = "steady 40"
  obtain s buf0 where s: "lw_reach ?iter ?tsc init_lw_system s" "lw_two_threads LwIdle LwIdle 0 s"
    "lw_heap (lw_bench s) 8 = Some buf0" "stamped 0 buf0" using two_started by blast
  note pcs = lw_two_threads_pcs [OF s(2)]
  obtain b' where b': "lw_write8 ?iter ?tsc BODY_EPOCH 0 (1, 2, 3) (lw_bench s) = Some (Inr b')"
    using epoch_body_call [OF pcs(4) s(3,4)] by fastforce
  have "\<forall>u \<in> threadLocalBufs (lw_bench s). lw_pcs s u \<noteq> LwExited"
    using lw_two_threads_live [OF s(2)] by simp
  from write8_run_of_steps [OF b' pcs(1,3) this] s(1) b' show ?thesis by blast
qed

text \<open>
  C33: what can go wrong in a reachable state. No thread ever follows a null pointer or one that is not
  a buffer, in \<open>endEpoch\<close>, in \<open>allocBuffer\<close> or while it logs. An error is an \<open>int\<close> that overflows,
  or a store past the last slot of a buffer (never in front of the first) by a thread that has read its
  count so far, or the coordinator's access to the pointer of a thread that has returned.
\<close>

theorem bench_step_errors:
  assumes "lw_reach iter tsc init_lw_system s" and "lw_step iter tsc t s (Inl e)"
    and "\<And>T. set (iter T) \<subseteq> T"
  shows "e = SignedOverflow
    \<or> e = OutOfBounds \<and> (\<exists>a w k i. lw_pcs s t = LwPut a w k i \<and> LB_LEN \<le> i)
    \<or> e = UseAfterFree \<and> (\<exists>u \<in> threadLocalBufs (lw_bench s). lw_pcs s u = LwExited)"
  by (rule lw_step_error [OF assms(2) lw_reach_invariant [OF assms(1) lw_invariant_init assms(3)]
        lw_reach_positions [OF assms(1) lw_positions_init]])

lemma sorted_list_subset: "set (sorted_list_of_set T) \<subseteq> T"
  by (cases "finite T") simp_all

theorem bench_step_errors_witness:
  "\<exists>s t a w k i. lw_reach sorted_list_of_set (steady 40) init_lw_system s
     \<and> lw_pcs s t = LwPut a w k i \<and> LB_LEN \<le> i"
proof -
  obtain s t where s: "lw_reach sorted_list_of_set (steady 40) init_lw_system s"
    "lw_step sorted_list_of_set (steady 40) t s (Inl OutOfBounds)"
    by (rule out_of_bounds_reach [of 40 sorted_list_of_set]) (simp, simp, simp, blast intro: lw_reach_trans)
  from bench_step_errors [OF s sorted_list_subset] s(1) show ?thesis by blast
qed

text \<open>
  C35: such a store happens: threads 0 and 1 have been given buffer 8. Thread 0 finds the countdown at 0
  and enters the slow path; before it tests the countdown again, thread 1, which is in a call, logs its
  event and takes the countdown to -1. So thread 0 takes no timestamp and does not test for a full buffer,
  the countdown never gets to 0 again, and thread 1 counts past \<open>MAX_EVENTS\<close> up to a store past the end of
  \<open>buf\<close>.
\<close>

theorem store_past_buffer_reachable:
  assumes "0 < d" and "d < 1000" and "iter {0} = [0]"
  shows "\<exists>s0 s1 s2 s3 buf1 buf2 buf3 w. lw_reach iter (steady d) init_lw_system s0
    \<and> lw_log_buffer (lw_bench s0) 0 = Some 8 \<and> lw_log_buffer (lw_bench s0) 1 = Some 8
    \<and> lw_reach iter (steady d) s0 s1 \<and> lw_pcs s1 0 = LwSlow \<and> lw_pcs s1 1 = LwLoaded (Some 8)
    \<and> lw_heap (lw_bench s1) 8 = Some buf1 \<and> lb_eventsToRdtsc buf1 = 0
    \<and> lw_reach iter (steady d) s1 s2 \<and> lw_pcs s2 0 = LwSlowBuf 8
    \<and> lw_heap (lw_bench s2) 8 = Some buf2 \<and> lb_eventsToRdtsc buf2 = -1
    \<and> lw_access (steady d) (lw_pcs s2 0) (lw_bench s2) = Some (Inr (LwIdle, lw_bench s2))
    \<and> lw_reach iter (steady d) s2 s3 \<and> lw_pcs s3 1 = LwPut 8 w AccessEntry LB_LEN
    \<and> lw_log_buffer (lw_bench s3) 1 = Some 8 \<and> lw_heap (lw_bench s3) 8 = Some buf3
    \<and> LB_MAX_EVENTS < lb_events buf3 \<and> lb_eventsToRdtsc buf3 < 0
    \<and> lw_step iter (steady d) 1 s3 (Inl OutOfBounds)"
  by (rule out_of_bounds_reach [of d iter, OF assms])
    (intro exI conjI, (assumption | simp add: lw_field_def lb_sizes)+)

theorem store_past_buffer_reachable_witness:
  "\<exists>s. lw_reach sorted_list_of_set (steady 40) init_lw_system s
     \<and> lw_step sorted_list_of_set (steady 40) 1 s (Inl OutOfBounds)"
  using store_past_buffer_reachable [of 40 sorted_list_of_set] by (auto intro: lw_reach_trans)

text \<open>
  C36: and the other one happens: \<open>Thread\<close> never calls \<open>threadExit\<close>, so that the pointer of a thread
  that has returned stays registered, and the coordinator of the next epoch reads it.
\<close>

theorem freed_pointer_reachable:
  "\<exists>s. lw_reach iter tsc init_lw_system s \<and> lw_step iter tsc 0 s (Inl UseAfterFree)"
proof -
  obtain s where s: "lw_reach iter tsc init_lw_system s" "lw_two_threads LwEnd LwExited 1 s"
    using exited_registered by blast
  then have "registered_live s = Inl UseAfterFree"
    by (auto simp: registered_live_Inl_iff lw_two_threads_def)
  with lw_step.collect [OF lw_two_threads_pcs(1,3) [OF s(2)], of iter tsc] s(1) show ?thesis by auto
qed

text \<open>
  C34: a thread that finds its full buffer's epoch already advanced asks for a new buffer at once. If it
  gets there before the coordinator has locked the manager, its full buffer is neither among those that
  the coordinator collects nor in the pool: from then on nobody knows it, and its events are lost.
\<close>

theorem losing_thread_abandons_buffer:
  assumes "lw_reach iter tsc init_lw_system s" and "\<And>T. set (iter T) \<subseteq> T"
    and "epochMutex s = None" and "lw_pcs s t = LwFull a" and "lw_heap (lw_bench s) a = Some buf"
    and "lb_epoch buf \<noteq> global_epoch (lw_bench s)" and "INT_MIN \<le> lb_epoch buf" and "lb_epoch buf < INT_MAX"
    and "a \<notin> set (lw_freeBufs (lw_bench s))" and "Some a \<notin> set (bufsInUse (lw_bench s))"
    and "\<And>u. u \<noteq> t \<Longrightarrow> lw_log_buffer (lw_bench s) u \<noteq> Some a \<and> pc_buf (lw_pcs s u) \<noteq> Some a"
  shows "\<exists>s'. lw_reach iter tsc s s' \<and> lw_pcs s' t = LwIdle
    \<and> (\<forall>s''. lw_reach iter tsc s' s'' \<longrightarrow> a \<notin> lw_known s'')"
  using losing_thread [OF lw_reach_invariant [OF assms(1) lw_invariant_init assms(2)] assms(3-11), of iter tsc]
    lw_reach_unknown by blast

theorem losing_thread_abandons_buffer_witness:
  "\<exists>s buf s'. lw_reach sorted_list_of_set (steady 40) init_lw_system s
     \<and> lw_heap (lw_bench s) 9 = Some buf \<and> lb_events buf = 1032
     \<and> lw_reach sorted_list_of_set (steady 40) s s' \<and> lw_pcs s' 1 = LwIdle
     \<and> (\<forall>s''. lw_reach sorted_list_of_set (steady 40) s' s'' \<longrightarrow> 9 \<notin> lw_known s'')"
proof -
  obtain s buf where s: "lw_reach sorted_list_of_set (steady 40) init_lw_system s"
    "lw_two_threads LwEnd (LwFull 9) 1 s"
    "lw_heap (lw_bench s) 9 = Some buf" "lb_events buf = 1032" "lb_epoch buf = 0"
    using one_elected by blast
  note pcs = lw_two_threads_pcs [OF s(2)]
  have others: "lw_log_buffer (lw_bench s) u \<noteq> Some 9 \<and> pc_buf (lw_pcs s u) \<noteq> Some 9" if "u \<noteq> 1" for u
    using s(2) that by (auto simp: lw_two_threads_def split: if_splits)
  have "lb_epoch buf \<noteq> global_epoch (lw_bench s)" "INT_MIN \<le> lb_epoch buf" "lb_epoch buf < INT_MAX"
    "9 \<notin> set (lw_freeBufs (lw_bench s))" "Some 9 \<notin> set (bufsInUse (lw_bench s))"
    using s(2,5) by (simp_all add: lw_two_threads_def)
  from losing_thread_abandons_buffer [OF s(1) sorted_list_subset pcs(3,2) s(3) this others] s(1,3,4)
  show ?thesis by blast
qed

end
