(* ===== verification/MainSteps.thy ===== *)
theory MainSteps
  imports MainProgram
begin

text \<open>
  The thread body of \<open>Main.cc\<close> in steps: a step is one call of the log function, one store into the
  array, or the work before or behind a loop. Without interruption the steps are the body.
  A schedule names the threads in the order in which they take a step.
\<close>

section \<open>The loops in steps\<close>

text \<open>
  What a \<open>run_\<close> function keeps in local variables during its loop: nothing, the buffer and the
  position in it (\<open>run_log_addr_direct\<close>), or an \<open>EventBuffer::Ref\<close>.
\<close>

datatype kept = NoLocals | Position nat int | Cached Ref

text \<open>The operations for which \<open>run\<close> has a case.\<close>

definition has_loop :: "LogOp \<Rightarrow> bool" where
  "has_loop op \<longleftrightarrow> op \<notin> {LOG_TIMESTAMP, INVALID_OP} \<and> (\<forall>n. op \<noteq> OTHER_OP n)"

text \<open>The source line of the call, which is passed as the program counter.\<close>

fun call_line :: "LogOp \<Rightarrow> u64" where
  "call_line FUNC_CALL = 158"
| "call_line LOG_ADDR = 202"
| "call_line LOG_DIRECT_LOAD = 232"
| "call_line PREFETCH_LOG_ENTRY = 292"
| "call_line VOLATILE_BUF_PTR = 318"
| "call_line CACHED_BUF_PTR = 367"
| "call_line LOG_HEADER = 394"
| "call_line LOG_VALUE = 420"
| "call_line LOG_SRC_LOC = 449"
| "call_line LOG_FULL = 502"
| "call_line LOG_FULL_128 = 533"
| "call_line LOG_FULL_NAIVE = 557"
| "call_line BUFFER_MANAGER = 613"
| "call_line GLOBAL_COUNTER = 642"
| "call_line _ = 0"

definition op_enter :: "LogOp \<Rightarrow> nat \<Rightarrow> nat \<Rightarrow> process \<Rightarrow> (kept \<times> process) result" where
  "op_enter op this t p =
     (if op = LOG_DIRECT_LOAD then
        and_then (not_null (getLogBuffer t p)) (\<lambda>a.
        and_then (load_buf a p) (\<lambda>b. Inr (Position a (eb_events b), p)))
      else if op \<in> {CACHED_BUF_PTR, LOG_FULL, LOG_FULL_128, BUFFER_MANAGER} then
        and_then (getLogBufferRef this t p) (\<lambda>(bufRef, p1). Inr (Cached bufRef, p1))
      else Inr (NoLocals, p))"

definition plain_call :: "LogOp \<Rightarrow> nat \<Rightarrow> access \<Rightarrow> process \<Rightarrow> process result" where
  "plain_call op t = (\<lambda>(pc, addr, val).
     case op of
       LOG_ADDR \<Rightarrow> tsan_write8_log_addr t pc addr val
     | PREFETCH_LOG_ENTRY \<Rightarrow> tsan_write8_prefetch_log_entries t pc addr val
     | VOLATILE_BUF_PTR \<Rightarrow> tsan_write8_volatile_bufptr t pc addr val
     | LOG_HEADER \<Rightarrow> tsan_write8_log_header t pc addr val
     | LOG_VALUE \<Rightarrow> tsan_write8_log_value t pc addr val
     | LOG_SRC_LOC \<Rightarrow> tsan_write8_log_src_loc t pc addr val
     | LOG_FULL_NAIVE \<Rightarrow> tsan_write8_log_full_naive t pc addr val
     | GLOBAL_COUNTER \<Rightarrow> tsan_write8_global_counter t pc addr val
     | FUNC_CALL \<Rightarrow> tsan_write8_func pc addr val
     | _ \<Rightarrow> Inr)"

definition ref_call :: "LogOp \<Rightarrow> nat \<Rightarrow> nat \<Rightarrow> access \<Rightarrow> ref_state \<Rightarrow> ref_state result" where
  "ref_call op this t = (\<lambda>(pc, addr, val).
     case op of
       CACHED_BUF_PTR \<Rightarrow> tsan_write8_cached_bufptr this t pc addr val
     | LOG_FULL \<Rightarrow> tsan_write8_log_full this t pc addr val
     | LOG_FULL_128 \<Rightarrow> tsan_write8_log_full_128 this t pc addr val
     | _ \<Rightarrow> tsan_write8_buf_manager this t pc addr val)"

definition op_call :: "LogOp \<Rightarrow> nat \<Rightarrow> nat \<Rightarrow> access \<Rightarrow> kept \<times> process \<Rightarrow> (kept \<times> process) result" where
  "op_call op this t e = (\<lambda>(k, p).
     case k of
       NoLocals \<Rightarrow> and_then (plain_call op t e p) (\<lambda>p1. Inr (NoLocals, p1))
     | Position a n \<Rightarrow>
         and_then (case e of (pc, addr, val) \<Rightarrow> tsan_write8_log_addr_direct a pc addr val (n, p)) (\<lambda>(n1, p1).
         Inr (Position a n1, p1))
     | Cached ref \<Rightarrow>
         and_then (ref_call op this t e (ref, p)) (\<lambda>(ref1, p1). Inr (Cached ref1, p1)))"

definition op_leave :: "nat \<Rightarrow> kept \<Rightarrow> process \<Rightarrow> process result" where
  "op_leave t k p =
     (case k of
        NoLocals \<Rightarrow> Inr p
      | Position a n \<Rightarrow> and_then (not_null (getLogBuffer t p)) (\<lambda>a1. set_events a1 n p)
      | Cached ref \<Rightarrow> destroy_Ref ref p)"

section \<open>Threads in steps\<close>

text \<open>
  \<open>Outer i\<close>: between two calls of \<open>run\<close>, \<open>i\<close> of which are done. \<open>Inner i j k\<close>: in the loop, before its
  \<open>j\<close>-th call. \<open>Stores i j k\<close>: before its \<open>j\<close>-th store.
\<close>

datatype bench_pc = Begin | Outer nat | Inner nat nat kept | Stores nat nat kept | Done

record main_state =
  ms_array :: int64_array
  ms_proc :: process
  ms_pc :: "nat \<Rightarrow> bench_pc"

definition main_start :: "int64_array \<Rightarrow> process \<Rightarrow> main_state" where
  "main_start arr p = \<lparr>ms_array = arr, ms_proc = p, ms_pc = (\<lambda>_. Begin)\<rparr>"

definition moved :: "nat \<Rightarrow> bench_pc \<Rightarrow> int64_array \<Rightarrow> process \<Rightarrow> main_state \<Rightarrow> main_state" where
  "moved t pc arr p st = \<lparr>ms_array = arr, ms_proc = p, ms_pc = (ms_pc st)(t := pc)\<rparr>"

lemma moved_simps [simp]:
  "ms_array (moved t pc arr p st) = arr" "ms_proc (moved t pc arr p st) = p"
  "ms_pc (moved t pc arr p st) = (ms_pc st)(t := pc)"
  by (simp_all add: moved_def)

definition thread_step ::
  "nat \<Rightarrow> LogOp \<Rightarrow> int \<Rightarrow> nat \<times> int \<Rightarrow> main_state \<Rightarrow> main_state result" where
  "thread_step iterations op len = (\<lambda>(t, off) st.
     let arr = ms_array st; p = ms_proc st; this = buf_manager_of True t in
     case ms_pc st t of
       Begin \<Rightarrow>
         Inr (moved t (Outer 0) arr
                (if op < BUFFER_MANAGER then own_buffer t p else p) st)
     | Outer i \<Rightarrow>
         if iterations \<le> i then Inr (moved t Done arr p st)
         else if has_loop op then
           and_then (op_enter op this t p) (\<lambda>(k, p1). Inr (moved t (Inner i 0 k) arr p1 st))
         else Inr (moved t (Outer (Suc i)) arr p st)
     | Inner i j k \<Rightarrow>
         if int j < len then
           and_then (op_call op this t
                       (call_line op, elem_addr arr (nat off + j), of_nat j) (k, p)) (\<lambda>(k1, p1).
           Inr (moved t (Stores i j k1) arr p1 st))
         else and_then (op_leave t k p) (\<lambda>p1. Inr (moved t (Outer (Suc i)) arr p1 st))
     | Stores i j k \<Rightarrow>
         and_then (store_elem (nat off + j) (of_nat j) arr) (\<lambda>arr1.
         Inr (moved t (Inner i (Suc j) k) arr1 p st))
     | Done \<Rightarrow> Inr st)"

fun run_schedule ::
  "nat \<Rightarrow> LogOp \<Rightarrow> int \<Rightarrow> (nat \<times> int) list \<Rightarrow> main_state \<Rightarrow> main_state result" where
  "run_schedule iterations op len [] st = Inr st"
| "run_schedule iterations op len (x # xs) st =
     and_then (thread_step iterations op len x st) (run_schedule iterations op len xs)"

section \<open>The steps are those of the loops\<close>

definition iterate ::
  "LogOp \<Rightarrow> nat \<Rightarrow> nat \<Rightarrow> nat \<Rightarrow> nat \<Rightarrow> int64_array \<times> (kept \<times> process)
     \<Rightarrow> (int64_array \<times> (kept \<times> process)) result" where
  "iterate op this t off = logged_store (op_call op this t) (call_line op) off"

text \<open>A loop whose log function works on a part of the state.\<close>

lemma logged_store_part:
  assumes "\<And>e s. log' e (emb s) = and_then (log e s) (\<lambda>s1. Inr (emb s1))"
  shows "logged_store log' line off i (arr, emb s)
    = and_then (logged_store log line off i (arr, s)) (\<lambda>(arr1, s1). Inr (arr1, emb s1))"
  by (cases "log (line, elem_addr arr (off + i), of_nat i) s";
      cases "store_elem (off + i) (of_nat i) arr") (simp_all add: logged_store_def assms)

lemma logged_loop_part:
  assumes "\<And>e s. log' e (emb s) = and_then (log e s) (\<lambda>s1. Inr (emb s1))"
  shows "for_loop (logged_store log' line off) i n (arr, emb s)
    = and_then (for_loop (logged_store log line off) i n (arr, s)) (\<lambda>(arr1, s1). Inr (arr1, emb s1))"
proof (induction n arbitrary: i arr s)
  case 0
  then show ?case by simp
next
  case (Suc n)
  show ?case
    by (cases "logged_store log line off i (arr, s)")
      (auto simp: logged_store_part [of log' emb log, OF assms] Suc.IH)
qed

lemma plain_loop:
  "for_loop (iterate op this t off) i n (arr, (NoLocals, p))
   = and_then (for_loop (logged_store (plain_call op t) (call_line op) off) i n (arr, p)) (\<lambda>(arr1, p1).
     Inr (arr1, (NoLocals, p1)))"
  unfolding iterate_def by (rule logged_loop_part) (simp add: op_call_def)

lemma direct_loop:
  "for_loop (iterate op this t off) i n (arr, (Position a m, p))
   = and_then (for_loop (logged_store (\<lambda>(pc, addr, val). tsan_write8_log_addr_direct a pc addr val)
       (call_line op) off) i n (arr, (m, p))) (\<lambda>(arr1, (m1, p1)). Inr (arr1, (Position a m1, p1)))"
  unfolding iterate_def
  using logged_loop_part [of "op_call op this t" "\<lambda>s. (Position a (fst s), snd s)"
      "\<lambda>(pc, addr, val). tsan_write8_log_addr_direct a pc addr val" "call_line op" off i n arr "(m, p)"]
  by (simp add: op_call_def case_prod_unfold)

lemma ref_loop:
  "for_loop (iterate op this t off) i n (arr, (Cached ref, p))
   = and_then (for_loop (logged_store (ref_call op this t) (call_line op) off) i n (arr, (ref, p)))
       (\<lambda>(arr1, (ref1, p1)). Inr (arr1, (Cached ref1, p1)))"
  unfolding iterate_def
  using logged_loop_part [of "op_call op this t" "\<lambda>s. (Cached (fst s), snd s)" "ref_call op this t"
      "call_line op" off i n arr "(ref, p)"]
  by (simp add: op_call_def case_prod_unfold)

lemma uninstrumented_loop:
  assumes "log = (\<lambda>_. Inr)"
  shows "for_loop (logged_store log line off) i n (arr, p)
    = and_then (for_loop (\<lambda>i. store_elem (off + i) (of_nat i)) i n arr) (\<lambda>arr1. Inr (arr1, p))"
proof (induction n arbitrary: i arr)
  case 0
  then show ?case by simp
next
  case (Suc n)
  have "logged_store log line off i (arr, p)
      = and_then (store_elem (off + i) (of_nat i) arr) (\<lambda>arr1. Inr (arr1, p))"
    by (simp add: logged_store_def assms)
  then show ?case by (cases "store_elem (off + i) (of_nat i) arr") (simp_all add: Suc.IH)
qed

theorem run_in_steps:
  assumes "has_loop op"
  shows "run this t op off len (arr, p) =
    and_then (op_enter op this t p) (\<lambda>kp.
    and_then (for_loop (iterate op this t off) 0 (nat len) (arr, kp)) (\<lambda>(arr1, (k1, p1)).
    and_then (op_leave t k1 p1) (\<lambda>p2. Inr (arr1, p2))))"
proof -
  note loops = plain_loop direct_loop ref_loop
  have noop: "plain_call op t = (\<lambda>_. Inr)" if "op = NO_OP \<or> op = NO_SSE"
    using that by (auto simp: plain_call_def fun_eq_iff)
  have through: "and_then r (\<lambda>x. Inr (fst x, snd x)) = r" for r :: "(int64_array \<times> process) result"
    by (cases r) auto
  show ?thesis
  proof (cases "op = NO_OP \<or> op = NO_SSE")
    case True
    have "run this t op off len (arr, p)
        = and_then (for_loop (\<lambda>i. store_elem (off + i) (of_nat i)) 0 (nat len) arr) (\<lambda>arr1. Inr (arr1, p))"
      using True by (auto simp: run_def lift_array_def run_noop_def run_no_sse_def)
    moreover have "op_enter op this t p = Inr (NoLocals, p)" using True by (auto simp: op_enter_def)
    ultimately show ?thesis
      by (cases "for_loop (\<lambda>i. store_elem (off + i) (of_nat i)) 0 (nat len) arr")
        (simp_all add: plain_loop uninstrumented_loop [OF noop [OF True]] op_leave_def)
  next
    case False
    then show ?thesis
      using assms
      by (cases op) (simp_all add: has_loop_def run_def run_defs run_func_def run_log_addr_direct_def
        run_buf_manager_def logged_loop_def with_Ref_def op_enter_def op_leave_def loops plain_call_def
        ref_call_def through and_then_assoc case_prod_unfold)
  qed
qed

text \<open>A thread on its own, from the start of its body to the end.\<close>

lemma moved_moved [simp]: "moved t pc arr p (moved t pc' arr' p' st) = moved t pc arr p st"
  by (simp add: moved_def)

lemma run_schedule_append:
  "run_schedule iterations op len (xs @ ys) st
   = and_then (run_schedule iterations op len xs st) (run_schedule iterations op len ys)"
proof (induction xs arbitrary: st)
  case (Cons x xs)
  show ?case by (cases "thread_step iterations op len x st") (simp_all add: Cons.IH)
qed simp

lemma run_schedule_single [simp]: "run_schedule iterations op len [x] = thread_step iterations op len x"
proof
  fix st
  show "run_schedule iterations op len [x] st = thread_step iterations op len x st"
    by (cases "thread_step iterations op len x st") simp_all
qed

abbreviation alone :: "nat \<Rightarrow> LogOp \<Rightarrow> int \<Rightarrow> nat \<Rightarrow> int \<Rightarrow> nat \<Rightarrow> main_state \<Rightarrow> main_state result" where
  "alone iterations op len t off n \<equiv> run_schedule iterations op len (replicate n (t, off))"

lemma inner_steps:
  "j + n \<le> nat len \<Longrightarrow>
   alone iterations op len t off (2 * n) (moved t (Inner i j k) arr p st)
   = and_then (for_loop (iterate op (buf_manager_of True t) t (nat off)) j n (arr, (k, p)))
       (\<lambda>(arr1, (k1, p1)). Inr (moved t (Inner i (j + n) k1) arr1 p1 st))"
proof (induction n arbitrary: j k arr p)
  case 0
  then show ?case by simp
next
  case (Suc n)
  let ?m = "buf_manager_of True t"
  let ?e = "(call_line op, elem_addr arr (nat off + j), of_nat j) :: access"
  have j: "int j < len" using Suc.prems by linarith
  show ?case
  proof (cases "op_call op ?m t ?e (k, p)")
    case (Inl e)
    with j show ?thesis by (simp add: thread_step_def Let_def iterate_def logged_store_def)
  next
    case (Inr kp)
    obtain k1 p1 where kp: "kp = (k1, p1)" by (cases kp)
    show ?thesis
    proof (cases "store_elem (nat off + j) (of_nat j) arr")
      case (Inl e)
      with Inr kp j show ?thesis by (simp add: thread_step_def Let_def iterate_def logged_store_def)
    next
      fix arr1 assume arr1: "store_elem (nat off + j) (of_nat j) arr = Inr arr1"
      have "iterate op ?m t (nat off) j (arr, (k, p)) = Inr (arr1, (k1, p1))"
        using Inr arr1 by (simp add: iterate_def logged_store_def kp)
      with Suc.IH [of "Suc j" k1 arr1 p1] Suc.prems Inr kp arr1 j show ?thesis
        by (simp add: thread_step_def Let_def)
    qed
  qed
qed

lemma round_steps:
  assumes op: "has_loop op" and i: "i < iterations"
  shows "alone iterations op len t off (2 * nat len + 2) (moved t (Outer i) arr p st)
    = and_then (run (buf_manager_of True t) t op (nat off) len (arr, p)) (\<lambda>(arr1, p1).
      Inr (moved t (Outer (Suc i)) arr1 p1 st))"
proof -
  let ?m = "buf_manager_of True t"
  have split: "replicate (2 * nat len + 2) x = x # replicate (2 * nat len) x @ [x]" for x :: "nat \<times> int"
    by (simp add: replicate_append_same)
  show ?thesis
  proof (cases "op_enter op ?m t p")
    case (Inl e)
    with i op show ?thesis unfolding split by (simp add: thread_step_def Let_def run_in_steps [OF op])
  next
    case (Inr kp)
    obtain k p1 where kp: "kp = (k, p1)" by (cases kp)
    let ?loop = "for_loop (iterate op ?m t (nat off)) 0 (nat len) (arr, (k, p1))"
    have "alone iterations op len t off (2 * nat len + 2) (moved t (Outer i) arr p st)
        = and_then (alone iterations op len t off (2 * nat len) (moved t (Inner i 0 k) arr p1 st))
            (thread_step iterations op len (t, off))"
    proof -
      have "thread_step iterations op len (t, off) (moved t (Outer i) arr p st)
          = Inr (moved t (Inner i 0 k) arr p1 st)"
        using Inr kp i op by (simp add: thread_step_def Let_def)
      then show ?thesis unfolding split by (simp add: run_schedule_append)
    qed
    also have "\<dots> = and_then ?loop (\<lambda>(arr1, (k1, p2)).
        and_then (op_leave t k1 p2) (\<lambda>p3. Inr (moved t (Outer (Suc i)) arr1 p3 st)))"
      by (cases ?loop) (auto simp: inner_steps thread_step_def Let_def)
    also have "\<dots> = and_then (run ?m t op (nat off) len (arr, p)) (\<lambda>(arr1, p1).
        Inr (moved t (Outer (Suc i)) arr1 p1 st))"
      using Inr kp by (cases ?loop) (auto simp: run_in_steps [OF op] and_then_assoc)
    finally show ?thesis .
  qed
qed

lemma rounds_steps:
  assumes op: "has_loop op"
  shows "i + n \<le> iterations \<Longrightarrow>
    alone iterations op len t off (n * (2 * nat len + 2)) (moved t (Outer i) arr p st)
    = and_then (for_loop (\<lambda>_. run (buf_manager_of True t) t op (nat off) len) i n (arr, p)) (\<lambda>(arr1, p1).
      Inr (moved t (Outer (i + n)) arr1 p1 st))"
proof (induction n arbitrary: i arr p)
  case 0
  then show ?case by simp
next
  case (Suc n)
  have split: "replicate (Suc n * (2 * nat len + 2)) x
      = replicate (2 * nat len + 2) x @ replicate (n * (2 * nat len + 2)) x" for x :: "nat \<times> int"
    by (simp add: replicate_add [symmetric])
  have "i < iterations" using Suc.prems by simp
  from round_steps [OF op this] Suc show ?case
    unfolding split
    by (cases "run (buf_manager_of True t) t op (nat off) len (arr, p)")
      (auto simp: run_schedule_append simp del: replicate_Suc)
qed

definition body_steps :: "nat \<Rightarrow> nat \<Rightarrow> nat" where
  "body_steps iterations n = 2 + iterations * (2 * n + 2)"

text \<open>
  C26: The steps of a thread that nobody interrupts are its body: they end where \<open>workerMain\<close> ends, after
  \<open>body_steps\<close> steps, with the same array and the same buffers, or fail as it fails.
\<close>

theorem workerMain_in_steps:
  assumes "has_loop op" and "ms_pc st t = Begin"
  shows "run_schedule iterations op len (replicate (body_steps iterations (nat len)) (t, off)) st
    = and_then (workerMain iterations (buf_manager_of True t) t op (nat off) len (ms_array st, ms_proc st))
        (\<lambda>(arr, p). Inr (moved t Done arr p st))"
proof -
  let ?p = "if op < BUFFER_MANAGER then own_buffer t (ms_proc st) else ms_proc st"
  let ?n = "iterations * (2 * nat len + 2)"
  have split: "replicate (body_steps iterations (nat len)) x = x # replicate ?n x @ [x]" for x :: "nat \<times> int"
    by (simp add: body_steps_def replicate_append_same)
  have "run_schedule iterations op len (replicate (body_steps iterations (nat len)) (t, off)) st
      = and_then (alone iterations op len t off ?n (moved t (Outer 0) (ms_array st) ?p st))
          (thread_step iterations op len (t, off))"
  proof -
    have "thread_step iterations op len (t, off) st = Inr (moved t (Outer 0) (ms_array st) ?p st)"
      using assms(2) by (simp add: thread_step_def Let_def)
    then show ?thesis unfolding split by (simp add: run_schedule_append del: run_schedule.simps(1))
  qed
  also have "\<dots> = and_then (for_loop (\<lambda>_. run (buf_manager_of True t) t op (nat off) len) 0 iterations
        (ms_array st, ?p)) (\<lambda>(arr, p). Inr (moved t Done arr p st))"
    using rounds_steps [OF assms(1), of 0 iterations iterations len t off "ms_array st" ?p st]
    by (cases "for_loop (\<lambda>_. run (buf_manager_of True t) t op (nat off) len) 0 iterations (ms_array st, ?p)")
      (auto simp: thread_step_def Let_def)
  finally show ?thesis by (simp add: workerMain_def Let_def)
qed

theorem workerMain_in_steps_witness:
  "run_schedule 1 LOG_FULL 2 (replicate 8 (0, 1)) (main_start \<lparr>arr_base = 64, arr_elems = [9, 9, 9]\<rparr> init_process)
   = and_then (workerMain 1 0 0 LOG_FULL 1 2 (\<lparr>arr_base = 64, arr_elems = [9, 9, 9]\<rparr>, init_process))
       (\<lambda>(arr, p). Inr (moved 0 Done arr p (main_start \<lparr>arr_base = 64, arr_elems = [9, 9, 9]\<rparr> init_process)))"
  using workerMain_in_steps [of LOG_FULL "main_start \<lparr>arr_base = 64, arr_elems = [9, 9, 9]\<rparr> init_process" 0 1 2 1]
  by (simp add: has_loop_def main_start_def body_steps_def buf_manager_of_def del: run_schedule.simps)

end
