(* ===== verification/InterleavedMain.thy ===== *)
theory InterleavedMain
  imports MainSteps Schedules
begin

text \<open>
  \<open>main\<close> of \<open>Main.cc\<close> with its threads interleaved in any order, for the log operations that use no
  buffer manager: every thread has a buffer and a slice of the array of its own.
\<close>

section \<open>A thread and its buffer\<close>

text \<open>A step of thread \<open>t\<close> that touches no buffer but its own.\<close>

definition only_own :: "nat \<Rightarrow> process \<Rightarrow> process \<Rightarrow> bool" where
  "only_own t p p' \<longleftrightarrow> log_buffer p' = log_buffer p \<and> next_addr p' = next_addr p
     \<and> (\<forall>x. log_buffer p t \<noteq> Some x \<longrightarrow> heap p' x = heap p x)"

fun kept_good :: "LogOp \<Rightarrow> nat \<Rightarrow> kept \<Rightarrow> process \<Rightarrow> bool" where
  "kept_good op t NoLocals p \<longleftrightarrow>
     op \<notin> {LOG_DIRECT_LOAD, CACHED_BUF_PTR, LOG_FULL, LOG_FULL_128} \<and> op_good op t p"
| "kept_good op t (Position a n) p \<longleftrightarrow> op = LOG_DIRECT_LOAD \<and> direct_good t a (n, p)"
| "kept_good op t (Cached ref) p \<longleftrightarrow>
     op = CACHED_BUF_PTR \<and> ref_good (post_aligned 1024) t (ref, p)
     \<or> op = LOG_FULL \<and> ref_good (pre_aligned 10000000) t (ref, p)
     \<or> op = LOG_FULL_128 \<and> ref_good pair_aligned t (ref, p)"

lemma op_enter_ok:
  assumes "unmanaged op" and "op_good op t p"
  shows "\<exists>k. op_enter op this t p = Inr (k, p) \<and> kept_good op t k p"
  using assms
  by (cases op) (auto simp: unmanaged_def op_enter_def plain_good_def direct_good_def buf_good_def
      ref_good_def getLogBuffer_def getLogBufferRef_def getRef_def)

lemma op_leave_ok:
  assumes "kept_good op t k p"
  shows "\<exists>p'. op_leave t k p = Inr p' \<and> op_good op t p' \<and> only_own t p p'"
  using assms
  by (cases k) (auto simp: op_leave_def only_own_def direct_good_def plain_good_def ref_good_def
      buf_good_def getLogBuffer_def set_events_def destroy_Ref_def modify_buf_def load_buf_def)

lemmas plain_calls = log_addr_call volatile_bufptr_call log_header_call log_value_call
  log_src_loc_call log_full_naive_call global_counter_call

lemma plain_call_ok:
  assumes "unmanaged op" and "kept_good op t NoLocals p"
  shows "\<exists>p'. plain_call op t e p = Inr p' \<and> op_good op t p' \<and> only_own t p p'"
proof -
  obtain pc addr val where e: "e = (pc, addr, val)" by (cases e)
  show ?thesis
  proof (cases "op = PREFETCH_LOG_ENTRY")
    case True
    with assms(2) obtain a b where ab: "log_buffer p t = Some a" "heap p a = Some b"
      "post_aligned 10000000 (eb_events b) (eb_nextRdtscTime b)" by (auto simp: prefetch_good_def)
    from prefetch.log_total [of t p e] assms(2) True obtain p' where
      "plain_call op t e p = Inr p'" "prefetch_good t p'" by (auto simp: plain_call_def)
    moreover from this have "only_own t p p'"
      using ab True by (auto simp: e plain_call_def prefetch_log_entries_call only_own_def)
    ultimately show ?thesis using True by simp
  next
    case False
    with assms show ?thesis
      by (cases op) (auto simp: unmanaged_def e plain_call_def plain_good_def plain_calls push_def
          only_own_def tsan_write8_func_def)
  qed
qed

lemma ref_call_ok:
  assumes "kept_good op t (Cached ref) p"
  shows "\<exists>ref' p'. ref_call op this t e (ref, p) = Inr (ref', p') \<and> kept_good op t (Cached ref') p'
    \<and> only_own t p p'"
proof -
  obtain pc addr val where e: "e = (pc, addr, val)" by (cases e)
  have total: "\<exists>s'. ref_call op this t e (ref, p) = Inr s' \<and> kept_good op t (Cached (fst s')) (snd s')"
    using assms cached_bufptr.log_total [of t "(ref, p)" this e] log_full.log_total [of t "(ref, p)" this e]
      log_full_128.log_total [of t "(ref, p)" this e]
    by (auto simp: ref_call_def)
  then obtain ref' p' where call: "ref_call op this t e (ref, p) = Inr (ref', p')"
    "kept_good op t (Cached ref') p'" by auto
  from assms obtain b where "heap p (ref_buf ref) = Some b" "log_buffer p t = Some (ref_buf ref)"
    by (auto simp: ref_good_def)
  with call assms have "only_own t p p'"
    by (auto simp: e ref_call_def cached_bufptr_call log_full_call log_full_128_call only_own_def)
  with call show ?thesis by blast
qed

lemma op_call_ok:
  assumes "unmanaged op" and "kept_good op t k p"
  shows "\<exists>k' p'. op_call op this t e (k, p) = Inr (k', p') \<and> kept_good op t k' p' \<and> only_own t p p'"
proof (cases k)
  case NoLocals
  with plain_call_ok [OF assms(1), of t p e] assms(2) show ?thesis by (auto simp: op_call_def)
next
  case (Position a n)
  with assms(2) obtain b where "heap p a = Some b" "0 \<le> n" "n < 1001" "log_buffer p t = Some a"
    "op = LOG_DIRECT_LOAD" by (auto simp: direct_good_def)
  with Position show ?thesis
    by (cases e) (auto simp: op_call_def log_addr_direct_call direct_good_def only_own_def)
next
  case (Cached ref)
  with assms(2) ref_call_ok [of op t ref p this e] show ?thesis by (auto simp: op_call_def)
qed

text \<open>What a thread needs of the process depends on its own buffer only.\<close>

lemma kept_good_frame:
  assumes "log_buffer p' t = log_buffer p t" and "\<And>a. log_buffer p t = Some a \<Longrightarrow> heap p' a = heap p a"
  shows "op_good op t p \<Longrightarrow> op_good op t p'" and "kept_good op t k p \<Longrightarrow> kept_good op t k p'"
proof -
  show op: "op_good op t p'" if "op_good op t p"
    using that assms by (cases op) (auto simp: plain_good_def prefetch_good_def buf_good_def)
  show "kept_good op t k p'" if "kept_good op t k p"
    using that assms op by (cases k) (auto simp: direct_good_def ref_good_def)
qed

section \<open>All threads\<close>

fun pc_inv :: "nat \<Rightarrow> LogOp \<Rightarrow> nat \<Rightarrow> nat \<Rightarrow> nat \<Rightarrow> int64_array \<Rightarrow> process \<Rightarrow> bench_pc \<Rightarrow> bool" where
  "pc_inv iterations op n t off arr p Begin \<longleftrightarrow> True"
| "pc_inv iterations op n t off arr p (Outer i) \<longleftrightarrow>
     i \<le> iterations \<and> op_good op t p \<and> written off n i 0 arr"
| "pc_inv iterations op n t off arr p (Inner i j k) \<longleftrightarrow>
     i < iterations \<and> j \<le> n \<and> kept_good op t k p \<and> written off n i j arr"
| "pc_inv iterations op n t off arr p (Stores i j k) \<longleftrightarrow>
     i < iterations \<and> j < n \<and> kept_good op t k p \<and> written off n i j arr"
| "pc_inv iterations op n t off arr p Done \<longleftrightarrow> written off n iterations 0 arr"

definition private_buffers :: "process \<Rightarrow> (nat \<Rightarrow> bench_pc) \<Rightarrow> bool" where
  "private_buffers p pc \<longleftrightarrow> (\<forall>t a. pc t \<noteq> Begin \<longrightarrow> log_buffer p t = Some a \<longrightarrow>
     a < next_addr p \<and> (\<forall>u. u \<noteq> t \<longrightarrow> pc u \<noteq> Begin \<longrightarrow> log_buffer p u \<noteq> Some a))"

text \<open>Thread \<open>t\<close> of \<open>m\<close> works on the \<open>n\<close> elements from \<open>t * n\<close> on.\<close>

definition main_inv :: "nat \<Rightarrow> LogOp \<Rightarrow> nat \<Rightarrow> nat \<Rightarrow> main_state \<Rightarrow> bool" where
  "main_inv iterations op n m st \<longleftrightarrow> length (arr_elems (ms_array st)) = m * n
     \<and> private_buffers (ms_proc st) (ms_pc st)
     \<and> (\<forall>t < m. pc_inv iterations op n t (t * n) (ms_array st) (ms_proc st) (ms_pc st t))"

lemma main_inv_start:
  "length (arr_elems arr) = m * n \<Longrightarrow> main_inv iterations op n m (main_start arr p)"
  by (simp add: main_inv_def main_start_def private_buffers_def)

lemma main_inv_private:
  assumes "main_inv iterations op n m st" and "ms_pc st t \<noteq> Begin" and "log_buffer (ms_proc st) t = Some a"
  shows "a < next_addr (ms_proc st)
    \<and> (\<forall>u. u \<noteq> t \<longrightarrow> ms_pc st u \<noteq> Begin \<longrightarrow> log_buffer (ms_proc st) u \<noteq> Some a)"
  using assms unfolding main_inv_def private_buffers_def by blast

text \<open>
  A step of \<open>t\<close> that stores at most in its slice, and that takes a buffer that nobody has if it takes
  one.
\<close>

lemma main_inv_moved:
  assumes inv: "main_inv iterations op n m st"
    and here: "pc_inv iterations op n t (t * n) arr p pc"
    and arr: "length (arr_elems arr) = length (arr_elems (ms_array st))"
      "\<And>x. (\<And>k. k < n \<Longrightarrow> x \<noteq> t * n + k) \<Longrightarrow> arr_elems arr ! x = arr_elems (ms_array st) ! x"
    and others: "\<And>u. u \<noteq> t \<Longrightarrow> log_buffer p u = log_buffer (ms_proc st) u"
      "\<And>u a. u \<noteq> t \<Longrightarrow> ms_pc st u \<noteq> Begin \<Longrightarrow> log_buffer (ms_proc st) u = Some a \<Longrightarrow>
        heap p a = heap (ms_proc st) a"
    and own: "next_addr (ms_proc st) \<le> next_addr p"
      "\<And>a. log_buffer p t = Some a \<Longrightarrow> a < next_addr p
        \<and> (\<forall>u. u \<noteq> t \<longrightarrow> ms_pc st u \<noteq> Begin \<longrightarrow> log_buffer (ms_proc st) u \<noteq> Some a)"
  shows "main_inv iterations op n m (moved t pc arr p st)"
proof -
  have "pc_inv iterations op n u (u * n) arr p (ms_pc st u)" if u: "u < m" "u \<noteq> t" for u
  proof (cases "ms_pc st u = Begin")
    case True
    then show ?thesis by simp
  next
    case False
    have written: "written (u * n) n i j arr = written (u * n) n i j (ms_array st)" for i j
      using arr(2) slices_apart [OF u(2)] by (simp add: written_def)
    note frame = kept_good_frame [of p u "ms_proc st" op, OF others(1) others(2), OF u(2) u(2) False]
    from inv u(1) have "pc_inv iterations op n u (u * n) (ms_array st) (ms_proc st) (ms_pc st u)"
      by (simp add: main_inv_def)
    then show ?thesis by (cases "ms_pc st u") (auto simp: written intro: frame)
  qed
  moreover have "private_buffers p ((ms_pc st)(t := pc))"
    unfolding private_buffers_def
  proof (intro allI impI)
    fix u a
    assume u: "((ms_pc st)(t := pc)) u \<noteq> Begin" "log_buffer p u = Some a"
    show "a < next_addr p \<and> (\<forall>v. v \<noteq> u \<longrightarrow> ((ms_pc st)(t := pc)) v \<noteq> Begin \<longrightarrow> log_buffer p v \<noteq> Some a)"
    proof (cases "u = t")
      case True
      with own(2) [of a] others(1) u show ?thesis by auto
    next
      case False
      with u others(1) have old: "ms_pc st u \<noteq> Begin" "log_buffer (ms_proc st) u = Some a" by auto
      with inv have "a < next_addr (ms_proc st)"
        and apart: "\<forall>v. v \<noteq> u \<longrightarrow> ms_pc st v \<noteq> Begin \<longrightarrow> log_buffer (ms_proc st) v \<noteq> Some a"
        by (auto simp: main_inv_def private_buffers_def)
      moreover have "log_buffer p t \<noteq> Some a" using own(2) [of a] old False by auto
      ultimately show ?thesis using own(1) others(1) by (auto split: if_splits)
    qed
  qed
  ultimately show ?thesis using inv here arr(1) by (auto simp: main_inv_def)
qed

lemma main_inv_own:
  assumes inv: "main_inv iterations op n m st" and t: "t < m"
    and "pc_inv iterations op n t (t * n) (ms_array st) p pc"
    and own: "only_own t (ms_proc st) p" and started: "ms_pc st t \<noteq> Begin"
  shows "main_inv iterations op n m (moved t pc (ms_array st) p st)"
proof -
  show ?thesis
    by (rule main_inv_moved [OF inv assms(3)])
      (use own main_inv_private [OF inv started] in \<open>auto simp: only_own_def\<close>)
qed

text \<open>The other threads' buffers and the place of the array.\<close>

definition keeps_others :: "nat \<Rightarrow> main_state \<Rightarrow> int64_array \<Rightarrow> process \<Rightarrow> bool" where
  "keeps_others t st arr p \<longleftrightarrow> arr_base arr = arr_base (ms_array st)
     \<and> (\<forall>u a. u \<noteq> t \<longrightarrow> ms_pc st u \<noteq> Begin \<longrightarrow> log_buffer p u = log_buffer (ms_proc st) u
         \<and> (log_buffer (ms_proc st) u = Some a \<longrightarrow> heap p a = heap (ms_proc st) a))"

lemma keeps_others_own:
  assumes "main_inv iterations op n m st" and "only_own t (ms_proc st) p" and "ms_pc st t \<noteq> Begin"
    and "arr_base arr = arr_base (ms_array st)"
  shows "keeps_others t st arr p"
  unfolding keeps_others_def
proof (intro conjI allI impI)
  fix u a
  assume "u \<noteq> t" "ms_pc st u \<noteq> Begin" "log_buffer (ms_proc st) u = Some a"
  with main_inv_private [OF assms(1), of u a] assms(3) have "log_buffer (ms_proc st) t \<noteq> Some a" by auto
  with assms(2) show "heap p a = heap (ms_proc st) a" by (simp add: only_own_def)
qed (use assms(2,4) in \<open>simp_all add: only_own_def\<close>)

section \<open>Progress\<close>

fun progress :: "nat \<Rightarrow> nat \<Rightarrow> bench_pc \<Rightarrow> nat" where
  "progress iterations n Begin = 0"
| "progress iterations n (Outer i) = 1 + i * (2 * n + 2)"
| "progress iterations n (Inner i j k) = 2 + i * (2 * n + 2) + 2 * j"
| "progress iterations n (Stores i j k) = 3 + i * (2 * n + 2) + 2 * j"
| "progress iterations n Done = 2 + iterations * (2 * n + 2)"

lemma progress_bound:
  assumes "pc_inv iterations op n t off arr p pc"
  shows "progress iterations n pc \<le> body_steps iterations n"
    and "progress iterations n pc = body_steps iterations n \<Longrightarrow> pc = Done"
proof -
  have round: "i * (2 * n + 2) + (2 * n + 2) \<le> iterations * (2 * n + 2)" if "i < iterations" for i
    using mult_le_mono1 [of "Suc i" iterations "2 * n + 2"] that by simp
  have outer: "i * (2 * n + 2) \<le> iterations * (2 * n + 2)" if "i \<le> iterations" for i
    using that by (rule mult_le_mono1)
  show "progress iterations n pc \<le> body_steps iterations n"
    using assms round outer by (cases pc) (force simp: body_steps_def)+
  show "pc = Done" if "progress iterations n pc = body_steps iterations n"
    using assms that round outer by (cases pc) (force simp: body_steps_def)+
qed

lemma unmanaged_has_loop: "unmanaged op \<Longrightarrow> has_loop op"
  by (auto simp: unmanaged_def has_loop_def)

lemma only_own_refl [simp]: "only_own t p p"
  by (simp add: only_own_def)

text \<open>The start of a thread and a store keep the invariant.\<close>

lemma main_inv_begin:
  assumes inv: "main_inv iterations op n m st" and t: "t < m" and "ms_pc st t = Begin"
  shows "main_inv iterations op n m (moved t (Outer 0) (ms_array st) (own_buffer t (ms_proc st)) st)"
    and "keeps_others t st (ms_array st) (own_buffer t (ms_proc st))"
proof -
  let ?p = "ms_proc st" and ?q = "own_buffer t (ms_proc st)"
  show "main_inv iterations op n m (moved t (Outer 0) (ms_array st) ?q st)"
  proof (rule main_inv_moved [OF inv])
    show "pc_inv iterations op n t (t * n) (ms_array st) ?q (Outer 0)"
      by (simp add: op_good_own_buffer written_def)
    show "heap ?q a = heap ?p a" if "u \<noteq> t" "ms_pc st u \<noteq> Begin" "log_buffer ?p u = Some a" for u a
      using inv that by (auto simp: main_inv_def private_buffers_def own_buffer_def)
    show "a < next_addr ?q \<and> (\<forall>u. u \<noteq> t \<longrightarrow> ms_pc st u \<noteq> Begin \<longrightarrow> log_buffer ?p u \<noteq> Some a)"
      if "log_buffer ?q t = Some a" for a
      using inv that by (fastforce simp: main_inv_def private_buffers_def own_buffer_def)
  qed (simp_all add: own_buffer_def)
  show "keeps_others t st (ms_array st) ?q"
    using inv by (auto simp: keeps_others_def main_inv_def private_buffers_def own_buffer_def)
qed

lemma main_inv_store:
  assumes inv: "main_inv iterations op n m st" and t: "t < m" and pc: "ms_pc st t = Stores i j k"
  defines "arr \<equiv> (ms_array st)\<lparr>arr_elems := (arr_elems (ms_array st))[t * n + j := of_nat j]\<rparr>"
  shows "store_elem (t * n + j) (of_nat j) (ms_array st) = Inr arr"
    and "main_inv iterations op n m (moved t (Inner i (Suc j) k) arr (ms_proc st) st)"
proof -
  have here: "pc_inv iterations op n t (t * n) (ms_array st) (ms_proc st) (Stores i j k)"
    using inv t pc by (metis main_inv_def)
  have bound: "t * n + n \<le> length (arr_elems (ms_array st))"
    using inv t mult_le_mono1 [of "Suc t" m n] by (simp add: main_inv_def)
  have j: "j < n" using here by simp
  then show "store_elem (t * n + j) (of_nat j) (ms_array st) = Inr arr"
    using bound by (simp add: store_elem_def arr_def)
  show "main_inv iterations op n m (moved t (Inner i (Suc j) k) arr (ms_proc st) st)"
  proof (rule main_inv_moved [OF inv])
    show "pc_inv iterations op n t (t * n) arr (ms_proc st) (Inner i (Suc j) k)"
      using here j bound by (auto simp: arr_def intro: written_Suc)
    show "arr_elems arr ! x = arr_elems (ms_array st) ! x" if "\<And>k. k < n \<Longrightarrow> x \<noteq> t * n + k" for x
      using that [OF j] by (simp add: arr_def)
    show "a < next_addr (ms_proc st) \<and> (\<forall>u. u \<noteq> t \<longrightarrow> ms_pc st u \<noteq> Begin \<longrightarrow> log_buffer (ms_proc st) u \<noteq> Some a)"
      if "log_buffer (ms_proc st) t = Some a" for a
      using main_inv_private [OF inv _ that] pc by simp
  qed (simp_all add: arr_def)
qed

lemma thread_step_cases:
  assumes op: "unmanaged op" and inv: "main_inv iterations op (nat len) m st" and t: "t < m"
    and busy: "ms_pc st t \<noteq> Done"
  shows "\<exists>pc arr p. thread_step iterations op len (t, int t * len) st = Inr (moved t pc arr p st)
    \<and> main_inv iterations op (nat len) m (moved t pc arr p st)
    \<and> progress iterations (nat len) pc = Suc (progress iterations (nat len) (ms_pc st t))
    \<and> keeps_others t st arr p"
proof -
  let ?n = "nat len" and ?arr = "ms_array st" and ?p = "ms_proc st"
  have off: "nat (int t * len) = t * ?n" by (simp add: nat_mult_distrib)
  have here: "pc_inv iterations op ?n t (t * ?n) ?arr ?p (ms_pc st t)" using inv t by (simp add: main_inv_def)
  note own = main_inv_own [OF inv t]
  have go: ?thesis if "thread_step iterations op len (t, int t * len) st = Inr (moved t pc arr p st)"
    "main_inv iterations op ?n m (moved t pc arr p st)"
    "progress iterations ?n pc = Suc (progress iterations ?n (ms_pc st t))" "keeps_others t st arr p" for pc arr p
    using that by blast
  note others = keeps_others_own [OF inv]
  show ?thesis
  proof (cases "ms_pc st t")
    case Begin
    let ?q = "own_buffer t ?p"
    from main_inv_begin [OF inv t Begin] show ?thesis using Begin op
      by (intro go [of "Outer 0" ?arr ?q]) (simp_all add: thread_step_def Let_def unmanaged_def)
  next
    case (Outer i)
    show ?thesis
    proof (cases "i = iterations")
      case True
      with own [of ?p Done] here Outer show ?thesis
        by (intro go [of Done ?arr ?p]) (simp_all add: thread_step_def Let_def others)
    next
      case False
      with op_enter_ok [OF op, of t ?p "buf_manager_of True t"] here Outer obtain k where
        k: "op_enter op (buf_manager_of True t) t ?p = Inr (k, ?p)" "kept_good op t k ?p" "i < iterations" by auto
      with own [of ?p "Inner i 0 k"] here Outer show ?thesis
        by (intro go [of "Inner i 0 k" ?arr ?p])
          (simp_all add: thread_step_def Let_def unmanaged_has_loop [OF op] others)
    qed
  next
    case (Inner i j k)
    show ?thesis
    proof (cases "j < ?n")
      case True
      let ?e = "(call_line op, elem_addr ?arr (t * ?n + j), of_nat j) :: access"
      from op_call_ok [OF op, of t k ?p "buf_manager_of True t" ?e] here Inner obtain k' p' where
        call: "op_call op (buf_manager_of True t) t ?e (k, ?p) = Inr (k', p')"
        "kept_good op t k' p'" "only_own t ?p p'" by auto
      with own [of p' "Stores i j k'"] here Inner True show ?thesis
        by (intro go [of "Stores i j k'" ?arr p'])
          (simp_all add: thread_step_def Let_def off zless_nat_eq_int_zless [symmetric] others)
    next
      case False
      with here Inner have j: "j = ?n" by simp
      from op_leave_ok here Inner obtain p' where
        "op_leave t k ?p = Inr p'" "op_good op t p'" "only_own t ?p p'" by fastforce
      moreover have "written (t * ?n) ?n (Suc i) 0 ?arr" using here Inner j by (auto simp: written_def)
      ultimately show ?thesis
        using own [of p' "Outer (Suc i)"] here Inner j
        by (intro go [of "Outer (Suc i)" ?arr p'])
          (simp_all add: thread_step_def Let_def zless_nat_eq_int_zless [symmetric] others)
    qed
  next
    case (Stores i j k)
    let ?arr' = "?arr\<lparr>arr_elems := (arr_elems ?arr)[t * ?n + j := of_nat j]\<rparr>"
    from main_inv_store [OF inv t Stores] Stores show ?thesis
      by (intro go [of "Inner i (Suc j) k" ?arr' ?p]) (simp_all add: thread_step_def Let_def off others)
  qed (use busy in simp)
qed

lemma run_schedule_log_all: "run_schedule iterations op len sched st = log_all (thread_step iterations op len) sched st"
  by (induction sched arbitrary: st) (auto intro!: arg_cong [of _ _ "and_then _"])

interpretation main_threads: scheduled "thread_step iterations op len" "(\<lambda>t. (t, int t * len)) ` {..<m}"
  "\<lambda>st. unmanaged op \<and> main_inv iterations op (nat len) m st"
  "\<lambda>x st. progress iterations (nat len) (ms_pc st (fst x))" "body_steps iterations (nat len)"
  for iterations op len m
proof unfold_locales
  fix st x
  assume st: "unmanaged op \<and> main_inv iterations op (nat len) m st" and x: "x \<in> (\<lambda>t. (t, int t * len)) ` {..<m}"
  then obtain t where t: "t < m" "x = (t, int t * len)" by auto
  with st have here: "pc_inv iterations op (nat len) t (t * nat len) (ms_array st) (ms_proc st) (ms_pc st t)"
    by (simp add: main_inv_def)
  note end_pc = progress_bound [OF here]
  from end_pc(1) t(2) show "progress iterations (nat len) (ms_pc st (fst x)) \<le> body_steps iterations (nat len)"
    by simp
  show "thread_step iterations op len x st = Inr st"
    if "progress iterations (nat len) (ms_pc st (fst x)) = body_steps iterations (nat len)"
    using that end_pc(2) t(2) by (simp add: thread_step_def Let_def)
  show "\<exists>st'. thread_step iterations op len x st = Inr st'
      \<and> (unmanaged op \<and> main_inv iterations op (nat len) m st')
      \<and> (\<forall>y \<in> (\<lambda>t. (t, int t * len)) ` {..<m}. progress iterations (nat len) (ms_pc st' (fst y))
          = progress iterations (nat len) (ms_pc st (fst y)) + (if y = x then 1 else 0))"
    if "progress iterations (nat len) (ms_pc st (fst x)) < body_steps iterations (nat len)"
  proof -
    from that t(2) have "ms_pc st t \<noteq> Done" by (auto simp: body_steps_def)
    from thread_step_cases [OF _ _ t(1) this, of op iterations len] st t show ?thesis by fastforce
  qed
qed

lemma run_schedule_ok:
  assumes "unmanaged op" and "main_inv iterations op (nat len) m st"
    and "set sched \<subseteq> (\<lambda>t. (t, int t * len)) ` {..<m}"
  shows "\<exists>st'. run_schedule iterations op len sched st = Inr st' \<and> main_inv iterations op (nat len) m st'
    \<and> (\<forall>t < m. progress iterations (nat len) (ms_pc st' t) = min (body_steps iterations (nat len))
         (progress iterations (nat len) (ms_pc st t) + count_list sched (t, int t * len)))"
  using main_threads.schedule_ok [of op iterations len m st sched] assms
  by (auto simp: run_schedule_log_all)

text \<open>
  C24: The threads of \<open>main\<close> may be interleaved in any way, call by call and store by store: with an
  operation below \<open>BUFFER_MANAGER\<close> no step of any of them fails, each ends after \<open>body_steps\<close> steps of
  its own, and when all have ended the array is filled as when they run one after the other.
\<close>

theorem interleaved_main_fills:
  assumes plan: "main_plan args = Inr pl" and op: "unmanaged (pl_op pl)" and "0 < iterations"
    and sched: "set sched \<subseteq> set (pl_threads pl)" and size: "int (length (arr_elems arr)) = pl_size pl"
  shows "\<exists>st. run_schedule iterations (pl_op pl) (pl_len pl) sched (main_start arr p) = Inr st
    \<and> ((\<forall>x \<in> set (pl_threads pl). body_steps iterations (nat (pl_len pl)) \<le> count_list sched x) \<longrightarrow>
        (\<forall>(t, off) \<in> set (pl_threads pl). ms_pc st t = Done)
        \<and> (\<forall>k < length (arr_elems arr). arr_elems (ms_array st) ! k = of_nat (k mod nat (pl_len pl))))"
proof -
  let ?n = "nat (pl_len pl)" and ?all = "body_steps iterations (nat (pl_len pl))"
  from main_plan_InrD(3) [OF plan] obtain m where m: "pl_size pl = int m * pl_len pl"
    "pl_threads pl = map (\<lambda>j. (j, int j * pl_len pl)) [0..<m]" "m = 0 \<or> 0 \<le> pl_len pl" by blast
  have total: "length (arr_elems arr) = m * ?n"
    using size m(1,3) by (cases "m = 0") (simp, metis nat_int nat_mult_distrib of_nat_0_le_iff)
  have threads: "set (pl_threads pl) = (\<lambda>t. (t, int t * pl_len pl)) ` {..<m}" using m(2) by auto
  from run_schedule_ok [OF op main_inv_start [OF total, of iterations "pl_op pl" p], of sched] sched
  obtain st where
    st: "run_schedule iterations (pl_op pl) (pl_len pl) sched (main_start arr p) = Inr st"
    and inv: "main_inv iterations (pl_op pl) ?n m st"
    and prog: "\<forall>t < m. progress iterations ?n (ms_pc st t)
      = min ?all (count_list sched (t, int t * pl_len pl))"
    by (auto simp: threads main_start_def)
  have here: "pc_inv iterations (pl_op pl) ?n t (t * ?n) (ms_array st) (ms_proc st) (ms_pc st t)"
    if "t < m" for t using inv that by (simp add: main_inv_def)
  have "(\<forall>(t, off) \<in> set (pl_threads pl). ms_pc st t = Done)
      \<and> (\<forall>k < length (arr_elems arr). arr_elems (ms_array st) ! k = of_nat (k mod ?n))"
    if "\<forall>x \<in> set (pl_threads pl). ?all \<le> count_list sched x"
  proof -
    have finished: "ms_pc st t = Done" if "t < m" for t
      using progress_bound(2) [OF here [OF that]] prog that
        \<open>\<forall>x \<in> set (pl_threads pl). ?all \<le> count_list sched x\<close> by (auto simp: threads)
    moreover have "arr_elems (ms_array st) ! k = of_nat (k mod ?n)" if "k < m * ?n" for k
      using all_written [OF _ assms(3) that, of "ms_array st"] here finished by auto
    ultimately show ?thesis using total by (auto simp: threads)
  qed
  with st show ?thesis by blast
qed

text \<open>Two threads of two elements, with one round each, that take turns.\<close>

theorem interleaved_main_fills_witness:
  "\<exists>st. run_schedule 1 LOG_ADDR 2 (concat (replicate 8 [(1, 2), (0, 0)]))
       (main_start \<lparr>arr_base = 64, arr_elems = [9, 9, 9, 9]\<rparr> init_process) = Inr st
     \<and> ms_pc st 0 = Done \<and> ms_pc st 1 = Done \<and> (\<forall>k < 4. arr_elems (ms_array st) ! k = of_nat (k mod 2))"
  using interleaved_main_fills [OF main_plan_example, of 1 "concat (replicate 8 [(1, 2), (0, 0)])"
      "\<lparr>arr_base = 64, arr_elems = [9, 9, 9, 9]\<rparr>" init_process]
  by (auto simp: unmanaged_def body_steps_def numeral_eq_Suc simp del: run_schedule.simps)

end
