(* ===== verification/IndependentThreads.thy ===== *)
theory IndependentThreads
  imports InterleavedMain
begin

text \<open>
  Interleaved threads log what they log alone: with the operations that use no buffer manager and no
  global counter, no interleaving changes what ends up in a thread's buffer.
\<close>

section \<open>Processes that look the same to a thread\<close>

definition agree :: "nat \<Rightarrow> process \<Rightarrow> process \<Rightarrow> bool" where
  "agree t p q \<longleftrightarrow> log_buffer q t = log_buffer p t
     \<and> (\<forall>a. log_buffer p t = Some a \<longrightarrow> heap q a = heap p a)"

lemma agree_only_own:
  assumes "agree t p q" and "only_own u p p'" and "\<And>a. log_buffer p t = Some a \<Longrightarrow> log_buffer p u \<noteq> Some a"
  shows "agree t p' q"
  using assms by (auto simp: agree_def only_own_def)

text \<open>The operations that work on nothing but the thread's buffer.\<close>

definition private_op :: "LogOp \<Rightarrow> bool" where
  "private_op op \<longleftrightarrow> unmanaged op \<and> op \<noteq> GLOBAL_COUNTER"

lemma op_enter_agree:
  assumes "private_op op" and "op_good op t p" and "agree t p q"
  shows "\<exists>k. op_enter op m t p = Inr (k, p) \<and> op_enter op m t q = Inr (k, q)"
  using assms
  by (cases op) (auto simp: private_op_def unmanaged_def op_enter_def plain_good_def buf_good_def agree_def
      getLogBuffer_def getLogBufferRef_def getRef_def load_buf_def)

lemma op_leave_agree:
  assumes "kept_good op t k p" and "agree t p q"
  shows "\<exists>p' q'. op_leave t k p = Inr p' \<and> op_leave t k q = Inr q' \<and> agree t p' q'"
  using assms
  by (cases k) (auto simp: op_leave_def direct_good_def ref_good_def agree_def getLogBuffer_def set_events_def
      destroy_Ref_def modify_buf_def load_buf_def)

lemma plain_call_agree:
  assumes "private_op op" and "kept_good op t NoLocals p" and "agree t p q"
  shows "\<exists>p' q'. plain_call op t e p = Inr p' \<and> plain_call op t e q = Inr q' \<and> agree t p' q'"
  using assms
  by (cases op; cases e) (auto simp: private_op_def unmanaged_def plain_call_def plain_good_def prefetch_good_def
      plain_calls prefetch_log_entries_call agree_def tsan_write8_func_def)

lemma ref_call_agree:
  assumes "kept_good op t (Cached ref) p" and "agree t p q"
  shows "\<exists>ref' p' q'. ref_call op m t e (ref, p) = Inr (ref', p') \<and> ref_call op m t e (ref, q) = Inr (ref', q')
    \<and> agree t p' q'"
proof -
  obtain pc addr val where e: "e = (pc, addr, val)" by (cases e)
  from assms(1) obtain b where b: "heap p (ref_buf ref) = Some b" "log_buffer p t = Some (ref_buf ref)"
    by (auto simp: ref_good_def)
  with assms(2) have q: "heap q (ref_buf ref) = Some b" "log_buffer q t = Some (ref_buf ref)"
    by (auto simp: agree_def)
  from assms b q have "kept_good op t (Cached ref) q" by (auto simp: ref_good_def)
  with assms b q show ?thesis
    by (auto simp: e ref_call_def cached_bufptr_call log_full_call log_full_128_call agree_def)
qed

lemma op_call_agree:
  assumes "private_op op" and "kept_good op t k p" and "agree t p q"
  shows "\<exists>k' p' q'. op_call op m t e (k, p) = Inr (k', p') \<and> op_call op m t e (k, q) = Inr (k', q')
    \<and> agree t p' q'"
proof (cases k)
  case NoLocals
  with plain_call_agree [of op t p q e] assms show ?thesis by (auto simp: op_call_def)
next
  case (Position a n)
  with assms show ?thesis
    by (cases e) (auto simp: op_call_def direct_good_def agree_def log_addr_direct_call)
next
  case (Cached ref)
  with ref_call_agree [of op t ref p q m e] assms show ?thesis by (auto simp: op_call_def)
qed

section \<open>States that look the same to a thread\<close>

definition same_thread :: "nat \<Rightarrow> main_state \<Rightarrow> main_state \<Rightarrow> bool" where
  "same_thread t st st' \<longleftrightarrow> ms_pc st' t = ms_pc st t \<and> arr_base (ms_array st') = arr_base (ms_array st)
     \<and> (ms_pc st t \<noteq> Begin \<longrightarrow> agree t (ms_proc st) (ms_proc st'))"

lemma same_thread_other:
  assumes "same_thread t st st'" and "keeps_others u st arr p" and "t \<noteq> u"
  shows "same_thread t (moved u pc arr p st) st'"
  using assms by (auto simp: same_thread_def keeps_others_def agree_def)

lemma same_thread_own:
  assumes op: "private_op op" and inv: "main_inv iterations op (nat len) m st" and t: "t < m"
    and inv': "main_inv iterations op (nat len) m st'"
    and same: "same_thread t st st'" and "ms_pc st t = Begin \<Longrightarrow> next_addr (ms_proc st') = next_addr (ms_proc st)"
    and step: "thread_step iterations op len (t, int t * len) st = Inr s1"
  shows "\<exists>s1'. thread_step iterations op len (t, int t * len) st' = Inr s1' \<and> same_thread t s1 s1'"
proof -
  let ?n = "nat len" and ?m = "buf_manager_of True t"
  have unm: "unmanaged op" using op by (simp add: private_op_def)
  have off: "nat (int t * len) = t * ?n" by (simp add: nat_mult_distrib)
  have pc: "ms_pc st' t = ms_pc st t" and base: "arr_base (ms_array st') = arr_base (ms_array st)"
    using same by (simp_all add: same_thread_def)
  then have elem: "elem_addr (ms_array st') x = elem_addr (ms_array st) x" for x by (simp add: elem_addr_def)
  have here: "pc_inv iterations op ?n t (t * ?n) (ms_array st) (ms_proc st) (ms_pc st t)"
    using inv t by (simp add: main_inv_def)
  show ?thesis
  proof (cases "ms_pc st t")
    case Begin
    with assms(6) step unm pc base show ?thesis
      by (auto simp: thread_step_def Let_def unmanaged_def same_thread_def agree_def own_buffer_def)
  next
    case (Outer i)
    with same have agree: "agree t (ms_proc st) (ms_proc st')" by (simp add: same_thread_def)
    from op_enter_agree [OF op _ agree, of ?m] here Outer obtain k where
      "op_enter op ?m t (ms_proc st) = Inr (k, ms_proc st)" "op_enter op ?m t (ms_proc st') = Inr (k, ms_proc st')"
      by auto
    with step Outer pc base agree show ?thesis
      by (auto simp: thread_step_def Let_def unmanaged_has_loop [OF unm] same_thread_def)
  next
    case (Inner i j k)
    with same have agree: "agree t (ms_proc st) (ms_proc st')" by (simp add: same_thread_def)
    show ?thesis
    proof (cases "int j < len")
      case True
      let ?e = "(call_line op, elem_addr (ms_array st) (t * ?n + j), of_nat j) :: access"
      from op_call_agree [OF op _ agree, of k ?m ?e] here Inner obtain k1 p1 q1 where
        "op_call op ?m t ?e (k, ms_proc st) = Inr (k1, p1)" "op_call op ?m t ?e (k, ms_proc st') = Inr (k1, q1)"
        "agree t p1 q1" by auto
      with step Inner pc base True show ?thesis
        by (auto simp: thread_step_def Let_def same_thread_def elem off)
    next
      case False
      from op_leave_agree [OF _ agree, of op k] here Inner obtain p1 q1 where
        "op_leave t k (ms_proc st) = Inr p1" "op_leave t k (ms_proc st') = Inr q1" "agree t p1 q1" by auto
      with step Inner pc base False show ?thesis
        by (auto simp: thread_step_def Let_def same_thread_def)
    qed
  next
    case (Stores i j k)
    with same have agree: "agree t (ms_proc st) (ms_proc st')" by (simp add: same_thread_def)
    from inv' t have "t * ?n + ?n \<le> length (arr_elems (ms_array st'))"
      using mult_le_mono1 [of "Suc t" m ?n] by (simp add: main_inv_def)
    with here Stores have "t * ?n + j < length (arr_elems (ms_array st'))" by simp
    with step Stores pc base agree show ?thesis
      by (auto simp: thread_step_def Let_def same_thread_def off store_elem_def split: if_splits)
  next
    case Done
    with step pc same show ?thesis by (auto simp: thread_step_def Let_def)
  qed
qed

section \<open>Runs\<close>

lemma run_schedule_inv:
  assumes "unmanaged op" and "length (arr_elems arr) = m * nat len"
    and "set sched \<subseteq> (\<lambda>t. (t, int t * len)) ` {..<m}"
    and "run_schedule iterations op len sched (main_start arr p) = Inr st"
  shows "main_inv iterations op (nat len) m st"
    and "t < m \<Longrightarrow> progress iterations (nat len) (ms_pc st t)
      = min (body_steps iterations (nat len)) (count_list sched (t, int t * len))"
  using run_schedule_ok [OF assms(1) main_inv_start [OF assms(2), of iterations op p] assms(3)] assms(4)
  by (auto simp: main_start_def)

lemma alone_Suc: "alone iterations op len t off (Suc n) st
    = and_then (alone iterations op len t off n st) (thread_step iterations op len (t, off))"
proof -
  have "replicate (Suc n) x = replicate n x @ [x]" for x :: "nat \<times> int" by (simp add: replicate_append_same)
  then show ?thesis by (simp only: run_schedule_append run_schedule_single)
qed

text \<open>
  The thread alone, from a process that will give it the buffer that it gets in the interleaved run.
\<close>

lemma alone_alike:
  assumes op: "private_op op" and size: "length (arr_elems arr) = m * nat len" and t: "t < m"
  shows "set sched \<subseteq> (\<lambda>t. (t, int t * len)) ` {..<m} \<Longrightarrow>
    run_schedule iterations op len sched (main_start arr p) = Inr st \<Longrightarrow>
    \<exists>a st'. alone iterations op len t (int t * len) (count_list sched (t, int t * len))
        (main_start arr (p\<lparr>next_addr := a\<rparr>)) = Inr st' \<and> same_thread t st st'"
proof (induction sched arbitrary: st rule: rev_induct)
  case Nil
  then show ?case by (auto simp: same_thread_def main_start_def)
next
  case (snoc x sched)
  let ?me = "(t, int t * len)" and ?c = "count_list sched (t, int t * len)"
  have unm: "unmanaged op" using op by (simp add: private_op_def)
  from snoc.prems(2) obtain st0 where st0: "run_schedule iterations op len sched (main_start arr p) = Inr st0"
    and step: "thread_step iterations op len x st0 = Inr st"
    by (auto simp: run_schedule_append and_then_Inr_iff)
  from snoc.prems(1) have sched: "set sched \<subseteq> (\<lambda>t. (t, int t * len)) ` {..<m}" by simp
  note inv = run_schedule_inv [OF unm size sched st0]
  from snoc.IH [OF sched st0] obtain a st' where
    alone: "alone iterations op len t (int t * len) ?c (main_start arr (p\<lparr>next_addr := a\<rparr>)) = Inr st'"
    and same: "same_thread t st0 st'" by blast
  show ?case
  proof (cases "x = ?me")
    case True
    have "\<exists>a' s1. alone iterations op len t (int t * len) ?c (main_start arr (p\<lparr>next_addr := a'\<rparr>)) = Inr s1
        \<and> same_thread t st0 s1 \<and> (ms_pc st0 t = Begin \<longrightarrow> next_addr (ms_proc s1) = next_addr (ms_proc st0))"
    proof (cases "ms_pc st0 t = Begin")
      case True
      with inv(2) [OF t] have "?c = 0" by (auto simp: body_steps_def min_def split: if_splits)
      moreover have "same_thread t st0 (main_start arr q)" for q
        using same alone True calculation by (auto simp: same_thread_def main_start_def)
      ultimately show ?thesis by (intro exI [of _ "next_addr (ms_proc st0)"]) (auto simp: main_start_def)
    next
      case False
      with alone same show ?thesis by blast
    qed
    then obtain a' s1 where
      s1: "alone iterations op len t (int t * len) ?c (main_start arr (p\<lparr>next_addr := a'\<rparr>)) = Inr s1"
      "same_thread t st0 s1" "ms_pc st0 t = Begin \<Longrightarrow> next_addr (ms_proc s1) = next_addr (ms_proc st0)" by blast
    have "set (replicate ?c ?me) \<subseteq> (\<lambda>t. (t, int t * len)) ` {..<m}" using t by auto
    from run_schedule_inv(1) [OF unm size this s1(1)] have "main_inv iterations op (nat len) m s1" .
    from same_thread_own [OF op inv(1) t this s1(2,3)] step True obtain s2 where
      "thread_step iterations op len ?me s1 = Inr s2" "same_thread t st s2" by blast
    with s1(1) have "alone iterations op len t (int t * len) (Suc ?c) (main_start arr (p\<lparr>next_addr := a'\<rparr>)) = Inr s2"
      by (simp add: alone_Suc del: replicate_Suc)
    with \<open>same_thread t st s2\<close> True show ?thesis by (auto simp del: replicate_Suc run_schedule.simps)
  next
    case False
    with snoc.prems(1) obtain u where u: "x = (u, int u * len)" "u < m" "u \<noteq> t" by auto
    have "same_thread t st st'"
    proof (cases "ms_pc st0 u = Done")
      case True
      with step same u show ?thesis by (simp add: thread_step_def Let_def)
    next
      case False
      from thread_step_cases [OF unm inv(1) u(2) False] step u(1) obtain pc arr1 p1 where
        "st = moved u pc arr1 p1 st0" "keeps_others u st0 arr1 p1" by auto
      with same_thread_other [OF same, of u] u(3) show ?thesis by simp
    qed
    with alone False show ?thesis by auto
  qed
qed

lemma alone_done:
  "ms_pc st t = Done \<Longrightarrow> alone iterations op len t off n st = Inr st"
  by (induction n) (simp_all add: thread_step_def Let_def)

text \<open>
  C25: With an operation that uses neither the buffer manager nor the global counter, no interleaving
  changes what a thread logs: when it has ended, its buffer is the one its body leaves when it runs
  alone, up to its address.
\<close>

theorem interleaved_log_is_own:
  assumes plan: "main_plan args = Inr pl" and op: "private_op (pl_op pl)"
    and sched: "set sched \<subseteq> set (pl_threads pl)" and size: "int (length (arr_elems arr)) = pl_size pl"
    and thread: "(t, off) \<in> set (pl_threads pl)"
    and ended: "body_steps iterations (nat (pl_len pl)) \<le> count_list sched (t, off)"
  shows "\<exists>st a arr' p'. run_schedule iterations (pl_op pl) (pl_len pl) sched (main_start arr p) = Inr st
    \<and> workerMain iterations (buf_manager_of True t) t (pl_op pl) (nat off) (pl_len pl)
        (arr, p\<lparr>next_addr := a\<rparr>) = Inr (arr', p')
    \<and> agree t p' (ms_proc st)"
proof -
  let ?n = "nat (pl_len pl)" and ?op = "pl_op pl" and ?len = "pl_len pl"
  have unm: "unmanaged ?op" using op by (simp add: private_op_def)
  from main_plan_InrD(3) [OF plan] obtain m where m: "pl_size pl = int m * ?len"
    "pl_threads pl = map (\<lambda>j. (j, int j * ?len)) [0..<m]" "m = 0 \<or> 0 \<le> ?len" by blast
  have total: "length (arr_elems arr) = m * ?n"
    using size m(1,3) by (cases "m = 0") (simp, metis nat_int nat_mult_distrib of_nat_0_le_iff)
  have threads: "set (pl_threads pl) = (\<lambda>t. (t, int t * ?len)) ` {..<m}" using m(2) by auto
  from thread have t: "t < m" "off = int t * ?len" by (auto simp: threads)
  note sched' = sched [unfolded threads]
  from run_schedule_ok [OF unm main_inv_start [OF total, of iterations ?op p] sched'] obtain st where
    run: "run_schedule iterations ?op ?len sched (main_start arr p) = Inr st" by blast
  note inv = run_schedule_inv [OF unm total sched' run]
  from alone_alike [OF op total t(1) sched' run] obtain a st' where
    alone: "alone iterations ?op ?len t off (count_list sched (t, off)) (main_start arr (p\<lparr>next_addr := a\<rparr>))
      = Inr st'" and same: "same_thread t st st'" by (auto simp: t(2))
  have "ms_pc st t = Done"
    using inv ended t progress_bound(2) by (fastforce simp: main_inv_def)
  from ended obtain d where d: "count_list sched (t, off) = body_steps iterations ?n + d"
    using le_Suc_ex by blast
  let ?q = "main_start arr (p\<lparr>next_addr := a\<rparr>)"
  from alone [unfolded d replicate_add run_schedule_append] workerMain_in_steps [OF unmanaged_has_loop [OF unm],
      of ?q t iterations ?len off] obtain arr' p' where
    body: "workerMain iterations (buf_manager_of True t) t ?op (nat off) ?len (arr, p\<lparr>next_addr := a\<rparr>) = Inr (arr', p')"
    and "st' = moved t Done arr' p' ?q"
    by (auto simp: and_then_Inr_iff main_start_def alone_done)
  with same \<open>ms_pc st t = Done\<close> have "agree t (ms_proc st) p'" by (simp add: same_thread_def)
  then have "agree t p' (ms_proc st)" by (simp add: agree_def)
  with run body show ?thesis by blast
qed

theorem interleaved_log_is_own_witness:
  "\<exists>st a arr' p'. run_schedule 1 LOG_ADDR 2 (concat (replicate 8 [(1, 2), (0, 0)]))
       (main_start \<lparr>arr_base = 64, arr_elems = [9, 9, 9, 9]\<rparr> init_process) = Inr st
     \<and> workerMain 1 0 0 LOG_ADDR 0 2 (\<lparr>arr_base = 64, arr_elems = [9, 9, 9, 9]\<rparr>, init_process\<lparr>next_addr := a\<rparr>)
       = Inr (arr', p') \<and> agree 0 p' (ms_proc st)"
  using interleaved_log_is_own [OF main_plan_example, of "concat (replicate 8 [(1, 2), (0, 0)])"
      "\<lparr>arr_base = 64, arr_elems = [9, 9, 9, 9]\<rparr>" 0 0 1 init_process]
  by (simp add: private_op_def unmanaged_def body_steps_def buf_manager_of_def numeral_eq_Suc
      del: run_schedule.simps)

end
