(* ===== verification/PlainBenchmarks.thy ===== *)
theory PlainBenchmarks
  imports MainProgram
begin

text \<open>
  The benchmarks without instrumentation, \<open>LocalWrites.cc\<close> and \<open>localwrites.c\<close>, and how the first
  relates to \<open>Main.cc\<close>. Output is left out; \<open>Timing\<close> has what they measure.
\<close>

section \<open>LocalWrites.cc\<close>

definition plain_run :: "nat \<Rightarrow> int \<Rightarrow> int64_array \<Rightarrow> int64_array result" where
  "plain_run off len arr =
     for_loop (\<lambda>i. store_elem (off + i) (of_nat i)) 0 (nat len) arr"

definition plain_workerMain :: "nat \<Rightarrow> nat \<Rightarrow> int \<Rightarrow> int64_array \<Rightarrow> int64_array result" where
  "plain_workerMain iterations off len =
     for_loop (\<lambda>_. plain_run off len) 0 iterations"

text \<open>The size of the array, the length of a slice and the slices of the threads.\<close>

definition plain_main :: "int list \<Rightarrow> (int \<times> int \<times> (nat \<times> int) list) result" where
  "plain_main args =
     (let (numThreads, len) = (case args of [n, l] \<Rightarrow> (n, l) | _ \<Rightarrow> (1, 1000000)) in
      and_then (int_mul numThreads len) (\<lambda>n.
      if n < 0 \<or> numThreads < 0 then Inl BadArrayLength
      else and_then (slices 0 (nat numThreads) len) (\<lambda>ts. Inr (n, len, ts))))"

fun plain_threads :: "nat \<Rightarrow> int \<Rightarrow> (nat \<times> int) list \<Rightarrow> int64_array \<Rightarrow> int64_array result" where
  "plain_threads iterations len [] arr = Inr arr"
| "plain_threads iterations len ((i, off) # ts) arr =
     and_then (plain_workerMain iterations (nat off) len arr) (plain_threads iterations len ts)"

lemma plain_run_noop: "plain_run = run_noop"
  by (simp add: plain_run_def run_noop_def fun_eq_iff)

text \<open>An operation that does not touch the runtime's state does the same to the array without it.\<close>

lemma for_loop_lift_array:
  "for_loop (\<lambda>_. lift_array f) i n (arr, p) = and_then (for_loop (\<lambda>_. f) i n arr) (\<lambda>a. Inr (a, p))"
proof (induction n arbitrary: i arr)
  case 0
  then show ?case by simp
next
  case (Suc n)
  show ?case by (cases "f arr") (simp_all add: lift_array_def [of f] Suc.IH [unfolded lift_array_def])
qed

lemma workerMain_noop:
  "workerMain iterations this t NO_OP off len (arr, p) =
     and_then (plain_workerMain iterations off len arr) (\<lambda>a. Inr (a, own_buffer t p))"
proof -
  have "run this t NO_OP off len = lift_array (run_noop off len)" by (simp add: run_def fun_eq_iff)
  then show ?thesis
    by (simp add: workerMain_def plain_workerMain_def plain_run_noop for_loop_lift_array)
qed

text \<open>
  C39: \<open>LocalWrites.cc\<close> is the program that \<open>Main.cc\<close> is with the operation \<open>NO_OP\<close>: the same set-up
  for the same arguments, the same effect on the array, and an error in the same cases.
\<close>

theorem LocalWrites_is_noop:
  "plain_main [n, l] = and_then (main_plan [n, l, 0]) (\<lambda>pl. Inr (pl_size pl, pl_len pl, pl_threads pl))
   \<and> plain_threads iterations len ts arr =
       and_then (run_threads iterations NO_OP len ts (arr, p)) (\<lambda>st. Inr (fst st))"
proof
  have "LogOp_of_int 0 = NO_OP" "buffer_size_read NO_OP = Inr MAX_EVENTS_SMALL"
    by code_simp+
  then show "plain_main [n, l] =
      and_then (main_plan [n, l, 0]) (\<lambda>pl. Inr (pl_size pl, pl_len pl, pl_threads pl))"
    by (cases "int_mul n l"; cases "slices 0 (nat n) l")
      (auto simp: plain_main_def main_plan_def main_args_def Let_def)
  show "plain_threads iterations len ts arr =
      and_then (run_threads iterations NO_OP len ts (arr, p)) (\<lambda>st. Inr (fst st))"
  proof (induction ts arbitrary: arr p)
    case Nil
    then show ?case by simp
  next
    case (Cons t ts)
    obtain i off where t: "t = (i, off)" by (cases t)
    show ?case
    proof (cases "plain_workerMain iterations (nat off) len arr")
      case (Inl e)
      then show ?thesis by (simp add: t workerMain_noop)
    next
      case (Inr a)
      with Cons.IH [of a "own_buffer i p"] show ?thesis by (simp add: t workerMain_noop)
    qed
  qed
qed

section \<open>localwrites.c\<close>

definition c_run :: "int \<Rightarrow> int64_array \<Rightarrow> int64_array result" where
  "c_run len arr = for_loop (\<lambda>i. store_elem i (of_nat i)) 0 (nat len) arr"

text \<open>
  \<open>malloc\<close> maps the number of bytes to the storage it returns, if any; without storage \<open>main\<close> exits
  with a message (\<open>Inr None\<close>). The number of bytes is computed in \<open>size_t\<close>.
\<close>

definition c_main :: "(u64 \<Rightarrow> int64_array option) \<Rightarrow> int list \<Rightarrow> int64_array option result" where
  "c_main malloc args =
     (let ntimes = 1000; len = (case args of [l] \<Rightarrow> l | _ \<Rightarrow> 1000000) in
      case malloc (8 * of_int len) of
        None \<Rightarrow> Inr None
      | Some arr \<Rightarrow> and_then (for_loop (\<lambda>_. c_run len) 0 ntimes arr) (\<lambda>a. Inr (Some a)))"

lemma c_run_noop: "c_run len = run_noop 0 len"
  by (simp add: c_run_def run_noop_def fun_eq_iff)

text \<open>
  For every length an \<open>int\<close> can hold, \<open>localwrites.c\<close> stays within the storage it asked for: with
  \<open>malloc\<close> returning storage of the requested size or nothing, it exits with a message or ends with
  every element set to its index.
\<close>

theorem localwrites_c_safe:
  assumes "\<And>n arr. malloc n = Some arr \<Longrightarrow> length (arr_elems arr) = unat n div 8"
    and "INT_MIN \<le> len" and "len \<le> INT_MAX"
  shows "c_main malloc [len] = Inr None \<or>
    (\<exists>arr. c_main malloc [len] = Inr (Some arr)
       \<and> (0 \<le> len \<longrightarrow> arr_elems arr = map of_nat [0..<nat len]))"
proof (cases "malloc (8 * of_int len)")
  case None
  then show ?thesis by (simp add: c_main_def Let_def)
next
  case (Some arr)
  have room: "nat len \<le> length (arr_elems arr)" and exact: "0 \<le> len \<Longrightarrow> length (arr_elems arr) = nat len"
  proof -
    have len: "length (arr_elems arr) = nat len" if "0 \<le> len"
    proof -
      have "8 * of_int len = (of_nat (8 * nat len) :: u64)" using that by simp
      moreover have "unat (of_nat (8 * nat len) :: u64) = 8 * nat len"
        using assms(3) by (simp add: unat_of_nat take_bit_nat_eq_self del: of_nat_mult)
      ultimately show ?thesis using assms(1) [OF Some] by (simp del: of_nat_mult)
    qed
    then show "0 \<le> len \<Longrightarrow> length (arr_elems arr) = nat len" .
    show "nat len \<le> length (arr_elems arr)" using len by (cases "0 \<le> len") simp_all
  qed
  let ?P = "\<lambda>k a. a = (if k = 0 then arr else filled 0 (nat len) arr)"
  have "\<exists>a. for_loop (\<lambda>_. c_run len) 0 1000 arr = Inr a \<and> ?P (1000 :: nat) a"
    by (rule for_loop_invariant [where P = ?P])
      (use room filled_twice [of 0 "nat len" arr] in \<open>auto simp: c_run_noop run_noop_filled\<close>)
  with Some exact show ?thesis by (auto simp: c_main_def Let_def filled_def)
qed

theorem localwrites_c_safe_witness:
  "\<exists>arr. c_main (\<lambda>n. Some \<lparr>arr_base = 4096, arr_elems = replicate (unat n div 8) 5\<rparr>) [3] = Inr (Some arr)
     \<and> arr_elems arr = [0, 1, 2]"
  using localwrites_c_safe [of "\<lambda>n. Some \<lparr>arr_base = 4096, arr_elems = replicate (unat n div 8) 5\<rparr>" 3]
  by (auto simp: c_main_def Let_def and_then_Inr_iff upt_rec)

end
