(* ===== verification/Timing.thy ===== *)
theory Timing
  imports PlainBenchmarks EarlierBench
begin

text \<open>
  The time stamp counter (\<open>rdtsc\<close> of \<open>Utils.h\<close>) and what the benchmarks measure with it. The
  instruction leaves the halves of the counter in two registers; \<open>regs i\<close> is what its \<open>i\<close>-th execution
  leaves there. The barriers \<open>escape\<close> and \<open>clobber\<close> and the branch hints of \<open>Utils.h\<close> change no value.
\<close>

section \<open>Reading the counter\<close>

definition tsc_value :: "u32 \<Rightarrow> u32 \<Rightarrow> u64" where
  "tsc_value lo hi = push_bit 32 (ucast hi) OR ucast lo"

lemma unat_tsc_value: "unat (tsc_value lo hi) = unat hi * 2 ^ 32 + unat lo"
proof -
  have hi: "unat hi < 2 ^ 32" and lo: "unat lo < 2 ^ 32"
    using unsigned_less [of hi] unsigned_less [of lo] by simp_all
  have "take_bit 64 (push_bit 32 (unat hi)) = push_bit 32 (unat hi)"
    using hi by (simp add: take_bit_nat_eq_self_iff push_bit_eq_mult)
  moreover have "take_bit 64 (unat hi) = unat hi" "take_bit 64 (unat lo) = unat lo"
    using hi lo by (simp_all add: take_bit_nat_eq_self_iff)
  ultimately have "unat (tsc_value lo hi) = push_bit 32 (unat hi) OR unat lo"
    by (simp add: tsc_value_def unsigned_or_eq unsigned_push_bit_eq unsigned_ucast_eq)
  moreover have "push_bit 32 (unat hi) AND unat lo = 0"
    by (rule bit_eqI) (auto simp: bit_simps dest: bit_imp_le_length)
  ultimately show ?thesis by (simp add: disjunctive_add_eq_or push_bit_eq_mult)
qed

text \<open>The registers can hold any value of the counter, and the benchmarks read it alike.\<close>

lemma tsc_value_halves: "tsc_value (ucast w) (ucast (drop_bit 32 w)) = w"
  by (rule bit_word_eqI) (auto simp: tsc_value_def bit_simps)

lemma rdtsc_eq: "rdtsc regs i = tsc_value (snd (regs i)) (fst (regs i))"
  by (simp add: rdtsc_def tsc_value_def split: prod.splits)

section \<open>Measured time\<close>

text \<open>
  \<open>uint64_t startTime = rdtsc(); body; uint64_t totalTime = rdtsc() - startTime;\<close> with the two readings
  the \<open>i\<close>-th and \<open>j\<close>-th of the program.
\<close>

definition totalTime :: "(nat \<Rightarrow> u32 \<times> u32) \<Rightarrow> nat \<Rightarrow> nat \<Rightarrow> u64" where
  "totalTime regs i j =
     (let startTime = (case regs i of (hi, lo) \<Rightarrow> tsc_value lo hi)
      in (case regs j of (hi, lo) \<Rightarrow> tsc_value lo hi) - startTime)"

text \<open>
  A counter that is at \<open>T i\<close> cycles at the \<open>i\<close>-th reading shows them modulo \<open>2 ^ 64\<close>. The difference
  is the number of cycles in between even if the counter has wrapped around meanwhile.
\<close>

definition counts_cycles :: "(nat \<Rightarrow> nat) \<Rightarrow> (nat \<Rightarrow> u32 \<times> u32) \<Rightarrow> bool" where
  "counts_cycles T regs \<longleftrightarrow>
     (\<forall>i. unat (fst (regs i)) * 2 ^ 32 + unat (snd (regs i)) = T i mod 2 ^ 64)"

lemma totalTime_cycles:
  assumes "counts_cycles T regs" and "T i \<le> T j"
  shows "unat (totalTime regs i j) = (T j - T i) mod 2 ^ 64"
proof -
  have read: "(case regs k of (hi, lo) \<Rightarrow> tsc_value lo hi) = of_nat (T k)" for k
    using assms(1) by (intro word_unat_eq_iff [THEN iffD2])
      (auto simp: unat_tsc_value unat_of_nat counts_cycles_def split: prod.splits dest: spec [of _ k])
  have "totalTime regs i j = of_nat (T j - T i)"
    using assms(2) by (simp add: totalTime_def read of_nat_diff)
  then show ?thesis by (simp add: unat_of_nat)
qed

end
