(* ===== verification/InsertCall.thy ===== *)
theory InsertCall
  imports Prelude
begin

text \<open>
  \<open>Skeleton.cpp\<close>, the LLVM pass that inserts a call of the runtime library. LLVM itself is a
  parameter: the type of instructions, the test \<open>is_binop\<close> for \<open>BinaryOperator\<close>, and \<open>CreateCall\<close>,
  which builds the call of \<open>logop\<close> on an operand or fails where the operand does not have the type
  of the parameter. A function is the list of its basic blocks.
\<close>

section \<open>The pass\<close>

text \<open>
  The loop over a block's instructions, with its early exit: \<open>None\<close> where no instruction is a binary
  operator, otherwise the block with the call after the first one.
\<close>

fun visit_block ::
  "('i \<Rightarrow> bool) \<Rightarrow> ('i \<Rightarrow> 'i result) \<Rightarrow> 'i list \<Rightarrow> 'i list option result" where
  "visit_block is_binop CreateCall [] = Inr None"
| "visit_block is_binop CreateCall (op # is) =
     (if is_binop op then and_then (CreateCall op) (\<lambda>call. Inr (Some (op # call # is)))
      else and_then (visit_block is_binop CreateCall is) (\<lambda>r. Inr (map_option ((#) op) r)))"

fun visit_blocks ::
  "('i \<Rightarrow> bool) \<Rightarrow> ('i \<Rightarrow> 'i result) \<Rightarrow> 'i list list \<Rightarrow> (bool \<times> 'i list list) result" where
  "visit_blocks is_binop CreateCall [] = Inr (False, [])"
| "visit_blocks is_binop CreateCall (B # Bs) =
     and_then (visit_block is_binop CreateCall B) (\<lambda>r.
     case r of
       Some B' \<Rightarrow> Inr (True, B' # Bs)
     | None \<Rightarrow> and_then (visit_blocks is_binop CreateCall Bs) (\<lambda>(changed, Bs').
         Inr (changed, B # Bs')))"

text \<open>
  The module holds the names of its declared functions; \<open>getOrInsertFunction\<close> adds \<open>logop\<close> in any
  case.
\<close>

definition runOnFunction ::
  "('i \<Rightarrow> bool) \<Rightarrow> ('i \<Rightarrow> 'i result) \<Rightarrow> string set \<Rightarrow> 'i list list
     \<Rightarrow> (bool \<times> string set \<times> 'i list list) result" where
  "runOnFunction is_binop CreateCall decls F =
     and_then (visit_blocks is_binop CreateCall F) (\<lambda>(changed, F').
     Inr (changed, insert ''logop'' decls, F'))"

section \<open>What it inserts\<close>

lemma visit_block_none: "\<forall>i \<in> set is. \<not> is_binop i \<Longrightarrow> visit_block is_binop CreateCall is = Inr None"
  by (induction "is") auto

lemma visit_block_some:
  "\<forall>i \<in> set is1. \<not> is_binop i \<Longrightarrow> is_binop op \<Longrightarrow>
   visit_block is_binop CreateCall (is1 @ op # is2) =
     and_then (CreateCall op) (\<lambda>call. Inr (Some (is1 @ op # call # is2)))"
  by (induction is1) (auto simp: and_then_assoc)

lemma visit_blocks_none:
  "\<forall>B \<in> set Bs. \<forall>i \<in> set B. \<not> is_binop i \<Longrightarrow> visit_blocks is_binop CreateCall Bs = Inr (False, Bs)"
  by (induction Bs) (auto simp: visit_block_none)

lemma visit_blocks_some:
  "\<forall>B \<in> set Bs1. \<forall>i \<in> set B. \<not> is_binop i \<Longrightarrow> \<forall>i \<in> set is1. \<not> is_binop i \<Longrightarrow> is_binop op \<Longrightarrow>
   visit_blocks is_binop CreateCall (Bs1 @ (is1 @ op # is2) # Bs2) =
     and_then (CreateCall op) (\<lambda>call. Inr (True, Bs1 @ (is1 @ op # call # is2) # Bs2))"
  by (induction Bs1) (auto simp: visit_block_none visit_block_some and_then_assoc)

text \<open>
  C40: the pass changes a function exactly when it has a binary operator; then it puts one call, on the
  result of the first binary operator, right behind that operator, and leaves every other instruction
  where it is. It reports no change, and makes none to the function, otherwise.
\<close>

theorem runOnFunction_inserts:
  "(\<forall>B \<in> set F. \<forall>i \<in> set B. \<not> is_binop i)
     \<and> runOnFunction is_binop CreateCall decls F = Inr (False, insert ''logop'' decls, F)
   \<or> (\<exists>Bs1 is1 op is2 Bs2. F = Bs1 @ (is1 @ op # is2) # Bs2
       \<and> (\<forall>B \<in> set Bs1. \<forall>i \<in> set B. \<not> is_binop i) \<and> (\<forall>i \<in> set is1. \<not> is_binop i) \<and> is_binop op
       \<and> runOnFunction is_binop CreateCall decls F =
           and_then (CreateCall op) (\<lambda>call.
             Inr (True, insert ''logop'' decls, Bs1 @ (is1 @ op # call # is2) # Bs2)))"
proof (cases "\<exists>B \<in> set F. \<exists>i \<in> set B. is_binop i")
  case False
  then show ?thesis by (auto simp: runOnFunction_def visit_blocks_none)
next
  case True
  then obtain Bs1 B Bs2 where F: "F = Bs1 @ B # Bs2" "\<exists>i \<in> set B. is_binop i"
    "\<forall>B \<in> set Bs1. \<not> (\<exists>i \<in> set B. is_binop i)"
    using split_list_first_prop [of F "\<lambda>B. \<exists>i \<in> set B. is_binop i"] by blast
  from split_list_first_prop [OF F(2)] obtain is1 op is2 where "B = is1 @ op # is2" "is_binop op" "\<forall>i \<in> set is1. \<not> is_binop i"
    by blast
  with F show ?thesis
    by (intro disjI2 exI [of _ Bs1] exI [of _ is1] exI [of _ op] exI [of _ is2] exI [of _ Bs2])
      (auto simp: runOnFunction_def visit_blocks_some and_then_assoc)
qed

theorem runOnFunction_inserts_witness:
  "runOnFunction (\<lambda>i. i = ''add'') (\<lambda>op. Inr (''call '' @ op)) {} [[''load''], [''mul'', ''add'', ''ret'']]
     = Inr (True, {''logop''}, [[''load''], [''mul'', ''add'', ''call add'', ''ret'']])"
proof -
  let ?F = "[[''load''], [''mul'', ''add'', ''ret'']]"
  have "\<exists>B \<in> set ?F. ''add'' \<in> set B" by simp
  with runOnFunction_inserts [of ?F "\<lambda>i. i = ''add''" "\<lambda>op. Inr (''call '' @ op)" "{}"] show ?thesis
    by (simp add: runOnFunction_def)
qed

end
