(* ===== verification/Spec2Isabelle.thy ===== *)
theory Spec2Isabelle
  imports Guarantees LoggedEvents Progress SkippedRaces ManagerEnd WellTyped ManagedMain GlobalOrder EarlierThreads
    EarlierRaces IndependentThreads Timing
    InsertCall
begin

text \<open>
  FastLog: a model of the logging runtime and its benchmarks, and what holds of them.

  \<^bold>\<open>The program.\<close> Application threads log their memory writes into event buffers. \<open>Main.cc\<close> is a
  benchmark that fills an array from several threads and logs every write with one of seventeen log
  operations, from an empty function to the full design: a buffer per thread and epoch
  (\<open>EventBuffer.h\<close>), a buffer manager that hands buffers out, ends epochs and reclaims them
  (\<open>BufferManager.h\<close>, \<open>BufferManager.cc\<close>), thread-local variables that name a thread's manager,
  context and buffer (\<open>Context.h\<close>, \<open>Context.cc\<close>), and detached workers that wait for the buffers of
  an epoch, count their events and return them (\<open>Worker.h\<close>). \<open>local_writes_benchmarks.cc\<close> is an
  earlier form of the same design with its own manager; \<open>LocalWrites.cc\<close> and \<open>localwrites.c\<close> are the
  benchmark without logging; \<open>Skeleton.cpp\<close> is an LLVM pass that inserts a call.

  \<^bold>\<open>The theories.\<close>
  \<^item> \<open>Prelude\<close>: errors, results, checked \<open>int\<close> arithmetic, counted loops, the contract of an epoch
    election (locale \<open>epoch_election\<close>).
  \<^item> \<open>EventLayout\<close> (\<open>LoggerConsts.h\<close> and the event words of \<open>Main.cc\<close>): the masks, one \<open>encode_\<close>
    function per layout, and the fields a reader of the log gets back.
  \<^item> \<open>RuntimeState\<close>: the records \<open>EventBuffer\<close>, \<open>BufferManager\<close>, \<open>Context\<close>, \<open>worker\<close> and the
    \<open>process\<close> that holds them all, buffers by address. \<open>BufferRef\<close> (\<open>EventBuffer::Ref\<close>) and \<open>Manager\<close>
    (\<open>BufferManager.cc\<close>, \<open>Context.h\<close>, \<open>Worker.h\<close>): one function per method. \<open>ManagerSpec\<close>: what the
    methods promise; the manager's interpretation of \<open>epoch_election\<close>. \<open>WorkerRun\<close>: a worker on its
    own.
  \<^item> \<open>Logging\<close>: every \<open>__tsan_write8_\<close> function of \<open>Main.cc\<close> and its slow path. \<open>RingLog\<close>: the
    contract of a log function that wraps around (locales \<open>total_log\<close> and \<open>ring_log\<close>), with the
    theorem that the events of the last \<open>cap div width\<close> calls are in the buffer. \<open>LogRings\<close>: its
    interpretation for each of them. \<open>GlobalOrder\<close>: the atomic event counter.
  \<^item> \<open>Loops\<close> and \<open>MainProgram\<close>: the \<open>run_\<close> loops, the dispatch, the thread body and \<open>main\<close>.
    \<open>MainSteps\<close>: the same thread body in steps (\<open>thread_step\<close>). \<open>Schedules\<close>: tasks that take turns in
    any order, each with a number of steps to go (locale \<open>scheduled\<close>), and tasks that do not see each
    other's steps (locale \<open>private_tasks\<close>), which end as they do alone; both benchmarks interpret them.
    \<open>InterleavedMain\<close>: \<open>main\<close> with its threads interleaved in any order, for the operations that use
    no buffer manager. \<open>IndependentThreads\<close>: the interleaving changes no thread's log.
  \<^item> \<open>Concurrent\<close>: threads in \<open>run_buf_manager\<close> and workers as an interleaving of steps (\<open>app_step\<close>,
    \<open>worker_step\<close>, \<open>sys_step\<close>), and the reachable states. \<open>Conservation\<close> and \<open>Invariants\<close>: the
    invariant \<open>sys_ok\<close> of all reachable states. \<open>Ownership\<close>: the stronger invariant \<open>exclusive_ok\<close> of
    those in which no epoch has been skipped (\<open>no_skip\<close>). \<open>Safety\<close>: which steps can fail then.
    \<open>ManagedLog\<close>: the log function of this mode from event to event. \<open>Scenarios\<close>, \<open>Executions\<close>,
    \<open>Guarantees\<close>: the sequential functions as runs of steps, executions that exist, and the
    guarantees with the executions that show where they end.
  \<^item> \<open>LifeCycle\<close>: an abstract machine for one buffer (\<open>life\<close>), which the runtime refines.
    \<open>LoggedEvents\<close>: a history of the logged accesses beside the state, and the theorem that the
    buffers hold exactly these. \<open>Progress\<close>: fair infinite executions, in which workers finish.
    \<open>HappensBefore\<close>: happens-before over a trace of accesses and synchronisation, and a sufficient
    condition for the absence of data races. \<open>DataRaces\<close>: the trace of an execution
    (\<open>traced_run\<close>), and the theorem that it has no data race but one. \<open>ManagerEnd\<close>: this one, between a
    worker and the destructor of a thread-local manager. \<open>SkippedRaces\<close>: a race after a skipped epoch.
    \<open>WellTyped\<close>: all values have their C++ types. \<open>ManagedMain\<close>: the thread body and \<open>main\<close> in
    this mode, and the number of events after which the workers run out.
  \<^item> \<open>EarlierBench\<close>, \<open>EarlierRings\<close>, \<open>EarlierEpochs\<close>, \<open>EarlierMain\<close>: \<open>local_writes_benchmarks.cc\<close>;
    \<open>EarlierThreads\<close>: its threads interleaved call by call and store by store (\<open>lt_step\<close>), with the
    bodies that stay in one buffer;
    \<open>EarlierConcurrent\<close>: its threads with the body that ends epochs, step by step (\<open>lw_step\<close>), and
    the refinement of \<open>lw_write8\<close>; \<open>EarlierInvariant\<close>: the invariant of the manager and the errors
    that remain; \<open>EarlierRaces\<close>: buffers that are lost or shared, and a pointer that outlives its
    thread.
  \<^item> \<open>PlainBenchmarks\<close>: \<open>LocalWrites.cc\<close>, \<open>localwrites.c\<close>. \<open>Timing\<close>: \<open>rdtsc\<close> of \<open>Utils.h\<close> and the
    number of cycles that the benchmarks measure with it. \<open>InsertCall\<close>: \<open>Skeleton.cpp\<close>.

  \<^bold>\<open>State and operations.\<close> A pointer to a buffer is an address of the heap, \<open>None\<close> the null pointer.
  A thread-local variable is a function of the thread; an address of \<open>__log_buffer\<close> is the number of
  its thread. \<open>int\<close> variables are integers with checked operations, since overflow is undefined;
  \<open>uint64_t\<close> and \<open>uint32_t\<close> values are words. Assertions, null and invalid pointers, accesses out of
  bounds, overflow and calls on destroyed objects are the errors of \<open>Prelude\<close>. \<open>Context.h\<close> declares
  the buffer manager thread-local, the design notes call it a singleton: the parameter \<open>tlocal\<close> of
  \<open>Concurrent\<close> selects the reading, and every guarantee is proved for both.

  \<^bold>\<open>Steps.\<close> Every method of the manager holds \<open>monitor\<close> throughout and is one step; so is every load of
  \<open>__log_buffer\<close>, every store of an event, each call of \<open>updateLogBuffer\<close>, and each test of \<open>closed\<close> in
  a worker. Theorem \<open>buf_manager_refined\<close> relates the steps to
  \<open>tsan_write8_buf_manager\<close>, and \<open>write8_run_of_steps\<close> those of the earlier benchmark to \<open>lw_write8\<close>. There
  each access to a member of a buffer is a step of its own (\<open>lw_access\<close>), also where
  \<open>endEpoch\<close> resets it and \<open>allocBuffer\<close> hands it out; both hold \<open>epochMutex\<close> over several steps,
  between which other threads go on logging. A round of stores in the loop of \<open>endEpoch\<close> is one step.

  \<^bold>\<open>Memory.\<close> \<open>__log_buffer\<close> is loaded and stored with relaxed order: a load outside the monitor may return
  a pointer that the coordinator has reset meanwhile (\<open>may_load\<close>). Everything else is sequentially
  consistent. For the plain variables \<open>data_race_free\<close> justifies it while no epoch is skipped: the
  managers' members and the owner and epoch of a buffer are protected by \<open>monitor\<close>, events and
  counters pass from thread to worker by \<open>closed\<close> and from worker to thread by the pool. The destructor of
  a thread-local manager, a step of its own behind that of the context, locks nothing, and is in no order
  with a worker's call of \<open>release\<close> (\<open>manager_end_unordered\<close>): this is the only data race, and a
  call on the destroyed manager is an error. Once an epoch is skipped there can be others
  (\<open>skipped_epoch_races\<close>), and the guarantees end. The earlier benchmark is sequentially
  consistent throughout, although its threads load \<open>__log_buffer\<close> by a plain access.

  \<^bold>\<open>Loops.\<close> Counted loops are \<open>for_loop\<close>, which ends by construction. A worker's busy-wait is a step that
  changes nothing while the buffer is open; \<open>worker_terminates\<close> bounds the number of steps once the
  buffers are closed, and \<open>abandoned_buffer_blocks_worker\<close> shows a wait that never ends. The timed wait
  of \<open>endEpoch\<close> in the earlier benchmark is a \<open>partial_function\<close>, since it ends only if the clock
  advances; \<open>endEpoch_contract\<close> says when it returns, and \<open>steady\<close> clocks, which advance by less than
  1000 cycles between two readings, are shown to make it return.

  \<^bold>\<open>Parameters.\<close> Readings of the time stamp counter, the order in which an unordered set is traversed,
  \<open>malloc\<close>, and LLVM's instructions with \<open>CreateCall\<close>.

  \<^bold>\<open>Ends of threads.\<close> In \<open>MainProgram\<close> and \<open>ManagedMain\<close> (\<open>run_threads\<close>) a thread ends with its body; the
  destructors of its context and manager run in \<open>Concurrent\<close> only.

  \<^bold>\<open>Not modelled.\<close> Output of the benchmarks, with the rates they compute in floating point from the cycles
  (the messages of the runtime itself are in \<open>printed\<close>), the prefetch instruction beyond the slots it names, compiler barriers and hints,
  the build files, \<open>rtlib.c\<close> and \<open>example.c\<close>.
\<close>

end
